theory Spec2Isabelle
  imports Complex_Main "HOL-Library.Log_Nat"
begin

section \<open>JavaScript strings and numbers\<close>

subsection \<open>Strings\<close>

text \<open>
  A string is the list of its UTF-16 code units, each written as a natural number.
  \<open>utf16\<close> gives the code units of a text whose characters lie between U+0000 and
  U+00FF; the rupee sign is the code unit U+20B9.
\<close>

type_synonym char16 = nat

type_synonym jsstring = "char16 list"

definition code :: "char \<Rightarrow> char16" where
  "code c = of_char c"

definition utf16 :: "string \<Rightarrow> jsstring" where
  "utf16 s = map code s"

definition rupee :: char16 where
  "rupee = 0x20B9"

text \<open>The class \<open>\d\<close>: the digits 0 to 9.\<close>

definition is_digit :: "char16 \<Rightarrow> bool" where
  "is_digit c \<longleftrightarrow> 48 \<le> c \<and> c \<le> 57"

text \<open>The class \<open>\s\<close>, which is also what \<open>trim\<close> removes: the white space and the
  line terminators of ECMAScript (tab, line feed, vertical tab, form feed, carriage
  return, space, no-break space, U+1680, U+2000 to U+200A, U+2028, U+2029, U+202F, U+205F,
  U+3000 and U+FEFF).\<close>

definition is_space :: "char16 \<Rightarrow> bool" where
  "is_space c \<longleftrightarrow>
     c \<in> set [0x09, 0x0A, 0x0B, 0x0C, 0x0D, 0x20, 0xA0, 0x1680, 0x2028, 0x2029, 0x202F, 0x205F,
              0x3000, 0xFEFF]
     \<or> (0x2000 \<le> c \<and> c \<le> 0x200A)"

definition trim :: "jsstring \<Rightarrow> jsstring" where
  "trim s = rev (dropWhile is_space (rev (dropWhile is_space s)))"

definition digit_value :: "char16 \<Rightarrow> nat" where
  "digit_value c = c - 48"

definition digits_value :: "jsstring \<Rightarrow> nat" where
  "digits_value ds = foldl (\<lambda>a c. 10 * a + digit_value c) 0 ds"

text \<open>The value of a decimal text: a run of digits, then optionally a dot and a
  (possibly empty) run of digits.\<close>

definition decimal_value :: "jsstring \<Rightarrow> rat" where
  "decimal_value s =
     (let ip = takeWhile is_digit s;
          r = dropWhile is_digit s;
          fp = (case r of [] \<Rightarrow> [] | c # r' \<Rightarrow> if c = code CHR ''.'' then takeWhile is_digit r' else [])
      in of_nat (digits_value ip) + of_nat (digits_value fp) / 10 ^ length fp)"

subsection \<open>Numbers\<close>

text \<open>
  A number is an IEEE 754 double. The numbers of this program are never negative and
  never NaN (nothing is subtracted, 0 is never divided by 0 and Infinity is never
  multiplied by 0), so a number is a finite double, written as the rational it denotes, or
  \<open>Infinity\<close>.

  \<open>ilog2 x\<close> is the exponent of a positive \<open>x\<close>, the integer \<open>e\<close> with
  \<open>2 powi e \<le> x < 2 powi (e + 1)\<close>; \<open>rne\<close> rounds to the nearest integer, a tie
  going to the even one; \<open>round64\<close> rounds to the nearest rational with 53 significant
  bits, or to the nearest multiple of \<open>2 powi (- 1074)\<close> below \<open>2 powi (- 1022)\<close>;
  \<open>binary64\<close> is the double nearest to a rational: \<open>Infinity\<close> when the rounded
  value reaches \<open>2 powi 1024\<close>.
\<close>

datatype number = Finite rat | Infinity

definition ilog2 :: "rat \<Rightarrow> int" where
  "ilog2 x =
     (let (p, q) = quotient_of x; d = bitlen p - bitlen q
      in if 2 powi d \<le> x then d else d - 1)"

definition rne :: "rat \<Rightarrow> int" where
  "rne y =
     (let f = \<lfloor>y\<rfloor>; r = y - of_int f
      in if r < 1 / 2 then f else if 1 / 2 < r then f + 1 else if even f then f else f + 1)"

definition round64 :: "rat \<Rightarrow> rat" where
  "round64 x =
     (if x = 0 then 0
      else let e = max (ilog2 \<bar>x\<bar>) (- 1022); u = 2 powi (e - 52)
           in of_int (rne (x / u)) * u)"

definition binary64 :: "rat \<Rightarrow> number" where
  "binary64 x = (let r = round64 x in if 2 powi 1024 \<le> \<bar>r\<bar> then Infinity else Finite r)"

text \<open>The operators \<open>+\<close>, \<open>*\<close> and \<open>/\<close>: the exact result, rounded. A product or
  a sum with \<open>Infinity\<close> is \<open>Infinity\<close>; so is a quotient by 0 (the dividend is
  positive where the program divides by a number that can be 0).\<close>

definition js_plus :: "number \<Rightarrow> number \<Rightarrow> number" where
  "js_plus a b =
     (case (a, b) of (Finite x, Finite y) \<Rightarrow> binary64 (x + y) | _ \<Rightarrow> Infinity)"

definition js_times :: "number \<Rightarrow> number \<Rightarrow> number" where
  "js_times a b =
     (case (a, b) of (Finite x, Finite y) \<Rightarrow> binary64 (x * y) | _ \<Rightarrow> Infinity)"

definition js_divide :: "number \<Rightarrow> number \<Rightarrow> number" where
  "js_divide a b =
     (case (a, b) of
        (Finite x, Finite y) \<Rightarrow> if y = 0 then Infinity else binary64 (x / y)
      | (Finite x, Infinity) \<Rightarrow> Finite 0
      | _ \<Rightarrow> Infinity)"

text \<open>\<open>Math.round\<close>: the nearest integer, a tie going up. It is exact: the nearest
  integer of a double is a double.\<close>

definition round_half_up :: "rat \<Rightarrow> int" where
  "round_half_up x = \<lfloor>x + 1 / 2\<rfloor>"

definition Math_round :: "number \<Rightarrow> number" where
  "Math_round a = (case a of Finite x \<Rightarrow> Finite (of_int (round_half_up x)) | Infinity \<Rightarrow> Infinity)"

text \<open>\<open>parseFloat\<close> on the texts the regular expressions capture: the double nearest
  to the decimal value.\<close>

definition parseFloat :: "jsstring \<Rightarrow> number" where
  "parseFloat s = binary64 (decimal_value s)"

subsection \<open>The regular expressions\<close>

text \<open>
  Each scanner matches its pattern at the head of the string and returns the text of
  capture group 1 with the rest of the string. The patterns are deterministic under
  backtracking: giving back a digit leaves a digit in front of \<open>\.\<close>, \<open>\s\<close> or the
  unit letter, so the greedy scan is the only one that can succeed.
\<close>

text \<open>\<open>(\d+(\.\d+)?)\<close>\<close>

definition scan_number :: "jsstring \<Rightarrow> (jsstring \<times> jsstring) option" where
  "scan_number s =
     (let ip = takeWhile is_digit s; r = dropWhile is_digit s
      in if ip = [] then None
         else (case r of
                 [] \<Rightarrow> Some (ip, r)
               | c # r' \<Rightarrow>
                   if c = code CHR ''.'' \<and> takeWhile is_digit r' \<noteq> []
                   then Some (ip @ c # takeWhile is_digit r', dropWhile is_digit r')
                   else Some (ip, r)))"

text \<open>\<open>(\d+\.?\d*)\<close>\<close>

definition scan_number_loose :: "jsstring \<Rightarrow> (jsstring \<times> jsstring) option" where
  "scan_number_loose s =
     (let ip = takeWhile is_digit s; r = dropWhile is_digit s
      in if ip = [] then None
         else (case r of
                 [] \<Rightarrow> Some (ip, r)
               | c # r' \<Rightarrow>
                   if c = code CHR ''.''
                   then Some (ip @ c # takeWhile is_digit r', dropWhile is_digit r')
                   else Some (ip, r)))"

text \<open>A number pattern, \<open>\s*\<close>, then an alternation whose first branch is the single
  letter \<open>u\<close>: \<open>(y|yr|year)\<close>, \<open>(m|mon|month)\<close>, \<open>(l|lpa|lakh)\<close> and \<open>k\<close> match
  exactly when their first letter does.\<close>

definition scan_unit ::
    "(jsstring \<Rightarrow> (jsstring \<times> jsstring) option) \<Rightarrow> char16 \<Rightarrow> jsstring \<Rightarrow> jsstring option" where
  "scan_unit num u s =
     (case num s of
        None \<Rightarrow> None
      | Some (g, r) \<Rightarrow>
          (case dropWhile is_space r of
             [] \<Rightarrow> None
           | c # _ \<Rightarrow> if c = u then Some g else None))"

text \<open>\<open>^(\d+(\.\d+)?)$\<close>\<close>

definition scan_whole_number :: "jsstring \<Rightarrow> jsstring option" where
  "scan_whole_number s =
     (case scan_number s of
        None \<Rightarrow> None
      | Some (g, r) \<Rightarrow> if r = [] then Some g else None)"

text \<open>\<open>String.prototype.match\<close> without the \<open>g\<close> flag: the match at the leftmost
  start position.\<close>

fun first_match :: "(jsstring \<Rightarrow> 'a option) \<Rightarrow> jsstring \<Rightarrow> 'a option" where
  "first_match m [] = m []"
| "first_match m (c # cs) =
     (case m (c # cs) of Some r \<Rightarrow> Some r | None \<Rightarrow> first_match m cs)"

section \<open>JavaScript values and thrown values\<close>

text \<open>
  A value as \<open>JSON.parse\<close> can return it, with \<open>undefined\<close> for the member that
  is not there. An object is the list of its own properties in the order of their
  creation; the order in which JavaScript enumerates the keys (integer keys first, in
  ascending order) is not modelled, since the members are read by name only. A string value is a list of code units, a number
  value a double.
\<close>

datatype jsval =
    JUndefined
  | JNull
  | JBool bool
  | JNum number
  | JStr jsstring
  | JArr "jsval list"
  | JObj "(string \<times> jsval) list"

type_synonym js_object = "(string \<times> jsval) list"

definition get_prop :: "js_object \<Rightarrow> string \<Rightarrow> jsval" where
  "get_prop obj k = (case map_of obj k of Some v \<Rightarrow> v | None \<Rightarrow> JUndefined)"

text \<open>Writing a property keeps the place of a key that exists and appends a new one.\<close>

fun set_prop :: "string \<Rightarrow> jsval \<Rightarrow> js_object \<Rightarrow> js_object" where
  "set_prop k v [] = [(k, v)]"
| "set_prop k v (p # ps) = (if fst p = k then (k, v) # ps else p # set_prop k v ps)"

text \<open>The decimal text of an array index.\<close>

fun decimal :: "nat \<Rightarrow> string" where
  "decimal n =
     (if n < 10 then [char_of (48 + n)]
      else decimal (n div 10) @ [char_of (48 + n mod 10)])"

text \<open>The own enumerable properties that a spread \<open>...v\<close> copies: those of an object,
  the elements of an array and the characters of a string under their indices, none for
  the other values.\<close>

definition own_props :: "jsval \<Rightarrow> js_object" where
  "own_props v =
     (case v of
        JObj ps \<Rightarrow> ps
      | JArr xs \<Rightarrow> zip (map decimal [0..<length xs]) xs
      | JStr s \<Rightarrow> zip (map decimal [0..<length s]) (map (\<lambda>c. JStr [c]) s)
      | _ \<Rightarrow> [])"

definition spread :: "js_object \<Rightarrow> jsval \<Rightarrow> js_object" where
  "spread obj v = foldl (\<lambda>acc p. set_prop (fst p) (snd p) acc) obj (own_props v)"

text \<open>What a \<open>throw\<close> or a rejected promise carries: an \<open>Error\<close> with its message, or
  a value that is not an instance of \<open>Error\<close> (the event a \<open>FileReader\<close> fails with).\<close>

datatype thrown = Error string | NonError

text \<open>\<open>s.split(',')[1]\<close>: the text between the first and the second comma,
  \<open>undefined\<close> when there is no comma.\<close>

definition split_comma_1 :: "string \<Rightarrow> string option" where
  "split_comma_1 s =
     (case dropWhile (\<lambda>c. c \<noteq> CHR '','') s of
        [] \<Rightarrow> None
      | _ # r \<Rightarrow> Some (takeWhile (\<lambda>c. c \<noteq> CHR '','') r))"

definition startsWith :: "string \<Rightarrow> string \<Rightarrow> bool" where
  "startsWith s p \<longleftrightarrow> take (length p) s = p"

primrec includes_str :: "string \<Rightarrow> string \<Rightarrow> bool" where
  "includes_str [] sub \<longleftrightarrow> sub = []"
| "includes_str (c # cs) sub \<longleftrightarrow> startsWith (c # cs) sub \<or> includes_str cs sub"

section \<open>The external collaborators\<close>

record File =
  name :: string
  type :: string
  bytes :: "nat list"

record canvas =
  width :: nat
  height :: nat
  pixels :: "nat list"

text \<open>What lines 71 to 80 of \<open>fileToGenerativePart\<close> give for one page number:
  the rendered canvas, no 2d context (the page is skipped), or a rejection of
  \<open>getPage\<close> or \<open>render\<close>.\<close>

datatype page_result = Rendered canvas | NoContext | PageError thrown

record pdf_document =
  numPages :: nat
  getPage :: "int \<Rightarrow> page_result"

text \<open>The stitched canvas: its size, the fill of the background and the images drawn
  on it, each with its vertical offset.\<close>

record composite =
  c_width :: nat
  c_height :: nat
  fillStyle :: string
  drawImage :: "(canvas \<times> nat) list"

datatype generative_part =
    InlineData string "string option"
  | TextPart string

datatype ai_request =
    ResumeRequest generative_part
  | MatchRequest js_object string

text \<open>
  The capabilities the code calls and does not define: the file reader, the PDF library
  (\<open>getDocument\<close> stands for the loading of the library, the read of the bytes and the
  opening of the document, each of which may reject), the 2d context of the stitched
  canvas by its size, its encoding, the text extractor, the generative model (its answer is
  \<open>response.text\<close>, which may be undefined), \<open>JSON.parse\<close> (\<open>None\<close> for a
  \<open>SyntaxError\<close>), the identifier generator, the text of the engine's
  \<open>TypeError\<close> messages and \<open>String.prototype.toLowerCase\<close>, the case mapping of
  Unicode.
\<close>

record env =
  readAsDataURL :: "File \<Rightarrow> string option"
  getDocument :: "File \<Rightarrow> thrown + pdf_document"
  getContext :: "nat \<Rightarrow> nat \<Rightarrow> bool"
  toDataURL :: "composite \<Rightarrow> string"
  extractRawText :: "File \<Rightarrow> thrown + string"
  generateContent :: "ai_request \<Rightarrow> thrown + string option"
  JSON_parse :: "string \<Rightarrow> jsval option"
  randomUUID :: string
  typeErrorMessage :: "string \<Rightarrow> string"
  toLowerCase :: "jsstring \<Rightarrow> jsstring"

section \<open>services/geminiService.ts\<close>

subsection \<open>toBase64\<close>

definition toBase64 :: "env \<Rightarrow> File \<Rightarrow> thrown + string option" where
  "toBase64 e f =
     (case readAsDataURL e f of
        None \<Rightarrow> Inl NonError
      | Some result \<Rightarrow> Inr (split_comma_1 result))"

subsection \<open>fileToGenerativePart\<close>

text \<open>The state of the loop over \<open>pagesToParse\<close>, with the values handed to
  \<open>onProgress\<close> so far. In \<open>(processedPages / totalPagesToProcess) * 75\<close> the
  quotient is that of a count of rendered pages by the length of the list the loop runs
  over: a double between 0 and 1, and its product with 75 a double up to 75. Both are
  finite and are written as rationals, each rounded by \<open>round64\<close>; the sum with 5 is a
  sum of two small integers, which is exact.\<close>

record render_state =
  renderedPages :: "canvas list"
  totalHeight :: nat
  maxWidth :: nat
  processedPages :: nat
  reported :: "int list"

definition render_init :: render_state where
  "render_init = \<lparr>renderedPages = [], totalHeight = 0, maxWidth = 0, processedPages = 0, reported = []\<rparr>"

fun render_pages :: "pdf_document \<Rightarrow> nat \<Rightarrow> int list \<Rightarrow> render_state \<Rightarrow> render_state \<times> thrown option" where
  "render_pages pdf totalPagesToProcess [] st = (st, None)"
| "render_pages pdf totalPagesToProcess (pageNum # rest) st =
     (if pageNum > int (numPages pdf) \<or> pageNum < 1
      then render_pages pdf totalPagesToProcess rest st
      else
        (case getPage pdf pageNum of
           PageError err \<Rightarrow> (st, Some err)
         | NoContext \<Rightarrow> render_pages pdf totalPagesToProcess rest st
         | Rendered cv \<Rightarrow>
             (let processed = processedPages st + 1;
                  progress = 5 + round_half_up
                    (round64 (round64 (of_nat processed / of_nat totalPagesToProcess) * 75))
              in render_pages pdf totalPagesToProcess rest
                   (st\<lparr>processedPages := processed,
                      reported := reported st @ [progress],
                      renderedPages := renderedPages st @ [cv],
                      totalHeight := totalHeight st + height cv,
                      maxWidth := max (maxWidth st) (width cv)\<rparr>))))"

text \<open>The second loop: each canvas is drawn at \<open>currentY\<close>, which then grows by its
  height.\<close>

fun draw_pages :: "canvas list \<Rightarrow> nat \<Rightarrow> (canvas \<times> nat) list" where
  "draw_pages [] currentY = []"
| "draw_pages (cv # cvs) currentY = (cv, currentY) # draw_pages cvs (currentY + height cv)"

definition pagesToParse :: "pdf_document \<Rightarrow> int list option \<Rightarrow> int list" where
  "pagesToParse pdf pages =
     (case pages of
        Some ps \<Rightarrow> if length ps > 0 then ps else map int [1..<Suc (numPages pdf)]
      | None \<Rightarrow> map int [1..<Suc (numPages pdf)])"

text \<open>The result is the list of the values given to \<open>onProgress\<close>, in order, and the
  part returned or the value thrown.\<close>

definition fileToGenerativePart ::
    "env \<Rightarrow> File \<Rightarrow> int list option \<Rightarrow> int list \<times> (thrown + generative_part)" where
  "fileToGenerativePart e f pages =
     (if startsWith (type f) ''image/'' then
        (case toBase64 e f of
           Inl err \<Rightarrow> ([5], Inl err)
         | Inr base64 \<Rightarrow> ([5, 80], Inr (InlineData (type f) base64)))
      else if type f = ''application/pdf'' then
        (case getDocument e f of
           Inl err \<Rightarrow> ([5], Inl err)
         | Inr pdf \<Rightarrow>
             (let toParse = pagesToParse pdf pages;
                  (st, failure) = render_pages pdf (length toParse) toParse render_init
              in case failure of
                   Some err \<Rightarrow> (5 # reported st, Inl err)
                 | None \<Rightarrow>
                     if length (renderedPages st) = 0
                     then (5 # reported st, Inl (Error ''Could not render any PDF pages.''))
                     else if \<not> getContext e (maxWidth st) (totalHeight st)
                     then (5 # reported st, Inl (Error ''Could not create final canvas context''))
                     else
                       (let finalCanvas =
                              \<lparr>c_width = maxWidth st, c_height = totalHeight st,
                               fillStyle = ''white'',
                               drawImage = draw_pages (renderedPages st) 0\<rparr>
                        in (5 # reported st @ [80],
                            Inr (InlineData ''image/jpeg'' (split_comma_1 (toDataURL e finalCanvas)))))))
      else if includes_str (type f) ''wordprocessingml'' \<or> includes_str (type f) ''msword'' then
        (case extractRawText e f of
           Inl err \<Rightarrow> ([5], Inl err)
         | Inr text \<Rightarrow> ([5, 80], Inr (TextPart text)))
      else ([5], Inl (Error (''Unsupported file type: '' @ type f))))"

subsection \<open>parseExperienceToNumber\<close>

definition yearMatches :: "jsstring \<Rightarrow> jsstring option" where
  "yearMatches lowerExp = first_match (scan_unit scan_number (code CHR ''y'')) lowerExp"

definition monthMatches :: "jsstring \<Rightarrow> jsstring option" where
  "monthMatches lowerExp = first_match (scan_unit scan_number (code CHR ''m'')) lowerExp"

definition parseExperienceToNumber :: "env \<Rightarrow> jsstring \<Rightarrow> number" where
  "parseExperienceToNumber e expString =
     (if expString = [] then Finite 0
      else
        let lowerExp = trim (toLowerCase e expString);
            totalYears0 = Finite 0;
            totalYears1 = (case yearMatches lowerExp of
                             Some g \<Rightarrow> js_plus totalYears0 (parseFloat g)
                           | None \<Rightarrow> totalYears0);
            totalYears2 = (case monthMatches lowerExp of
                             Some g \<Rightarrow> js_plus totalYears1 (js_divide (parseFloat g) (Finite 12))
                           | None \<Rightarrow> totalYears1);
            totalYears3 = (if yearMatches lowerExp = None \<and> monthMatches lowerExp = None
                           then (case scan_whole_number lowerExp of
                                   Some g \<Rightarrow> parseFloat g
                                 | None \<Rightarrow> totalYears2)
                           else totalYears2)
        in js_divide (Math_round (js_times totalYears3 (Finite 10))) (Finite 10))"

subsection \<open>parseResume\<close>

text \<open>A member read \<open>v.k\<close>, for the member names the code reads (none is an index or
  a built-in member): a \<open>TypeError\<close> on \<open>null\<close> and \<open>undefined\<close>, the property of
  an object, \<open>undefined\<close> on the other values.\<close>

definition read_member :: "env \<Rightarrow> string \<Rightarrow> jsval \<Rightarrow> string \<Rightarrow> thrown + jsval" where
  "read_member e what v k =
     (case v of
        JNull \<Rightarrow> Inl (Error (typeErrorMessage e (what @ ''.'' @ k)))
      | JUndefined \<Rightarrow> Inl (Error (typeErrorMessage e (what @ ''.'' @ k)))
      | JObj ps \<Rightarrow> Inr (get_prop ps k)
      | _ \<Rightarrow> Inr JUndefined)"

text \<open>The call of \<open>parseExperienceToNumber\<close> with a value that is not typed: a falsy
  value returns 0 at \<open>if (!expString)\<close>, a string goes on as above, and any other value
  has no \<open>toLowerCase\<close>.\<close>

definition call_parseExperienceToNumber :: "env \<Rightarrow> jsval \<Rightarrow> thrown + number" where
  "call_parseExperienceToNumber e v =
     (case v of
        JUndefined \<Rightarrow> Inr (Finite 0)
      | JNull \<Rightarrow> Inr (Finite 0)
      | JBool b \<Rightarrow>
          if b then Inl (Error (typeErrorMessage e ''expString.toLowerCase'')) else Inr (Finite 0)
      | JNum x \<Rightarrow>
          if x = Finite 0 then Inr (Finite 0)
          else Inl (Error (typeErrorMessage e ''expString.toLowerCase''))
      | JStr s \<Rightarrow> Inr (parseExperienceToNumber e s)
      | _ \<Rightarrow> Inl (Error (typeErrorMessage e ''expString.toLowerCase'')))"

text \<open>\<open>response.text || "{}"\<close>\<close>

definition text_or_braces :: "string option \<Rightarrow> string" where
  "text_or_braces t = (case t of None \<Rightarrow> ''{}'' | Some s \<Rightarrow> if s = [] then ''{}'' else s)"

text \<open>The object literal of \<open>finalCandidate\<close>, its members evaluated in order.\<close>

definition finalCandidate :: "env \<Rightarrow> File \<Rightarrow> jsval \<Rightarrow> thrown + js_object" where
  "finalCandidate e f parsedJson =
     (let c0 = spread [(''id'', JStr (utf16 (randomUUID e)))] parsedJson
      in case read_member e ''parsedJson'' parsedJson ''totalExperience'' of
           Inl err \<Rightarrow> Inl err
         | Inr te \<Rightarrow>
        (case call_parseExperienceToNumber e te of
           Inl err \<Rightarrow> Inl err
         | Inr totalExp \<Rightarrow>
        (case read_member e ''parsedJson'' parsedJson ''relevantExperience'' of
           Inl err \<Rightarrow> Inl err
         | Inr re \<Rightarrow>
        (case call_parseExperienceToNumber e re of
           Inl err \<Rightarrow> Inl err
         | Inr relevantExp \<Rightarrow>
             Inr (set_prop ''isShortlisted'' (JBool False)
                 (set_prop ''fileName'' (JStr (utf16 (name f)))
                 (set_prop ''relevantExperience'' (JNum relevantExp)
                 (set_prop ''totalExperience'' (JNum totalExp) c0))))))))"

text \<open>The outer \<open>catch\<close> of \<open>parseResume\<close>.\<close>

definition rethrow :: "thrown \<Rightarrow> thrown" where
  "rethrow err =
     (case err of
        Error message \<Rightarrow> Error (''AI processing failed: '' @ message)
      | NonError \<Rightarrow> Error ''An unknown error occurred during parsing.'')"

definition parseResume ::
    "env \<Rightarrow> File \<Rightarrow> int list option \<Rightarrow> int list \<times> (thrown + js_object)" where
  "parseResume e f pages =
     (let (progress, part) = fileToGenerativePart e f pages
      in case part of
           Inl err \<Rightarrow> (progress, Inl (rethrow err))
         | Inr filePart \<Rightarrow>
             (case generateContent e (ResumeRequest filePart) of
                Inl err \<Rightarrow> (progress, Inl (rethrow err))
              | Inr text \<Rightarrow>
                  (case JSON_parse e (text_or_braces text) of
                     None \<Rightarrow>
                       (progress @ [95],
                        Inl (rethrow (Error ''The AI model returned an invalid data format. Please try again.'')))
                   | Some parsedJson \<Rightarrow>
                       (progress @ [95, 100],
                        (case finalCandidate e f parsedJson of
                           Inl err \<Rightarrow> Inl (rethrow err)
                         | Inr finalCand \<Rightarrow> Inr finalCand)))))"

subsection \<open>analyzeCandidateMatch\<close>

record match_result =
  matchScore :: jsval
  matchReason :: jsval

definition candidateSummary :: "js_object \<Rightarrow> js_object" where
  "candidateSummary candidate =
     [(''skills'', get_prop candidate ''skills''),
      (''totalExperience'', get_prop candidate ''totalExperience''),
      (''designation'', get_prop candidate ''designation''),
      (''currentCompany'', get_prop candidate ''currentCompany''),
      (''education'', get_prop candidate ''highestQualification''),
      (''location'', get_prop candidate ''currentLocation'')]"

text \<open>The body of the \<open>try\<close> block. The message of the \<open>SyntaxError\<close> of
  \<open>JSON.parse\<close> is never read: the \<open>catch\<close> below drops the thrown value.\<close>

definition analyzeCandidateMatch_try :: "env \<Rightarrow> js_object \<Rightarrow> string \<Rightarrow> thrown + match_result" where
  "analyzeCandidateMatch_try e candidate jobDescription =
     (case generateContent e (MatchRequest (candidateSummary candidate) jobDescription) of
        Inl err \<Rightarrow> Inl err
      | Inr text \<Rightarrow>
          (case JSON_parse e (text_or_braces text) of
             None \<Rightarrow> Inl (Error ''SyntaxError'')
           | Some result \<Rightarrow>
               (case read_member e ''result'' result ''matchScore'' of
                  Inl err \<Rightarrow> Inl err
                | Inr score \<Rightarrow>
                    (case read_member e ''result'' result ''matchReason'' of
                       Inl err \<Rightarrow> Inl err
                     | Inr reason \<Rightarrow> Inr \<lparr>matchScore = score, matchReason = reason\<rparr>))))"

text \<open>The promise that \<open>analyzeCandidateMatch\<close> returns: the \<open>catch\<close> turns every
  thrown value into the fixed result.\<close>

definition analyzeCandidateMatch :: "env \<Rightarrow> js_object \<Rightarrow> string \<Rightarrow> thrown + match_result" where
  "analyzeCandidateMatch e candidate jobDescription =
     (case analyzeCandidateMatch_try e candidate jobDescription of
        Inl err \<Rightarrow>
          Inr \<lparr>matchScore = JNum (Finite 0), matchReason = JStr (utf16 ''Failed to analyze match.'')\<rparr>
      | Inr r \<Rightarrow> Inr r)"


section \<open>App.tsx\<close>

subsection \<open>The state of the component\<close>

text \<open>The three values of \<open>status\<close>: \<open>'parsing'\<close>, \<open>'success'\<close> and
  \<open>'error'\<close> (here \<open>Failed\<close>, the name \<open>error\<close> being the field of the message).\<close>

datatype status_kind = Parsing | Success | Failed

record FileStatus =
  status :: status_kind
  progress :: int
  error :: "string option"

text \<open>A call of \<open>processFile\<close> that has not settled yet: its arguments and the value
  of \<open>currentFileForPreview\<close> in the closure it was created in.\<close>

record pending =
  p_file :: File
  p_pages :: "int list option"
  p_preview :: "File option"

record app_state =
  candidates :: "js_object list"
  fileStatuses :: "string \<rightharpoonup> FileStatus"
  fileQueue :: "File list"
  currentFileForPreview :: "File option"
  isAutoParse :: bool
  isAnalyzingJob :: bool
  sortConfig :: "string option \<times> string"
  alerts :: "string list"
  inflight :: "pending list"

definition initial_state :: app_state where
  "initial_state =
     \<lparr>candidates = [], fileStatuses = Map.empty, fileQueue = [],
      currentFileForPreview = None, isAutoParse = False, isAnalyzingJob = False,
      sortConfig = (None, ''ascending''), alerts = [], inflight = []\<rparr>"

subsection \<open>handleFiles\<close>

definition handleFiles :: "File list \<Rightarrow> app_state \<Rightarrow> app_state" where
  "handleFiles files s =
     (if length files = 0 then s
      else
        (let newFiles = filter (\<lambda>f. fileStatuses s (name f) = None) files
         in s\<lparr>fileQueue := fileQueue s @ newFiles\<rparr>))"

subsection \<open>processFile\<close>

text \<open>
  \<open>processFile\<close> runs in three parts, with other handlers in between: the part before
  the \<open>await\<close>, the calls of \<open>onProgress\<close> while \<open>parseResume\<close> runs, and the part
  after the promise has settled (\<open>try\<close>, \<open>catch\<close> and \<open>finally\<close>).
\<close>

definition processFile_begin :: "File \<Rightarrow> int list option \<Rightarrow> app_state \<Rightarrow> app_state" where
  "processFile_begin f pages s =
     s\<lparr>fileStatuses := (fileStatuses s)(name f \<mapsto> \<lparr>status = Parsing, progress = 0, error = None\<rparr>),
       inflight := inflight s @ [\<lparr>p_file = f, p_pages = pages, p_preview = currentFileForPreview s\<rparr>]\<rparr>"

definition onProgress :: "File \<Rightarrow> int \<Rightarrow> app_state \<Rightarrow> app_state" where
  "onProgress f p s =
     s\<lparr>fileStatuses := (fileStatuses s)(name f \<mapsto> \<lparr>status = Parsing, progress = p, error = None\<rparr>)\<rparr>"

definition errorMessage :: "thrown \<Rightarrow> string" where
  "errorMessage err = (case err of Error message \<Rightarrow> message | NonError \<Rightarrow> ''Unknown error'')"

definition processFile_settle :: "pending \<Rightarrow> thrown + js_object \<Rightarrow> app_state \<Rightarrow> app_state" where
  "processFile_settle t outcome s =
     (let f = p_file t;
          s1 = (case outcome of
                  Inr result \<Rightarrow>
                    s\<lparr>candidates := candidates s @ [result],
                      fileStatuses := (fileStatuses s)(name f \<mapsto>
                         \<lparr>status = Success, progress = 100, error = None\<rparr>)\<rparr>
                | Inl err \<Rightarrow>
                    s\<lparr>fileStatuses := (fileStatuses s)(name f \<mapsto>
                         \<lparr>status = Failed, progress = 100, error = Some (errorMessage err)\<rparr>)\<rparr>);
          s2 = (case p_preview t of
                  Some shown \<Rightarrow>
                    if name shown = name f then s1\<lparr>currentFileForPreview := None\<rparr> else s1
                | None \<Rightarrow> s1)
      in s2\<lparr>fileQueue := filter (\<lambda>g. name g \<noteq> name f) (fileQueue s2)\<rparr>)"

text \<open>One call of \<open>processFile\<close> from its start to its end, with nothing in between.\<close>

definition processFile :: "env \<Rightarrow> File \<Rightarrow> int list option \<Rightarrow> app_state \<Rightarrow> app_state" where
  "processFile e f pages s =
     (let t = \<lparr>p_file = f, p_pages = pages, p_preview = currentFileForPreview s\<rparr>;
          s1 = s\<lparr>fileStatuses := (fileStatuses s)(name f \<mapsto>
                   \<lparr>status = Parsing, progress = 0, error = None\<rparr>)\<rparr>;
          (reports, outcome) = parseResume e f pages;
          s2 = foldl (\<lambda>acc p. onProgress f p acc) s1 reports
      in processFile_settle t outcome s2)"

subsection \<open>The queue manager\<close>

definition isParsing :: "app_state \<Rightarrow> File \<Rightarrow> bool" where
  "isParsing s f = (case fileStatuses s (name f) of Some st \<Rightarrow> status st = Parsing | None \<Rightarrow> False)"

definition QueueManager :: "app_state \<Rightarrow> app_state" where
  "QueueManager s =
     (if length (fileQueue s) = 0 then s
      else if currentFileForPreview s \<noteq> None \<and> \<not> isAutoParse s then s
      else
        (let nextFile = hd (fileQueue s)
         in if isParsing s nextFile then s
            else if isAutoParse s then processFile_begin nextFile None s
            else if currentFileForPreview s = None
                 then s\<lparr>currentFileForPreview := Some nextFile\<rparr>
                 else s))"

subsection \<open>The preview\<close>

text \<open>\<open>handleConfirm\<close> of the previewer (components/ResumePreviewer.tsx): the pages
  it hands to \<open>onConfirm\<close>, none for a file that is not a PDF. \<open>selectedPages\<close> is the
  set in the order of insertion.\<close>

definition handleConfirm :: "File \<Rightarrow> int list \<Rightarrow> int list option" where
  "handleConfirm f selectedPages =
     (if type f = ''application/pdf'' then Some (sort selectedPages) else None)"

definition handlePreviewConfirm :: "int list option \<Rightarrow> app_state \<Rightarrow> app_state" where
  "handlePreviewConfirm pages s =
     (case currentFileForPreview s of
        Some f \<Rightarrow> processFile_begin f pages s
      | None \<Rightarrow> s)"

definition handlePreviewCancel :: "app_state \<Rightarrow> app_state" where
  "handlePreviewCancel s =
     (case currentFileForPreview s of
        Some f \<Rightarrow> s\<lparr>fileQueue := drop 1 (fileQueue s), currentFileForPreview := None\<rparr>
      | None \<Rightarrow> s)"

definition handleClear :: "app_state \<Rightarrow> app_state" where
  "handleClear s =
     s\<lparr>candidates := [], fileStatuses := Map.empty, fileQueue := [],
       currentFileForPreview := None, sortConfig := (None, ''ascending'')\<rparr>"

subsection \<open>parseCTC\<close>

text \<open>\<open>replace(/[,\<dots>$]/g, '')\<close>, where the class holds the comma, the rupee sign and
  the dollar sign.\<close>

definition strip_ctc :: "jsstring \<Rightarrow> jsstring" where
  "strip_ctc s = filter (\<lambda>c. c \<noteq> code CHR '','' \<and> c \<noteq> rupee \<and> c \<noteq> code CHR ''$'') s"

definition lakhMatch :: "jsstring \<Rightarrow> jsstring option" where
  "lakhMatch lowerCtc = first_match (scan_unit scan_number_loose (code CHR ''l'')) lowerCtc"

definition kMatch :: "jsstring \<Rightarrow> jsstring option" where
  "kMatch lowerCtc = first_match (scan_unit scan_number_loose (code CHR ''k'')) lowerCtc"

definition numMatch :: "jsstring \<Rightarrow> jsstring option" where
  "numMatch lowerCtc = first_match (\<lambda>s. map_option fst (scan_number_loose s)) lowerCtc"

definition parseCTC :: "env \<Rightarrow> jsstring \<Rightarrow> number" where
  "parseCTC e ctc =
     (if ctc = [] then Finite 0
      else
        let lowerCtc = strip_ctc (toLowerCase e ctc)
        in (case lakhMatch lowerCtc of
              Some g \<Rightarrow> js_times (parseFloat g) (Finite 100000)
            | None \<Rightarrow>
                (case kMatch lowerCtc of
                   Some g \<Rightarrow> js_times (parseFloat g) (Finite 1000)
                 | None \<Rightarrow>
                     (case numMatch lowerCtc of
                        Some g \<Rightarrow> parseFloat g
                      | None \<Rightarrow> Finite 0))))"

subsection \<open>handleJobAnalysis\<close>

text \<open>\<open>Promise.all\<close>: the list of the results, or the first rejection.\<close>

fun Promise_all :: "(thrown + 'a) list \<Rightarrow> thrown + 'a list" where
  "Promise_all [] = Inr []"
| "Promise_all (p # ps) =
     (case p of
        Inl err \<Rightarrow> Inl err
      | Inr x \<Rightarrow> (case Promise_all ps of Inl err \<Rightarrow> Inl err | Inr xs \<Rightarrow> Inr (x # xs)))"

definition with_match :: "js_object \<Rightarrow> match_result \<Rightarrow> js_object" where
  "with_match candidate r =
     set_prop ''matchReason'' (matchReason r) (set_prop ''matchScore'' (matchScore r) candidate)"

definition analysisPromises :: "env \<Rightarrow> string \<Rightarrow> js_object list \<Rightarrow> (thrown + js_object) list" where
  "analysisPromises e jobDescription cs =
     map (\<lambda>candidate.
            case analyzeCandidateMatch e candidate jobDescription of
              Inl err \<Rightarrow> Inl err
            | Inr r \<Rightarrow> Inr (with_match candidate r)) cs"

text \<open>The result is the state the handler leaves, or the value it throws to its
  caller.\<close>

definition handleJobAnalysis :: "env \<Rightarrow> string \<Rightarrow> app_state \<Rightarrow> thrown + app_state" where
  "handleJobAnalysis e jobDescription s =
     (if length (candidates s) = 0 then Inr s
      else
        (case Promise_all (analysisPromises e jobDescription (candidates s)) of
           Inr analyzedCandidates \<Rightarrow>
             Inr (s\<lparr>candidates := analyzedCandidates,
                    sortConfig := (Some ''matchScore'', ''descending''),
                    isAnalyzingJob := False\<rparr>)
         | Inl err \<Rightarrow>
             Inr (s\<lparr>alerts := alerts s @
                      [''An error occurred while analyzing candidates against the job description.''],
                    isAnalyzingJob := False\<rparr>)))"

subsection \<open>Events\<close>

text \<open>
  What can happen to the component: files are selected, the preview is confirmed with the
  pages selected in it or cancelled, the mode is toggled, everything is cleared, the
  pending call number \<open>i\<close> reports a progress value or settles. The effect of the queue
  manager runs after every one of them; a second run of the effect changes nothing
  (\<open>QueueManager_idem\<close> below), so one run stands for the runs that follow a change of
  the state.
\<close>

datatype event =
    FilesSelected "File list"
  | PreviewConfirm "int list"
  | PreviewCancel
  | ToggleAutoParse
  | Clear
  | Progress nat int
  | Settle nat "thrown + js_object"

definition handle :: "event \<Rightarrow> app_state \<Rightarrow> app_state" where
  "handle ev s =
     (case ev of
        FilesSelected files \<Rightarrow> handleFiles files s
      | PreviewConfirm selectedPages \<Rightarrow>
          (case currentFileForPreview s of
             Some f \<Rightarrow> handlePreviewConfirm (handleConfirm f selectedPages) s
           | None \<Rightarrow> s)
      | PreviewCancel \<Rightarrow> handlePreviewCancel s
      | ToggleAutoParse \<Rightarrow> s\<lparr>isAutoParse := \<not> isAutoParse s\<rparr>
      | Clear \<Rightarrow> handleClear s
      | Progress i p \<Rightarrow>
          (if i < length (inflight s) then onProgress (p_file (inflight s ! i)) p s else s)
      | Settle i outcome \<Rightarrow>
          (if i < length (inflight s)
           then processFile_settle (inflight s ! i) outcome
                  (s\<lparr>inflight := take i (inflight s) @ drop (Suc i) (inflight s)\<rparr>)
           else s))"

definition step :: "event \<Rightarrow> app_state \<Rightarrow> app_state" where
  "step ev s = QueueManager (handle ev s)"

definition run :: "event list \<Rightarrow> app_state \<Rightarrow> app_state" where
  "run evs s = foldl (\<lambda>acc ev. step ev acc) s evs"


section \<open>Vocabulary of the properties\<close>

subsection \<open>Parsers\<close>

text \<open>A number that is not negative; rounding to one decimal place, as
  \<open>Math.round(x * 10) / 10\<close> does; the shape of a text that \<open>(\d+(\.\d+)?)\<close> can
  capture.\<close>

definition nonneg :: "number \<Rightarrow> bool" where
  "nonneg a = (case a of Finite x \<Rightarrow> 0 \<le> x | Infinity \<Rightarrow> True)"

definition round1 :: "number \<Rightarrow> number" where
  "round1 x = js_divide (Math_round (js_times x (Finite 10))) (Finite 10)"

definition is_decimal :: "jsstring \<Rightarrow> bool" where
  "is_decimal g \<longleftrightarrow>
     (let ip = takeWhile is_digit g; r = dropWhile is_digit g
      in ip \<noteq> [] \<and> (r = [] \<or> (hd r = code CHR ''.'' \<and> tl r \<noteq> [] \<and> list_all is_digit (tl r))))"

text \<open>What is known of \<open>toLowerCase\<close> where an example needs it: on a text of ASCII
  characters, white space and rupee signs it turns the letters A to Z into a to z and
  leaves every other code unit as it is.\<close>

definition lower_ascii :: "char16 \<Rightarrow> char16" where
  "lower_ascii c = (if 65 \<le> c \<and> c \<le> 90 then c + 32 else c)"

definition plain :: "char16 \<Rightarrow> bool" where
  "plain c \<longleftrightarrow> c < 128 \<or> is_space c \<or> c = rupee"

definition lowers_plain_text :: "env \<Rightarrow> bool" where
  "lowers_plain_text e \<longleftrightarrow> (\<forall>s. list_all plain s \<longrightarrow> toLowerCase e s = map lower_ascii s)"

subsection \<open>Rendering\<close>

text \<open>The selected page numbers within the document, the canvases of those that have a
  2d context, in the order of the selection, the rejections among them, in the same order,
  and their absence.\<close>

definition valid_pages :: "pdf_document \<Rightarrow> int list \<Rightarrow> int list" where
  "valid_pages pdf ps = filter (\<lambda>p. 1 \<le> p \<and> p \<le> int (numPages pdf)) ps"

definition rendered_canvases :: "pdf_document \<Rightarrow> int list \<Rightarrow> canvas list" where
  "rendered_canvases pdf ps =
     concat (map (\<lambda>p. case getPage pdf p of Rendered cv \<Rightarrow> [cv] | _ \<Rightarrow> []) (valid_pages pdf ps))"

definition page_errors :: "pdf_document \<Rightarrow> int list \<Rightarrow> thrown list" where
  "page_errors pdf ps =
     concat (map (\<lambda>p. case getPage pdf p of PageError err \<Rightarrow> [err] | _ \<Rightarrow> []) (valid_pages pdf ps))"

definition no_page_error :: "pdf_document \<Rightarrow> int list \<Rightarrow> bool" where
  "no_page_error pdf ps =
     list_all (\<lambda>p. case getPage pdf p of PageError err \<Rightarrow> False | _ \<Rightarrow> True) (valid_pages pdf ps)"

text \<open>The canvas that the second half of the PDF branch builds from the rendered
  ones.\<close>

definition stitch :: "canvas list \<Rightarrow> composite" where
  "stitch cvs =
     \<lparr>c_width = fold max (map width cvs) 0, c_height = sum_list (map height cvs),
      fillStyle = ''white'', drawImage = draw_pages cvs 0\<rparr>"

text \<open>The value reported after the \<open>k\<close>-th rendered page of \<open>n\<close> pages to
  parse, and the reports for the pages \<open>k + 1\<close> to \<open>k + m\<close>.\<close>

definition page_progress :: "nat \<Rightarrow> nat \<Rightarrow> int" where
  "page_progress n k = 5 + round_half_up (round64 (round64 (of_nat k / of_nat n) * 75))"

fun progress_reports :: "nat \<Rightarrow> nat \<Rightarrow> nat \<Rightarrow> int list" where
  "progress_reports n k 0 = []"
| "progress_reports n k (Suc m) = page_progress n (Suc k) # progress_reports n (Suc k) m"

subsection \<open>A sample environment\<close>

text \<open>A document of three pages, a model that answers a resume with the empty object
  and fails on the candidate whose designation is Analyst, the two texts
  \<open>JSON.parse\<close> is asked about, and the lowering of the ASCII letters.\<close>

definition page_canvas :: "int \<Rightarrow> canvas" where
  "page_canvas n =
     (if n = 1 then \<lparr>width = 600, height = 800, pixels = [1]\<rparr>
      else if n = 2 then \<lparr>width = 640, height = 900, pixels = [2]\<rparr>
      else \<lparr>width = 500, height = 700, pixels = [3]\<rparr>)"

definition sample_pdf :: pdf_document where
  "sample_pdf =
     \<lparr>numPages = 3,
      getPage = (\<lambda>n. if 1 \<le> n \<and> n \<le> 3 then Rendered (page_canvas n)
                     else PageError (Error ''Invalid page request''))\<rparr>"

definition match_text :: string where
  "match_text =
     ''{'' @ [CHR 0x22] @ ''matchScore'' @ [CHR 0x22] @ '':80,'' @ [CHR 0x22] @ ''matchReason''
       @ [CHR 0x22] @ '':'' @ [CHR 0x22] @ ''Strong Python'' @ [CHR 0x22] @ ''}''"

definition sample_env :: env where
  "sample_env =
     \<lparr>readAsDataURL = (\<lambda>f. Some ''data:image/png;base64,iVBORw0KGgo=''),
      getDocument = (\<lambda>f. Inr sample_pdf),
      getContext = (\<lambda>w h. True),
      toDataURL = (\<lambda>c. ''data:image/jpeg;base64,/9j/4AAQ''),
      extractRawText = (\<lambda>f. Inr ''Jane Doe''),
      generateContent =
        (\<lambda>req. case req of
                  ResumeRequest part \<Rightarrow> Inr (Some ''{}'')
                | MatchRequest summary jd \<Rightarrow>
                    if get_prop summary ''designation'' = JStr (utf16 ''Analyst'')
                    then Inl (Error ''503 Service Unavailable'')
                    else Inr (Some match_text)),
      JSON_parse =
        (\<lambda>t. if t = ''{}'' then Some (JObj [])
              else if t = match_text
              then Some (JObj [(''matchScore'', JNum (Finite 80)),
                               (''matchReason'', JStr (utf16 ''Strong Python''))])
              else None),
      randomUUID = ''0b7e2c1a-5d64-4f0e-9a3b-1c2d3e4f5a6b'',
      typeErrorMessage = (\<lambda>what. ''Cannot read '' @ what),
      toLowerCase = map lower_ascii\<rparr>"

definition a_pdf :: File where
  "a_pdf = \<lparr>name = ''a.pdf'', type = ''application/pdf'', bytes = [37, 80, 68, 70]\<rparr>"

definition b_pdf :: File where
  "b_pdf = \<lparr>name = ''b.pdf'', type = ''application/pdf'', bytes = [37, 80, 68, 70, 45]\<rparr>"

definition notes_txt :: File where
  "notes_txt = \<lparr>name = ''notes.txt'', type = ''text/plain'', bytes = [104, 105]\<rparr>"

definition jane_png :: File where
  "jane_png = \<lparr>name = ''jane.png'', type = ''image/png'', bytes = [137, 80, 78, 71]\<rparr>"

definition cv_docx :: File where
  "cv_docx =
     \<lparr>name = ''cv.docx'',
      type = ''application/vnd.openxmlformats-officedocument.wordprocessingml.document'',
      bytes = [80, 75, 3, 4]\<rparr>"

definition engineer :: js_object where
  "engineer =
     [(''id'', JStr (utf16 ''c1'')), (''fullName'', JStr (utf16 ''Ada'')),
      (''designation'', JStr (utf16 ''Engineer''))]"

definition analyst :: js_object where
  "analyst =
     [(''id'', JStr (utf16 ''c2'')), (''fullName'', JStr (utf16 ''Bo'')),
      (''designation'', JStr (utf16 ''Analyst''))]"

definition manager :: js_object where
  "manager =
     [(''id'', JStr (utf16 ''c3'')), (''fullName'', JStr (utf16 ''Cy'')),
      (''designation'', JStr (utf16 ''Manager''))]"

text \<open>A document whose second page cannot be read, a document whose page has no 2d
  context, a stitched canvas that never has one, an image that bears the name of the text
  file, and two models: one answers with an array, the other with an object whose
  \<open>relevantExperience\<close> is a number.\<close>

definition torn_pdf :: pdf_document where
  "torn_pdf =
     \<lparr>numPages = 2,
      getPage = (\<lambda>n. if n = 1 then Rendered (page_canvas 1)
                     else PageError (Error ''Invalid PDF structure''))\<rparr>"

definition torn_env :: env where
  "torn_env = sample_env\<lparr>getDocument := (\<lambda>f. Inr torn_pdf)\<rparr>"

definition veiled_pdf :: pdf_document where
  "veiled_pdf = \<lparr>numPages = 1, getPage = (\<lambda>n. NoContext)\<rparr>"

definition veiled_env :: env where
  "veiled_env = sample_env\<lparr>getDocument := (\<lambda>f. Inr veiled_pdf)\<rparr>"

definition blind_env :: env where
  "blind_env = sample_env\<lparr>getContext := (\<lambda>w h. False)\<rparr>"

definition notes_png :: File where
  "notes_png = \<lparr>name = ''notes.txt'', type = ''image/png'', bytes = [137, 80, 78, 71, 13]\<rparr>"

definition array_env :: env where
  "array_env =
     sample_env\<lparr>generateContent := (\<lambda>req. Inr (Some ''[7]'')),
                JSON_parse := (\<lambda>t. if t = ''[7]'' then Some (JArr [JNum (Finite 7)]) else None)\<rparr>"

definition typed_text :: string where
  "typed_text =
     ''{'' @ [CHR 0x22] @ ''totalExperience'' @ [CHR 0x22] @ '':'' @ [CHR 0x22] @ ''2 years''
       @ [CHR 0x22] @ '','' @ [CHR 0x22] @ ''relevantExperience'' @ [CHR 0x22] @ '':7}''"

definition typed_env :: env where
  "typed_env =
     sample_env\<lparr>generateContent := (\<lambda>req. Inr (Some typed_text)),
                JSON_parse :=
                  (\<lambda>t. if t = typed_text
                        then Some (JObj [(''totalExperience'', JStr (utf16 ''2 years'')),
                                         (''relevantExperience'', JNum (Finite 7))])
                        else None)\<rparr>"

subsection \<open>Extraction and matching\<close>

text \<open>The values that \<open>if (!expString) return 0\<close> lets through as 0, the values
  \<open>parseExperienceToNumber\<close> accepts, the years it gives for them, and the member
  \<open>v.k\<close> of a value that is neither \<open>null\<close> nor \<open>undefined\<close>.\<close>

definition falsy :: "jsval \<Rightarrow> bool" where
  "falsy v \<longleftrightarrow> v = JUndefined \<or> v = JNull \<or> v = JBool False \<or> v = JNum (Finite 0) \<or> v = JStr []"

definition accepted_experience :: "jsval \<Rightarrow> bool" where
  "accepted_experience v \<longleftrightarrow> falsy v \<or> (case v of JStr s \<Rightarrow> True | _ \<Rightarrow> False)"

definition experience_years :: "env \<Rightarrow> jsval \<Rightarrow> number" where
  "experience_years e v = (case v of JStr s \<Rightarrow> parseExperienceToNumber e s | _ \<Rightarrow> Finite 0)"

definition member :: "jsval \<Rightarrow> string \<Rightarrow> jsval" where
  "member v k = (case v of JObj ps \<Rightarrow> get_prop ps k | _ \<Rightarrow> JUndefined)"

definition failed_match :: match_result where
  "failed_match =
     \<lparr>matchScore = JNum (Finite 0), matchReason = JStr (utf16 ''Failed to analyze match.'')\<rparr>"

subsection \<open>The queue\<close>

text \<open>The events of the manual mode, the two facts that hold of every state the manual
  mode reaches (the file in preview is the head of the queue; every pending call was
  started by the confirmation of its own preview), the status of a file whose parse
  is over, the names whose preview is confirmed in the course of a run, and the
  initial state of the auto-parse mode.\<close>

definition manual :: "event \<Rightarrow> bool" where
  "manual ev \<longleftrightarrow> ev \<noteq> ToggleAutoParse"

definition preview_is_head :: "app_state \<Rightarrow> bool" where
  "preview_is_head s =
     (case currentFileForPreview s of
        None \<Rightarrow> True
      | Some f \<Rightarrow> fileQueue s \<noteq> [] \<and> hd (fileQueue s) = f)"

definition started_by_confirm :: "app_state \<Rightarrow> bool" where
  "started_by_confirm s = list_all (\<lambda>t. p_preview t = Some (p_file t)) (inflight s)"

definition manual_inv :: "app_state \<Rightarrow> bool" where
  "manual_inv s \<longleftrightarrow> \<not> isAutoParse s \<and> preview_is_head s \<and> started_by_confirm s"

definition terminal :: "app_state \<Rightarrow> string \<Rightarrow> bool" where
  "terminal s n =
     (case fileStatuses s n of
        None \<Rightarrow> False
      | Some st \<Rightarrow> status st = Success \<or> status st = Failed)"

fun confirmed :: "event list \<Rightarrow> app_state \<Rightarrow> string list" where
  "confirmed [] s = []"
| "confirmed (ev # evs) s =
     (case (ev, currentFileForPreview s) of
        (PreviewConfirm sel, Some f) \<Rightarrow> [name f]
      | _ \<Rightarrow> [])
     @ confirmed evs (step ev s)"

text \<open>A name is touched in a state when it has a status there or a call of the
  extractor is pending for a file of that name.\<close>

definition touched :: "app_state \<Rightarrow> string \<Rightarrow> bool" where
  "touched s n \<longleftrightarrow> fileStatuses s n \<noteq> None \<or> n \<in> set (map (\<lambda>t. name (p_file t)) (inflight s))"

definition auto_state :: app_state where
  "auto_state = initial_state\<lparr>isAutoParse := True\<rparr>"

text \<open>The auto-parse mode while it works through a queue of files with distinct names:
  one call is pending, that of the head of the queue, and the other files have no status
  yet; and the status that an outcome leaves.\<close>

definition draining :: "app_state \<Rightarrow> File list \<Rightarrow> bool" where
  "draining s fs \<longleftrightarrow>
     isAutoParse s \<and> currentFileForPreview s = None \<and> fileQueue s = fs \<and> distinct (map name fs)
     \<and> (case fs of
          [] \<Rightarrow> inflight s = []
        | f # rest \<Rightarrow>
            inflight s = [\<lparr>p_file = f, p_pages = None, p_preview = None\<rparr>] \<and> isParsing s f
            \<and> (\<forall>g\<in>set rest. fileStatuses s (name g) = None))"

definition final_status :: "thrown + js_object \<Rightarrow> FileStatus" where
  "final_status outcome =
     (case outcome of
        Inl err \<Rightarrow> \<lparr>status = Failed, progress = 100, error = Some (errorMessage err)\<rparr>
      | Inr c \<Rightarrow> \<lparr>status = Success, progress = 100, error = None\<rparr>)"


section \<open>Properties\<close>

subsection \<open>The rounding of doubles\<close>

lemma pow2_nat: "0 \<le> n \<Longrightarrow> (2::rat) powi n = 2 ^ nat n"
  by (simp add: power_int_def)

lemma bitlen_rat:
  assumes "0 < p"
  shows "(2::rat) powi (bitlen p - 1) \<le> of_int p" "of_int p < (2::rat) powi bitlen p"
proof -
  from assms have b: "1 \<le> bitlen p" by (auto simp: bitlen_alt_def)
  from bitlen_bounds [OF assms] have l: "2 ^ nat (bitlen p - 1) \<le> p" and u: "p < 2 ^ nat (bitlen p)"
    by simp_all
  from l have "(of_int (2 ^ nat (bitlen p - 1)) :: rat) \<le> of_int p" by (simp only: of_int_le_iff)
  then show "(2::rat) powi (bitlen p - 1) \<le> of_int p" using b by (simp add: pow2_nat)
  from u have "(of_int p :: rat) < of_int (2 ^ nat (bitlen p))" by (simp only: of_int_less_iff)
  then show "of_int p < (2::rat) powi bitlen p" using b by (simp add: pow2_nat)
qed

lemma pow2_pos: "0 < (2::rat) powi n"
  by simp

lemma pow2_add: "(2::rat) powi (m + n) = 2 powi m * 2 powi n"
  by (simp add: power_int_add)

lemma pow2_diff: "(2::rat) powi (m - n) = 2 powi m / 2 powi n"
  by (simp add: power_int_diff)

lemma pow2_Suc: "(2::rat) powi (n + 1) = 2 * 2 powi n"
  by (simp add: power_int_add)

lemma pow2_mono: "m \<le> n \<Longrightarrow> (2::rat) powi m \<le> 2 powi n"
  by (rule power_int_increasing) simp_all

lemma pow2_strict_mono: "m < n \<Longrightarrow> (2::rat) powi m < 2 powi n"
  by (rule power_int_strict_increasing) simp_all

lemma pow2_less_iff: "(2::rat) powi m < 2 powi n \<longleftrightarrow> m < n"
  using pow2_strict_mono [of m n] pow2_mono [of n m] by (auto simp: not_less [symmetric])

lemma ilog2_bounds:
  assumes "0 < x"
  shows "2 powi ilog2 x \<le> x \<and> x < 2 powi (ilog2 x + 1)"
proof -
  obtain p q where pq: "quotient_of x = (p, q)" by (cases "quotient_of x")
  have q: "0 < q" using quotient_of_denom_pos [OF pq] .
  have x: "x = of_int p / of_int q" using quotient_of_div [OF pq] .
  have p: "0 < p" using assms q x by (simp add: zero_less_divide_iff)
  define d where "d = bitlen p - bitlen q"
  note bp = bitlen_rat [OF p] and bq = bitlen_rat [OF q]
  have qpos: "(0::rat) < of_int q" using q by simp
  have ppos: "(0::rat) < of_int p" using p by simp
  have "x < 2 powi bitlen p / 2 powi (bitlen q - 1)"
    unfolding x using bp(2) bq(1) ppos pow2_pos [of "bitlen q - 1"]
    by (intro frac_less) simp_all
  also have "\<dots> = 2 powi (d + 1)"
    unfolding d_def pow2_diff [symmetric] by (simp add: algebra_simps)
  finally have hi: "x < 2 powi (d + 1)" .
  have "2 powi (bitlen p - 1) / 2 powi bitlen q < x"
    unfolding x using bp(1) bq(2) qpos pow2_pos [of "bitlen p - 1"]
    by (intro frac_less2) simp_all
  moreover have "2 powi (bitlen p - 1) / (2::rat) powi bitlen q = 2 powi (d - 1)"
    unfolding d_def pow2_diff [symmetric] by (simp add: algebra_simps)
  ultimately have lo: "2 powi (d - 1) < x" by simp
  show ?thesis
  proof (cases "2 powi d \<le> x")
    case True
    then have "ilog2 x = d" by (simp add: ilog2_def pq d_def)
    with True hi show ?thesis by simp
  next
    case False
    then have "ilog2 x = d - 1" by (simp add: ilog2_def pq d_def)
    with False lo show ?thesis by simp
  qed
qed

lemma ilog2_unique:
  assumes "2 powi e \<le> x" "x < 2 powi (e + 1)"
  shows "ilog2 x = e"
proof -
  have pos: "0 < x" using assms(1) pow2_pos [of e] by (rule less_le_trans [rotated])
  note b = ilog2_bounds [OF pos]
  have "2 powi ilog2 x < (2::rat) powi (e + 1)" using b assms by simp
  then have 1: "ilog2 x < e + 1" by (simp only: pow2_less_iff)
  have "2 powi e < (2::rat) powi (ilog2 x + 1)" using b assms by simp
  then have 2: "e < ilog2 x + 1" by (simp only: pow2_less_iff)
  from 1 2 show ?thesis by simp
qed

lemma ilog2_mono:
  assumes "0 < x" "x \<le> y"
  shows "ilog2 x \<le> ilog2 y"
proof -
  have y: "0 < y" using assms by simp
  have "2 powi ilog2 x < (2::rat) powi (ilog2 y + 1)"
    using ilog2_bounds [OF assms(1)] ilog2_bounds [OF y] assms(2) by simp
  then have "ilog2 x < ilog2 y + 1" by (simp only: pow2_less_iff)
  then show ?thesis by simp
qed

lemma rne_of_int: "rne (of_int n) = n"
  by (simp add: rne_def)

lemma rne_bounds: "\<lfloor>y\<rfloor> \<le> rne y \<and> rne y \<le> \<lfloor>y\<rfloor> + 1"
  by (simp add: rne_def Let_def)

lemma rne_mono:
  assumes "x \<le> y"
  shows "rne x \<le> rne y"
proof (cases "\<lfloor>x\<rfloor> = \<lfloor>y\<rfloor>")
  case True
  then show ?thesis using assms by (auto simp: rne_def Let_def)
next
  case False
  then have "\<lfloor>x\<rfloor> < \<lfloor>y\<rfloor>" using floor_mono [OF assms] by simp
  then show ?thesis using rne_bounds [of x] rne_bounds [of y] by simp
qed

lemma rne_nonneg: "0 \<le> y \<Longrightarrow> 0 \<le> rne y"
  using rne_mono [of 0 y] rne_of_int [of 0] by simp

lemma rne_near:
  assumes "\<bar>y - of_int n\<bar> < 1 / 2"
  shows "rne y = n"
proof -
  have lo: "of_int n - 1 / 2 < y" and hi: "y < of_int n + 1 / 2" using assms by linarith+
  show ?thesis
  proof (cases "of_int n \<le> y")
    case True
    have "\<lfloor>y\<rfloor> = n" using True hi by (intro floor_unique) simp_all
    then show ?thesis using hi by (simp add: rne_def Let_def)
  next
    case False
    have f: "\<lfloor>y\<rfloor> = n - 1" using False lo by (intro floor_unique) simp_all
    have "1 / 2 < y - of_int (n - 1)" using lo by simp
    then show ?thesis unfolding rne_def Let_def f by simp
  qed
qed

lemma round64_zero: "round64 0 = 0"
  by (simp add: round64_def)

lemma round64_pos:
  "0 < x \<Longrightarrow> round64 x =
     of_int (rne (x / 2 powi (max (ilog2 x) (- 1022) - 52))) * 2 powi (max (ilog2 x) (- 1022) - 52)"
  by (simp add: round64_def Let_def)

lemma round64_nonneg: "0 \<le> x \<Longrightarrow> 0 \<le> round64 x"
proof (cases "x = 0")
  case True
  then show ?thesis by (simp add: round64_zero)
next
  case False
  assume "0 \<le> x"
  with False have pos: "0 < x" by simp
  have "0 \<le> rne (x / 2 powi (max (ilog2 x) (- 1022) - 52))"
    using pos by (intro rne_nonneg) simp
  then show ?thesis unfolding round64_pos [OF pos] by simp
qed

lemma pow2_mult_eq: "a + b = c \<Longrightarrow> (2::rat) powi a * 2 powi b = 2 powi c"
  by (simp add: pow2_add [symmetric])

lemma pow2_div_eq: "a - b = c \<Longrightarrow> (2::rat) powi a / 2 powi b = 2 powi c"
  by (simp add: pow2_diff [symmetric])

lemma round64_pos_E:
  "0 < x \<Longrightarrow> E = max (ilog2 x) (- 1022) \<Longrightarrow> u = 2 powi (E - 52) \<Longrightarrow>
     round64 x = of_int (rne (x / u)) * u"
  by (simp add: round64_def Let_def)

lemma pow2_52: "(2::rat) powi 52 = of_int (2 ^ 52)"
  by simp

lemma pow2_53: "(2::rat) powi 53 = of_int (2 ^ 53)"
  by simp

lemma round64_upper:
  assumes "0 < x"
  shows "round64 x \<le> 2 powi (max (ilog2 x) (- 1022) + 1)"
proof -
  define E where "E = max (ilog2 x) (- 1022)"
  define u :: rat where "u = 2 powi (E - 52)"
  have u: "0 < u" by (simp add: u_def)
  have "x < 2 powi (ilog2 x + 1)" using ilog2_bounds [OF assms] by simp
  also have "\<dots> \<le> 2 powi (E + 1)" by (rule pow2_mono) (simp add: E_def)
  finally have "x / u \<le> 2 powi (E + 1) / u" using u by (simp add: divide_le_cancel)
  also have "2 powi (E + 1) / u = 2 powi 53" unfolding u_def by (rule pow2_div_eq) simp
  finally have "rne (x / u) \<le> rne (of_int (2 ^ 53))" unfolding pow2_53 by (rule rne_mono)
  then have "rne (x / u) \<le> 2 ^ 53" by (simp only: rne_of_int)
  then have "(of_int (rne (x / u)) :: rat) \<le> of_int (2 ^ 53)" by (simp only: of_int_le_iff)
  then have "of_int (rne (x / u)) * u \<le> 2 powi 53 * u" using u unfolding pow2_53 by simp
  also have "2 powi 53 * u = 2 powi (E + 1)" unfolding u_def by (rule pow2_mult_eq) simp
  finally show ?thesis unfolding round64_pos_E [OF assms E_def u_def] E_def .
qed

lemma round64_lower:
  assumes "0 < x" "- 1022 \<le> ilog2 x"
  shows "2 powi ilog2 x \<le> round64 x"
proof -
  define E where "E = ilog2 x"
  define u :: rat where "u = 2 powi (E - 52)"
  have E: "max (ilog2 x) (- 1022) = E" using assms(2) by (simp add: E_def)
  have u: "0 < u" by (simp add: u_def)
  have "2 powi E \<le> x" using ilog2_bounds [OF assms(1)] by (simp add: E_def)
  then have "2 powi E / u \<le> x / u" using u by (simp add: divide_le_cancel)
  moreover have "2 powi E / u = 2 powi 52" unfolding u_def by (rule pow2_div_eq) simp
  ultimately have "rne (of_int (2 ^ 52)) \<le> rne (x / u)" unfolding pow2_52 by (intro rne_mono) simp
  then have "2 ^ 52 \<le> rne (x / u)" by (simp only: rne_of_int)
  then have "(of_int (2 ^ 52) :: rat) \<le> of_int (rne (x / u))" by (simp only: of_int_le_iff)
  then have "2 powi 52 * u \<le> of_int (rne (x / u)) * u" using u unfolding pow2_52 by simp
  moreover have "2 powi 52 * u = 2 powi E" unfolding u_def by (rule pow2_mult_eq) simp
  ultimately have "2 powi E \<le> of_int (rne (x / u)) * u" by simp
  then show ?thesis unfolding round64_pos_E [OF assms(1) E [symmetric] u_def] E_def .
qed

lemma round64_mono:
  assumes "0 \<le> x" "x \<le> y"
  shows "round64 x \<le> round64 y"
proof (cases "x = 0")
  case True
  then show ?thesis using assms round64_nonneg [of y] by (simp add: round64_zero)
next
  case False
  with assms have x: "0 < x" and y: "0 < y" by simp_all
  define Ex where "Ex = max (ilog2 x) (- 1022)"
  define Ey where "Ey = max (ilog2 y) (- 1022)"
  have le: "Ex \<le> Ey" using ilog2_mono [OF x assms(2)] by (simp add: Ex_def Ey_def)
  show ?thesis
  proof (cases "Ex = Ey")
    case True
    have "x / 2 powi (Ey - 52) \<le> y / 2 powi (Ey - 52)" using assms(2) by (intro divide_right_mono) simp_all
    then have "rne (x / 2 powi (Ey - 52)) \<le> rne (y / 2 powi (Ey - 52))" by (rule rne_mono)
    then show ?thesis
      unfolding round64_pos [OF x] round64_pos [OF y] Ex_def [symmetric] Ey_def [symmetric] True
      by simp
  next
    case False
    with le have lt: "Ex < Ey" by simp
    then have ey: "Ey = ilog2 y" "- 1022 \<le> ilog2 y" unfolding Ex_def Ey_def by linarith+
    have "round64 x \<le> 2 powi (Ex + 1)" using round64_upper [OF x] by (simp add: Ex_def)
    also have "\<dots> \<le> 2 powi Ey" using lt by (intro pow2_mono) simp
    also have "\<dots> \<le> round64 y" using round64_lower [OF y ey(2)] by (simp add: ey(1))
    finally show ?thesis .
  qed
qed

lemma round64_grid:
  assumes n: "0 \<le> n" "n \<le> 2 ^ 53" and E: "- 1022 \<le> E" and norm: "2 ^ 52 \<le> n \<or> E = - 1022"
  shows "round64 (of_int n * 2 powi (E - 52)) = of_int n * 2 powi (E - 52)"
proof -
  define u :: rat where "u = 2 powi (E - 52)"
  have u: "0 < u" by (simp add: u_def)
  have lo52: "2 powi 52 * u = 2 powi E" unfolding u_def by (rule pow2_mult_eq) simp
  have hi53: "2 powi 53 * u = 2 powi (E + 1)" unfolding u_def by (rule pow2_mult_eq) simp
  consider (zero) "n = 0" | (top) "n = 2 ^ 53" | (normal) "2 ^ 52 \<le> n" "n < 2 ^ 53"
    | (sub) "0 < n" "n < 2 ^ 52" "E = - 1022"
    using n norm by fastforce
  then show ?thesis
  proof cases
    case zero
    then show ?thesis by (simp add: round64_zero)
  next
    case top
    have x: "of_int n * u = 2 powi (E + 1)" using hi53 top by simp
    have l: "ilog2 (2 powi (E + 1)) = E + 1"
      by (rule ilog2_unique) (simp_all add: pow2_strict_mono)
    have m: "max (E + 1) (- 1022) = E + 1" using E by simp
    have q: "2 powi (E + 1) / 2 powi (E + 1 - 52) = (of_int (2 ^ 52) :: rat)"
      unfolding pow2_52 [symmetric] by (rule pow2_div_eq) simp
    have r: "of_int (2 ^ 52) * 2 powi (E + 1 - 52) = (2::rat) powi (E + 1)"
      unfolding pow2_52 [symmetric] by (rule pow2_mult_eq) simp
    have "round64 (2 powi (E + 1)) =
        of_int (rne (2 powi (E + 1) / 2 powi (E + 1 - 52))) * 2 powi (E + 1 - 52)"
      by (rule round64_pos_E [OF pow2_pos _ refl]) (simp add: l m)
    then have "round64 (2 powi (E + 1)) = 2 powi (E + 1)" unfolding q rne_of_int r .
    then show ?thesis unfolding u_def [symmetric] x .
  next
    case normal
    have pos: "0 < of_int n * u" using normal u by simp
    have "(of_int (2 ^ 52) :: rat) \<le> of_int n" using normal(1) by (simp only: of_int_le_iff)
    then have a: "2 powi E \<le> of_int n * u" using u unfolding lo52 [symmetric] pow2_52 by simp
    have "(of_int n :: rat) < of_int (2 ^ 53)" using normal(2) by (simp only: of_int_less_iff)
    then have b: "of_int n * u < 2 powi (E + 1)" using u unfolding hi53 [symmetric] pow2_53 by simp
    have l: "ilog2 (of_int n * u) = E" using a b by (rule ilog2_unique)
    have m: "max E (- 1022) = E" using E by simp
    have q: "of_int n * u / u = of_int n" using u by simp
    have "round64 (of_int n * u) = of_int (rne (of_int n * u / u)) * u"
      by (rule round64_pos_E [OF pos _ u_def]) (simp add: l m)
    then have "round64 (of_int n * u) = of_int n * u" unfolding q rne_of_int .
    then show ?thesis unfolding u_def .
  next
    case sub
    have pos: "0 < of_int n * u" using sub u by simp
    have "(of_int n :: rat) < of_int (2 ^ 52)" using sub(2) by (simp only: of_int_less_iff)
    then have b: "of_int n * u < 2 powi E" using u unfolding lo52 [symmetric] pow2_52 by simp
    have "2 powi ilog2 (of_int n * u) < (2::rat) powi E"
      using ilog2_bounds [OF pos] b by simp
    then have "ilog2 (of_int n * u) < E" by (simp only: pow2_less_iff)
    then have m: "max (ilog2 (of_int n * u)) (- 1022) = E" using sub(3) by simp
    have q: "of_int n * u / u = of_int n" using u by simp
    have "round64 (of_int n * u) = of_int (rne (of_int n * u / u)) * u"
      by (rule round64_pos_E [OF pos _ u_def]) (simp add: m)
    then have "round64 (of_int n * u) = of_int n * u" unfolding q rne_of_int .
    then show ?thesis unfolding u_def .
  qed
qed

lemma round64_idem:
  assumes "0 \<le> x"
  shows "round64 (round64 x) = round64 x"
proof (cases "x = 0")
  case True
  then show ?thesis by (simp add: round64_zero)
next
  case False
  with assms have x: "0 < x" by simp
  define E where "E = max (ilog2 x) (- 1022)"
  define u :: rat where "u = 2 powi (E - 52)"
  define n where "n = rne (x / u)"
  have u: "0 < u" by (simp add: u_def)
  have r: "round64 x = of_int n * 2 powi (E - 52)"
    unfolding n_def u_def [symmetric] by (rule round64_pos_E [OF x E_def u_def])
  have n0: "0 \<le> n" unfolding n_def using x u by (intro rne_nonneg) simp
  have "x < 2 powi (ilog2 x + 1)" using ilog2_bounds [OF x] by simp
  also have "\<dots> \<le> 2 powi (E + 1)" by (rule pow2_mono) (simp add: E_def)
  finally have "x / u \<le> 2 powi (E + 1) / u" using u by (simp add: divide_le_cancel)
  also have "2 powi (E + 1) / u = 2 powi 53" unfolding u_def by (rule pow2_div_eq) simp
  finally have "rne (x / u) \<le> rne (of_int (2 ^ 53))" unfolding pow2_53 by (rule rne_mono)
  then have n1: "n \<le> 2 ^ 53" unfolding n_def by (simp only: rne_of_int)
  have n2: "2 ^ 52 \<le> n \<or> E = - 1022"
  proof (cases "- 1022 \<le> ilog2 x")
    case True
    then have e: "E = ilog2 x" by (simp add: E_def)
    have "2 powi E \<le> x" using ilog2_bounds [OF x] by (simp add: e)
    then have "2 powi E / u \<le> x / u" using u by (simp add: divide_le_cancel)
    moreover have "2 powi E / u = 2 powi 52" unfolding u_def by (rule pow2_div_eq) simp
    ultimately have "rne (of_int (2 ^ 52)) \<le> rne (x / u)" unfolding pow2_52 by (intro rne_mono) simp
    then have "2 ^ 52 \<le> n" unfolding n_def by (simp only: rne_of_int)
    then show ?thesis ..
  next
    case False
    then show ?thesis by (simp add: E_def)
  qed
  have e: "- 1022 \<le> E" by (simp add: E_def)
  show ?thesis unfolding r by (rule round64_grid [OF n0 n1 e n2])
qed

lemma round64_near:
  assumes "2 powi e \<le> x" "x < 2 powi (e + 1)" "- 1022 \<le> e"
    and "\<bar>x * 2 powi (52 - e) - of_int n\<bar> < 1 / 2"
  shows "round64 x = of_int n * 2 powi (e - 52)"
proof -
  have pos: "0 < x" using assms(1) pow2_pos [of e] by (rule less_le_trans [rotated])
  have l: "ilog2 x = e" using assms(1,2) by (rule ilog2_unique)
  have m: "max e (- 1022) = e" using assms(3) by simp
  have q: "x / 2 powi (e - 52) = x * 2 powi (52 - e)"
    by (simp add: power_int_diff field_simps)
  have "rne (x * 2 powi (52 - e)) = n" using assms(4) by (rule rne_near)
  then show ?thesis unfolding round64_pos [OF pos] l m q by simp
qed

lemma round64_exact:
  assumes "2 powi e \<le> x" "x < 2 powi (e + 1)" "- 1022 \<le> e"
    and "x * 2 powi (52 - e) = of_int n"
  shows "round64 x = x"
proof -
  have "round64 x = of_int n * 2 powi (e - 52)"
    using assms(1-3) by (rule round64_near) (simp add: assms(4))
  also have "\<dots> = x * (2 powi (52 - e) * 2 powi (e - 52))" by (simp add: assms(4) [symmetric])
  also have "2 powi (52 - e) * (2::rat) powi (e - 52) = 2 powi 0" by (rule pow2_mult_eq) simp
  finally show ?thesis by simp
qed

lemma round64_int:
  assumes "0 \<le> n" "n \<le> 2 ^ 53"
  shows "round64 (of_int n) = of_int n"
proof -
  consider (zero) "n = 0" | (top) "n = 2 ^ 53" | (mid) "0 < n" "n < 2 ^ 53" using assms by fastforce
  then show ?thesis
  proof cases
    case zero
    then show ?thesis by (simp add: round64_zero)
  next
    case top
    have "round64 (of_int (2 ^ 53)) = of_int (2 ^ 53)"
      by (rule round64_exact [where e = 53 and n = "2 ^ 52"]) simp_all
    then show ?thesis by (simp only: top)
  next
    case mid
    define x :: rat where "x = of_int n"
    define e where "e = ilog2 x"
    have pos: "0 < x" using mid by (simp add: x_def)
    note b = ilog2_bounds [OF pos, folded e_def]
    have "2 powi e < (2::rat) powi 53"
    proof -
      have "x < of_int (2 ^ 53)" unfolding x_def using mid(2) by (simp only: of_int_less_iff)
      then show ?thesis using b by simp
    qed
    then have e53: "e < 53" by (simp only: pow2_less_iff)
    have "(2::rat) powi 0 < 2 powi (e + 1)"
    proof -
      have "1 \<le> n" using mid(1) by simp
      then have "(of_int 1 :: rat) \<le> x" unfolding x_def by (simp only: of_int_le_iff)
      then show ?thesis using b by simp
    qed
    then have "0 < e + 1" by (simp only: pow2_less_iff)
    then have e0: "0 \<le> e" by simp
    have i: "x * 2 powi (52 - e) = of_int (n * 2 ^ nat (52 - e))"
      using e53 by (simp add: x_def pow2_nat)
    have "round64 x = x"
      using e0 by (intro round64_exact [OF b [THEN conjunct1] b [THEN conjunct2] _ i]) simp
    then show ?thesis by (simp add: x_def)
  qed
qed

subsection \<open>The regular expressions\<close>

lemma first_match_sound:
  "first_match m s = Some r \<Longrightarrow> \<exists>pre suf. s = pre @ suf \<and> m suf = Some r"
proof (induction s)
  case Nil
  then show ?case by simp
next
  case (Cons c cs)
  show ?case
  proof (cases "m (c # cs)")
    case (Some a)
    with Cons.prems have "m (c # cs) = Some r" by simp
    then have "c # cs = [] @ (c # cs) \<and> m (c # cs) = Some r" by simp
    then show ?thesis by blast
  next
    case None
    with Cons.prems have "first_match m cs = Some r" by simp
    from Cons.IH [OF this] obtain pre suf where "cs = pre @ suf" "m suf = Some r" by blast
    then have "c # cs = (c # pre) @ suf \<and> m suf = Some r" by simp
    then show ?thesis by blast
  qed
qed

lemma first_match_None:
  "first_match m s = None \<Longrightarrow> s = pre @ suf \<Longrightarrow> m suf = None"
proof (induction s arbitrary: pre)
  case Nil
  then show ?case by simp
next
  case (Cons c cs)
  show ?case
  proof (cases pre)
    case Nil
    with Cons.prems show ?thesis by (auto split: option.splits)
  next
    case (Cons p ps)
    with Cons.prems have "first_match m cs = None" "cs = ps @ suf" by (simp_all split: option.splits)
    then show ?thesis by (rule Cons.IH)
  qed
qed

lemma not_digit_dot: "\<not> is_digit (code CHR ''.'')"
  by (simp add: is_digit_def code_def)

lemma digits_takeWhile: "\<forall>x\<in>set (takeWhile is_digit s). is_digit x"
  by (auto dest: set_takeWhileD)

lemma is_decimal_int: "ip \<noteq> [] \<Longrightarrow> \<forall>x\<in>set ip. is_digit x \<Longrightarrow> is_decimal ip"
  by (simp add: is_decimal_def Let_def takeWhile_eq_all_conv [THEN iffD2] dropWhile_eq_Nil_conv [THEN iffD2])

lemma is_decimal_frac:
  assumes "ip \<noteq> []" "\<forall>x\<in>set ip. is_digit x" "fp \<noteq> []" "\<forall>x\<in>set fp. is_digit x"
  shows "is_decimal (ip @ code CHR ''.'' # fp)"
proof -
  have t: "takeWhile is_digit (ip @ code CHR ''.'' # fp) = ip"
    using assms(2) by (simp add: takeWhile_append2 not_digit_dot)
  have d: "dropWhile is_digit (ip @ code CHR ''.'' # fp) = code CHR ''.'' # fp"
    using assms(2) by (simp add: dropWhile_append2 not_digit_dot)
  show ?thesis
    using assms by (simp add: is_decimal_def Let_def t d list_all_iff)
qed

lemma scan_number_sound:
  assumes "scan_number s = Some (g, r)"
  shows "s = g @ r \<and> is_decimal g"
proof -
  let ?ip = "takeWhile is_digit s" and ?d = "dropWhile is_digit s"
  have s: "s = ?ip @ ?d" by simp
  have ne: "?ip \<noteq> []" using assms by (auto simp: scan_number_def Let_def split: if_splits)
  show ?thesis
  proof (cases ?d)
    case Nil
    with assms ne have "g = ?ip" "r = []" by (simp_all add: scan_number_def Let_def)
    with s Nil ne show ?thesis by (simp add: is_decimal_int digits_takeWhile)
  next
    case (Cons c r')
    show ?thesis
    proof (cases "c = code CHR ''.'' \<and> takeWhile is_digit r' \<noteq> []")
      case True
      with assms ne Cons have g: "g = ?ip @ code CHR ''.'' # takeWhile is_digit r'" and r: "r = dropWhile is_digit r'"
        by (simp_all add: scan_number_def Let_def)
      have "s = ?ip @ code CHR ''.'' # (takeWhile is_digit r' @ dropWhile is_digit r')"
        using s Cons True by simp
      then have "s = g @ r" using g r by simp
      moreover have "is_decimal g"
        unfolding g using ne True by (intro is_decimal_frac digits_takeWhile) simp_all
      ultimately show ?thesis by simp
    next
      case False
      with assms ne Cons have "g = ?ip" "r = ?d" by (auto simp add: scan_number_def Let_def)
      with s ne show ?thesis by (simp add: is_decimal_int digits_takeWhile)
    qed
  qed
qed

lemma scan_number_loose_sound:
  assumes "scan_number_loose s = Some (g, r)"
  shows "s = g @ r \<and> g \<noteq> [] \<and> is_digit (hd g)"
proof -
  let ?ip = "takeWhile is_digit s" and ?d = "dropWhile is_digit s"
  have s: "s = ?ip @ ?d" by simp
  have ne: "?ip \<noteq> []" using assms by (auto simp: scan_number_loose_def Let_def split: if_splits)
  then have hd: "is_digit (hd ?ip)" using digits_takeWhile [of s] by (cases ?ip) auto
  show ?thesis
  proof (cases ?d)
    case Nil
    with assms ne have "g = ?ip" "r = []" by (simp_all add: scan_number_loose_def Let_def)
    with s Nil ne hd show ?thesis by simp
  next
    case (Cons c r')
    show ?thesis
    proof (cases "c = code CHR ''.''")
      case True
      with assms ne Cons have g: "g = ?ip @ code CHR ''.'' # takeWhile is_digit r'" and r: "r = dropWhile is_digit r'"
        by (simp_all add: scan_number_loose_def Let_def)
      have "s = ?ip @ code CHR ''.'' # (takeWhile is_digit r' @ dropWhile is_digit r')"
        using s Cons True by simp
      then have "s = g @ r" using g r by simp
      moreover have "g \<noteq> []" using g by simp
      moreover have "hd g = hd ?ip" using g ne by simp
      ultimately show ?thesis using hd by simp
    next
      case False
      with assms ne Cons have "g = ?ip" "r = ?d" by (auto simp add: scan_number_loose_def Let_def)
      with s ne hd show ?thesis by simp
    qed
  qed
qed

lemma scan_unit_sound:
  assumes "scan_unit num u s = Some g"
  shows "\<exists>r ws post. num s = Some (g, r) \<and> r = ws @ u # post \<and> (\<forall>c\<in>set ws. is_space c)"
proof -
  from assms obtain r where n: "num s = Some (g, r)"
    by (auto simp: scan_unit_def split: option.splits list.splits if_splits)
  with assms obtain post where d: "dropWhile is_space r = u # post"
    by (auto simp: scan_unit_def split: option.splits list.splits if_splits)
  have "r = takeWhile is_space r @ u # post" using d [symmetric] by simp
  moreover have "\<forall>c\<in>set (takeWhile is_space r). is_space c" by (auto dest: set_takeWhileD)
  ultimately show ?thesis using n by blast
qed

lemma first_match_leftmost:
  "first_match m s = Some r \<Longrightarrow>
     \<exists>pre suf. s = pre @ suf \<and> m suf = Some r \<and> (\<forall>k<length pre. m (drop k s) = None)"
proof (induction s)
  case Nil
  then show ?case by simp
next
  case (Cons c cs)
  show ?case
  proof (cases "m (c # cs)")
    case (Some a)
    with Cons.prems have "m (c # cs) = Some r" by simp
    then have "c # cs = [] @ (c # cs) \<and> m (c # cs) = Some r \<and> (\<forall>k<length ([]::jsstring). m (drop k (c # cs)) = None)"
      by simp
    then show ?thesis by blast
  next
    case None
    with Cons.prems have "first_match m cs = Some r" by simp
    from Cons.IH [OF this] obtain pre suf
      where p: "cs = pre @ suf" "m suf = Some r" "\<forall>k<length pre. m (drop k cs) = None" by blast
    have "\<forall>k<length (c # pre). m (drop k (c # cs)) = None"
    proof (intro allI impI)
      fix k assume "k < length (c # pre)"
      then show "m (drop k (c # cs)) = None"
        using None p(3) by (cases k) simp_all
    qed
    with p have "c # cs = (c # pre) @ suf \<and> m suf = Some r \<and> (\<forall>k<length (c # pre). m (drop k (c # cs)) = None)"
      by simp
    then show ?thesis by blast
  qed
qed

lemma scan_number_loose_None: "scan_number_loose s = None \<Longrightarrow> s = [] \<or> \<not> is_digit (hd s)"
  by (cases s) (auto simp: scan_number_loose_def Let_def split: if_splits list.splits)

lemma numMatch_first:
  assumes "numMatch l = Some g"
  shows "\<exists>pre post. l = pre @ g @ post \<and> (\<forall>c\<in>set pre. \<not> is_digit c) \<and> g \<noteq> [] \<and> is_digit (hd g)"
proof -
  from first_match_leftmost [OF assms [unfolded numMatch_def]] obtain pre suf
    where p: "l = pre @ suf" "map_option fst (scan_number_loose suf) = Some g"
      "\<forall>k<length pre. map_option fst (scan_number_loose (drop k l)) = None" by blast
  from p(2) obtain r where "scan_number_loose suf = Some (g, r)" by auto
  from scan_number_loose_sound [OF this] have g: "suf = g @ r" "g \<noteq> []" "is_digit (hd g)" by simp_all
  have "\<forall>c\<in>set pre. \<not> is_digit c"
  proof
    fix c assume "c \<in> set pre"
    then obtain k where k: "k < length pre" "pre ! k = c" by (auto simp: in_set_conv_nth)
    with p(3) have "scan_number_loose (drop k l) = None" by simp
    from scan_number_loose_None [OF this] k p(1) show "\<not> is_digit c"
      by (auto simp: hd_drop_conv_nth nth_append)
  qed
  with p(1) g show ?thesis by auto
qed

lemma numMatch_None: "numMatch l = None \<Longrightarrow> \<forall>c\<in>set l. \<not> is_digit c"
proof
  fix c assume n: "numMatch l = None" and "c \<in> set l"
  then obtain pre suf where l: "l = pre @ c # suf" by (auto simp: in_set_conv_decomp)
  from first_match_None [OF n [unfolded numMatch_def] l]
  have "scan_number_loose (c # suf) = None" by simp
  from scan_number_loose_None [OF this] show "\<not> is_digit c" by simp
qed

lemma unit_match_sound:
  assumes "first_match (scan_unit num u) l = Some g"
    and "\<And>s g r. num s = Some (g, r) \<Longrightarrow> s = g @ r"
  shows "\<exists>pre ws post. l = pre @ g @ ws @ u # post \<and> (\<forall>c\<in>set ws. is_space c)"
proof -
  from first_match_sound [OF assms(1)] obtain pre suf
    where p: "l = pre @ suf" "scan_unit num u suf = Some g" by blast
  from scan_unit_sound [OF p(2)] obtain r ws post
    where r: "num suf = Some (g, r)" "r = ws @ u # post" "\<forall>c\<in>set ws. is_space c" by blast
  from assms(2) [OF r(1)] p(1) r(2) have "l = pre @ g @ ws @ u # post" by simp
  with r(3) show ?thesis by blast
qed

lemma unit_match_decimal:
  assumes "first_match (scan_unit scan_number u) l = Some g"
  shows "is_decimal g"
proof -
  from first_match_sound [OF assms] obtain pre suf
    where p: "scan_unit scan_number u suf = Some g" by blast
  from scan_unit_sound [OF p] obtain r where "scan_number suf = Some (g, r)" by blast
  from scan_number_sound [OF this] show ?thesis by simp
qed

lemma scan_whole_number_sound: "scan_whole_number l = Some g \<Longrightarrow> g = l \<and> is_decimal l"
  by (auto simp: scan_whole_number_def split: option.splits if_splits dest!: scan_number_sound)

subsection \<open>The parsers\<close>

lemma pow2_53_1024: "(2::rat) ^ 53 < 2 powi 1024"
  using pow2_strict_mono [of 53 1024] by simp

lemma binary64_Finite:
  assumes "0 \<le> x" "x \<le> 2 ^ 53"
  shows "binary64 x = Finite (round64 x)"
proof -
  have "round64 x \<le> round64 (of_int (2 ^ 53))" using assms by (intro round64_mono) simp_all
  also have "\<dots> = of_int (2 ^ 53)" by (rule round64_int) simp_all
  finally have "round64 x \<le> 2 ^ 53" by simp
  moreover have "0 \<le> round64 x" using assms(1) by (rule round64_nonneg)
  ultimately have "\<bar>round64 x\<bar> < 2 powi 1024" using pow2_53_1024 by simp
  then show ?thesis by (simp add: binary64_def)
qed

lemma binary64_int:
  assumes "0 \<le> n" "n \<le> 2 ^ 53"
  shows "binary64 (of_int n) = Finite (of_int n)"
proof -
  have "(of_int n :: rat) \<le> of_int (2 ^ 53)" using assms(2) by (simp only: of_int_le_iff)
  then have "binary64 (of_int n) = Finite (round64 (of_int n))"
    using assms(1) by (intro binary64_Finite) simp_all
  then show ?thesis by (simp add: round64_int [OF assms])
qed

lemma binary64_zero: "binary64 0 = Finite 0"
  using binary64_int [of 0] by simp

lemma binary64_nonneg: "0 \<le> x \<Longrightarrow> nonneg (binary64 x)"
  by (simp add: binary64_def nonneg_def round64_nonneg Let_def)

lemma binary64_idem:
  assumes "0 \<le> x" "binary64 x = Finite r"
  shows "binary64 r = Finite r"
proof -
  from assms(2) have r: "r = round64 x" and b: "\<not> 2 powi 1024 \<le> \<bar>r\<bar>"
    by (auto simp: binary64_def Let_def split: if_splits)
  have "round64 r = r" unfolding r using assms(1) by (rule round64_idem)
  with b show ?thesis by (simp add: binary64_def)
qed

lemma binary64_Finite_nonneg: "0 \<le> x \<Longrightarrow> binary64 x = Finite r \<Longrightarrow> 0 \<le> r"
  using binary64_nonneg [of x] by (simp add: nonneg_def)

lemma js_plus_zero:
  assumes "0 \<le> x"
  shows "js_plus (Finite 0) (binary64 x) = binary64 x"
proof (cases "binary64 x")
  case (Finite r)
  with binary64_idem [OF assms Finite] show ?thesis by (simp add: js_plus_def)
next
  case Infinity
  then show ?thesis by (simp add: js_plus_def)
qed

lemma decimal_value_nonneg: "0 \<le> decimal_value s"
  by (simp add: decimal_value_def Let_def)

lemma parseFloat_nonneg: "nonneg (parseFloat s)"
  by (simp add: parseFloat_def binary64_nonneg decimal_value_nonneg)

lemma js_plus_nonneg: "nonneg a \<Longrightarrow> nonneg b \<Longrightarrow> nonneg (js_plus a b)"
  by (cases a; cases b) (simp_all add: js_plus_def nonneg_def binary64_nonneg [unfolded nonneg_def])

lemma js_times_nonneg: "nonneg a \<Longrightarrow> nonneg b \<Longrightarrow> nonneg (js_times a b)"
  by (cases a; cases b) (simp_all add: js_times_def nonneg_def binary64_nonneg [unfolded nonneg_def])

lemma js_divide_nonneg: "nonneg a \<Longrightarrow> nonneg b \<Longrightarrow> nonneg (js_divide a b)"
  by (cases a; cases b) (simp_all add: js_divide_def nonneg_def binary64_nonneg [unfolded nonneg_def])

lemma round_half_up_nonneg: "0 \<le> x \<Longrightarrow> 0 \<le> round_half_up x"
  by (simp add: round_half_up_def)

lemma round_half_up_near: "\<bar>of_int (round_half_up x) - x\<bar> \<le> 1 / 2"
proof -
  have a: "of_int \<lfloor>x + 1 / 2\<rfloor> \<le> x + 1 / 2" by (rule of_int_floor_le)
  have b: "x + 1 / 2 < of_int \<lfloor>x + 1 / 2\<rfloor> + 1" using floor_correct [of "x + 1 / 2"] by simp
  show ?thesis unfolding round_half_up_def using a b by linarith
qed

lemma Math_round_nonneg: "nonneg a \<Longrightarrow> nonneg (Math_round a)"
  by (cases a) (simp_all add: Math_round_def nonneg_def round_half_up_nonneg)

lemma nonneg_Finite: "0 \<le> x \<Longrightarrow> nonneg (Finite x)"
  by (simp add: nonneg_def)

lemma round1_nonneg: "nonneg a \<Longrightarrow> nonneg (round1 a)"
  unfolding round1_def
  by (intro js_divide_nonneg Math_round_nonneg js_times_nonneg nonneg_Finite) simp_all

lemma floor_half: "\<lfloor>(1::rat) / 2\<rfloor> = 0"
  by (rule floor_unique) simp_all

lemma round1_zero: "round1 (Finite 0) = Finite 0"
  by (simp add: round1_def js_times_def js_divide_def Math_round_def round_half_up_def binary64_zero
        floor_half)

lemma round1_tenths:
  assumes "nonneg t"
  shows "round1 t = Infinity
    \<or> (\<exists>k::nat. round1 t = binary64 (of_nat k / 10)
          \<and> (\<exists>p. js_times t (Finite 10) = Finite p \<and> \<bar>of_nat k - p\<bar> \<le> 1 / 2))"
proof (cases "js_times t (Finite 10)")
  case Infinity
  then show ?thesis by (simp add: round1_def Math_round_def js_divide_def)
next
  case (Finite p)
  have "nonneg (js_times t (Finite 10))" using assms by (intro js_times_nonneg) (simp_all add: nonneg_def)
  then have p: "0 \<le> p" by (simp add: Finite nonneg_def)
  define k where "k = nat (round_half_up p)"
  have k: "of_nat k = (of_int (round_half_up p) :: rat)"
    using round_half_up_nonneg [OF p] by (simp add: k_def)
  have "round1 t = binary64 (of_nat k / 10)"
    by (simp add: round1_def Finite Math_round_def js_divide_def k)
  moreover have "\<bar>of_nat k - p\<bar> \<le> 1 / 2" unfolding k by (rule round_half_up_near)
  ultimately show ?thesis using Finite by blast
qed

lemma js_plus_zero_parseFloat: "js_plus (Finite 0) (parseFloat g) = parseFloat g"
  by (simp add: parseFloat_def js_plus_zero decimal_value_nonneg)

lemma js_divide_parseFloat:
  "js_divide (parseFloat g) (Finite 12) = Infinity
   \<or> (\<exists>x\<ge>0. js_divide (parseFloat g) (Finite 12) = binary64 x)"
proof (cases "parseFloat g")
  case (Finite r)
  have "0 \<le> r" using parseFloat_nonneg [of g] by (simp add: Finite nonneg_def)
  then have "0 \<le> r / 12" by simp
  moreover have "js_divide (parseFloat g) (Finite 12) = binary64 (r / 12)" by (simp add: Finite js_divide_def)
  ultimately show ?thesis by blast
next
  case Infinity
  then show ?thesis by (simp add: js_divide_def)
qed

lemma js_plus_zero_months:
  "js_plus (Finite 0) (js_divide (parseFloat g) (Finite 12)) = js_divide (parseFloat g) (Finite 12)"
  using js_divide_parseFloat [of g] by (auto simp: js_plus_zero) (simp add: js_plus_def)

lemma parseExperienceToNumber_round1:
  "s \<noteq> [] \<Longrightarrow> parseExperienceToNumber e s =
     (let l = trim (toLowerCase e s)
      in round1 (case (yearMatches l, monthMatches l) of
           (Some y, Some m) \<Rightarrow> js_plus (parseFloat y) (js_divide (parseFloat m) (Finite 12))
         | (Some y, None) \<Rightarrow> parseFloat y
         | (None, Some m) \<Rightarrow> js_divide (parseFloat m) (Finite 12)
         | (None, None) \<Rightarrow> (case scan_whole_number l of Some g \<Rightarrow> parseFloat g | None \<Rightarrow> Finite 0)))"
  by (simp add: parseExperienceToNumber_def Let_def round1_def js_plus_zero_parseFloat
        js_plus_zero_months split: option.splits)

lemma parseExperienceToNumber_empty: "parseExperienceToNumber e [] = Finite 0"
  by (simp add: parseExperienceToNumber_def)

lemma parseExperienceToNumber_nonneg: "nonneg (parseExperienceToNumber e s)"
proof (cases "s = []")
  case True
  then show ?thesis by (simp add: parseExperienceToNumber_def nonneg_def)
next
  case False
  have z: "nonneg (Finite 0)" "nonneg (Finite 12)" by (simp_all add: nonneg_def)
  show ?thesis
    unfolding parseExperienceToNumber_round1 [OF False] Let_def
    by (intro round1_nonneg)
       (auto split: option.splits intro!: js_plus_nonneg js_divide_nonneg parseFloat_nonneg z)
qed

lemma parseExperienceToNumber_tenths:
  "parseExperienceToNumber e s = Infinity
   \<or> (\<exists>k::nat. parseExperienceToNumber e s = binary64 (of_nat k / 10))"
proof (cases "s = []")
  case True
  have "parseExperienceToNumber e s = binary64 (of_nat 0 / 10)"
    by (simp add: True parseExperienceToNumber_empty binary64_zero)
  then show ?thesis by blast
next
  case False
  have z: "nonneg (Finite 0)" "nonneg (Finite 12)" by (simp_all add: nonneg_def)
  define t where "t = (case (yearMatches (trim (toLowerCase e s)), monthMatches (trim (toLowerCase e s))) of
           (Some y, Some m) \<Rightarrow> js_plus (parseFloat y) (js_divide (parseFloat m) (Finite 12))
         | (Some y, None) \<Rightarrow> parseFloat y
         | (None, Some m) \<Rightarrow> js_divide (parseFloat m) (Finite 12)
         | (None, None) \<Rightarrow> (case scan_whole_number (trim (toLowerCase e s)) of Some g \<Rightarrow> parseFloat g | None \<Rightarrow> Finite 0))"
  have r: "parseExperienceToNumber e s = round1 t"
    unfolding t_def by (rule parseExperienceToNumber_round1 [OF False, unfolded Let_def])
  have "nonneg t"
    unfolding t_def
    by (auto split: option.splits intro!: js_plus_nonneg js_divide_nonneg parseFloat_nonneg z)
  from round1_tenths [OF this] show ?thesis unfolding r by blast
qed

lemma parseCTC_cases:
  "s \<noteq> [] \<Longrightarrow> parseCTC e s =
     (let l = strip_ctc (toLowerCase e s)
      in case lakhMatch l of
           Some g \<Rightarrow> js_times (parseFloat g) (Finite 100000)
         | None \<Rightarrow> (case kMatch l of
                      Some g \<Rightarrow> js_times (parseFloat g) (Finite 1000)
                    | None \<Rightarrow> (case numMatch l of Some g \<Rightarrow> parseFloat g | None \<Rightarrow> Finite 0)))"
  by (simp add: parseCTC_def)

lemma parseCTC_empty: "parseCTC e [] = Finite 0"
  by (simp add: parseCTC_def)

lemma parseCTC_nonneg: "nonneg (parseCTC e s)"
proof -
  have z: "nonneg (Finite 0)" "nonneg (Finite 100000)" "nonneg (Finite 1000)" by (simp_all add: nonneg_def)
  show ?thesis
    by (auto simp: parseCTC_def Let_def split: option.splits
          intro!: js_times_nonneg parseFloat_nonneg z)
qed

lemma lower_eval:
  "lowers_plain_text e \<Longrightarrow> list_all plain s \<Longrightarrow> toLowerCase e s = map lower_ascii s"
  by (simp add: lowers_plain_text_def)

lemma floor_rat_numeral: "\<lfloor>(numeral a :: rat) / numeral b\<rfloor> = numeral a div numeral b"
  using floor_divide_of_int_eq [of "numeral a" "numeral b", where ?'a = rat] by simp

lemma binary64_numeral: "(numeral k :: int) \<le> 2 ^ 53 \<Longrightarrow> binary64 (numeral k) = Finite (numeral k)"
  using binary64_int [of "numeral k"] by simp

lemma binary64_near:
  assumes "2 powi e \<le> x" "x < 2 powi (e + 1)" "- 1022 \<le> e" "e < 53"
    and "\<bar>x * 2 powi (52 - e) - of_int n\<bar> < 1 / 2"
  shows "binary64 x = Finite (of_int n * 2 powi (e - 52))"
proof -
  have pos: "0 < x" using assms(1) pow2_pos [of e] by (rule less_le_trans [rotated])
  have "2 powi (e + 1) \<le> (2::rat) powi 53" using assms(4) by (intro pow2_mono) simp
  with assms(2) have "x \<le> 2 ^ 53" by simp
  with pos have "binary64 x = Finite (round64 x)" by (intro binary64_Finite) simp_all
  then show ?thesis by (simp add: round64_near [OF assms(1,2,3,5)])
qed

lemma binary64_exact:
  assumes "2 powi e \<le> x" "x < 2 powi (e + 1)" "- 1022 \<le> e" "e < 53"
    and "x * 2 powi (52 - e) = of_int n"
  shows "binary64 x = Finite x"
proof -
  have pos: "0 < x" using assms(1) pow2_pos [of e] by (rule less_le_trans [rotated])
  have "2 powi (e + 1) \<le> (2::rat) powi 53" using assms(4) by (intro pow2_mono) simp
  with assms(2) have "x \<le> 2 ^ 53" by simp
  with pos have "binary64 x = Finite (round64 x)" by (intro binary64_Finite) simp_all
  then show ?thesis by (simp add: round64_exact [OF assms(1,2,3,5)])
qed

lemmas scan_eval = yearMatches_def monthMatches_def scan_unit_def scan_number_def scan_whole_number_def
  scan_number_loose_def lakhMatch_def kMatch_def numMatch_def
  is_digit_def is_space_def utf16_def code_def Let_def

lemmas text_eval = trim_def lower_ascii_def utf16_def code_def is_space_def plain_def rupee_def strip_ctc_def

lemmas decimal_eval = decimal_value_def digits_value_def digit_value_def is_digit_def utf16_def code_def

lemmas number_eval = js_plus_def js_times_def js_divide_def Math_round_def round_half_up_def round1_def
  floor_rat_numeral binary64_numeral binary64_zero

lemma binary64_half: "binary64 (1 / 2) = Finite (1 / 2)"
  by (rule binary64_exact [where e = "- 1" and n = "2 ^ 52"]) simp_all

lemma binary64_11_2: "binary64 (11 / 2) = Finite (11 / 2)"
  by (rule binary64_exact [where e = 2 and n = "11 * 2 ^ 49"]) simp_all

lemma binary64_5_2: "binary64 (5 / 2) = Finite (5 / 2)"
  by (rule binary64_exact [where e = 1 and n = "5 * 2 ^ 50"]) simp_all

lemma parseFloat_digit:
  "parseFloat (utf16 ''2'') = Finite 2" "parseFloat (utf16 ''3'') = Finite 3"
  "parseFloat (utf16 ''5'') = Finite 5" "parseFloat (utf16 ''6'') = Finite 6"
  "parseFloat (utf16 ''12'') = Finite 12" "parseFloat (utf16 ''50'') = Finite 50"
  "parseFloat (utf16 ''80000'') = Finite 80000" "parseFloat (utf16 ''1250000'') = Finite 1250000"
  by (simp_all add: parseFloat_def decimal_eval binary64_numeral)

lemma value_5y6m:
  "round1 (js_plus (Finite 5) (js_divide (Finite 6) (Finite 12))) = Finite (11 / 2)"
  by (simp add: number_eval binary64_half binary64_11_2)

lemma value_2y6m:
  "round1 (js_plus (Finite 2) (js_divide (Finite 6) (Finite 12))) = Finite (5 / 2)"
  by (simp add: number_eval binary64_half binary64_5_2)

lemma value_6m: "round1 (js_divide (Finite 6) (Finite 12)) = Finite (1 / 2)"
  by (simp add: number_eval binary64_half)

lemma value_3: "round1 (Finite 3) = Finite 3"
  by (simp add: number_eval)

text \<open>6.6 as a double, its twelfth, and ten times that: 5.499999999999999.\<close>

lemma parseFloat_6_6:
  "parseFloat (utf16 ''6.6'') = Finite (3715469692580659 / 562949953421312)"
proof -
  have d: "decimal_value (utf16 ''6.6'') = 33 / 5" by (simp add: decimal_eval)
  have "binary64 (33 / 5) = Finite (of_int 7430939385161318 * 2 powi (2 - 52))"
    by (rule binary64_near) simp_all
  then show ?thesis by (simp add: parseFloat_def d)
qed

lemma twelfth_6_6:
  "js_divide (Finite (3715469692580659 / 562949953421312)) (Finite 12) =
     Finite (4953959590107545 / 9007199254740992)"
proof -
  have "binary64 (3715469692580659 / 562949953421312 / 12) =
      Finite (of_int 4953959590107545 * 2 powi (- 1 - 52))"
    by (rule binary64_near) simp_all
  then show ?thesis by (simp add: js_divide_def)
qed

lemma value_6_6m:
  "round1 (Finite (4953959590107545 / 9007199254740992)) = Finite (1 / 2)"
proof -
  have "binary64 (4953959590107545 / 9007199254740992 * 10) =
      Finite (of_int 6192449487634431 * 2 powi (2 - 52))"
    by (rule binary64_near) simp_all
  then have t: "js_times (Finite (4953959590107545 / 9007199254740992)) (Finite 10) =
      Finite (6192449487634431 / 1125899906842624)"
    by (simp add: js_times_def)
  have f: "round_half_up (6192449487634431 / 1125899906842624) = 5"
    unfolding round_half_up_def by (rule floor_unique) simp_all
  show ?thesis by (simp add: round1_def t Math_round_def f js_divide_def binary64_half)
qed

lemma scan_number_split: "scan_number s = Some (g, r) \<Longrightarrow> s = g @ r"
  by (simp add: scan_number_sound)

lemma scan_number_loose_split: "scan_number_loose s = Some (g, r) \<Longrightarrow> s = g @ r"
  by (simp add: scan_number_loose_sound)

lemma scan_whole_number_complete:
  assumes "is_decimal l"
  shows "scan_whole_number l = Some l"
proof -
  let ?ip = "takeWhile is_digit l" and ?d = "dropWhile is_digit l"
  have l: "l = ?ip @ ?d" by simp
  from assms have ne: "?ip \<noteq> []" by (simp add: is_decimal_def Let_def)
  show ?thesis
  proof (cases ?d)
    case Nil
    with l have ip: "?ip = l" by simp
    have "scan_number l = Some (?ip, [])"
      unfolding scan_number_def Let_def Nil using ne by simp
    with ip show ?thesis by (simp add: scan_whole_number_def)
  next
    case (Cons c r')
    with assms have c: "c = code CHR ''.''" and r': "r' \<noteq> []" "list_all is_digit r'"
      by (simp_all add: is_decimal_def Let_def)
    from r'(2) have t: "takeWhile is_digit r' = r'" and d: "dropWhile is_digit r' = []"
      by (simp_all add: list_all_iff)
    have tne: "takeWhile is_digit r' \<noteq> []" unfolding t by (fact r'(1))
    have "scan_number l = Some (?ip @ c # r', [])"
      unfolding scan_number_def Let_def Cons using ne c tne r'(2) by (simp add: list_all_iff)
    moreover have "?ip @ c # r' = l" using l Cons by simp
    ultimately show ?thesis by (simp add: scan_whole_number_def)
  qed
qed

lemma scan_whole_number_None: "\<not> is_decimal l \<Longrightarrow> scan_whole_number l = None"
  using scan_whole_number_sound [of l] by (cases "scan_whole_number l") auto

lemma yearMatches_sound:
  assumes "yearMatches l = Some y"
  shows "is_decimal y \<and> (\<exists>pre ws post. l = pre @ y @ ws @ code CHR ''y'' # post \<and> (\<forall>c\<in>set ws. is_space c))"
  using unit_match_decimal [OF assms [unfolded yearMatches_def]]
    unit_match_sound [OF assms [unfolded yearMatches_def] scan_number_split]
  by simp

lemma monthMatches_sound:
  assumes "monthMatches l = Some m"
  shows "is_decimal m \<and> (\<exists>pre ws post. l = pre @ m @ ws @ code CHR ''m'' # post \<and> (\<forall>c\<in>set ws. is_space c))"
  using unit_match_decimal [OF assms [unfolded monthMatches_def]]
    unit_match_sound [OF assms [unfolded monthMatches_def] scan_number_split]
  by simp

lemma lakhMatch_sound:
  assumes "lakhMatch l = Some g"
  shows "\<exists>pre ws post. l = pre @ g @ ws @ code CHR ''l'' # post \<and> (\<forall>c\<in>set ws. is_space c)"
  using unit_match_sound [OF assms [unfolded lakhMatch_def] scan_number_loose_split] .

lemma kMatch_sound:
  assumes "kMatch l = Some g"
  shows "\<exists>pre ws post. l = pre @ g @ ws @ code CHR ''k'' # post \<and> (\<forall>c\<in>set ws. is_space c)"
  using unit_match_sound [OF assms [unfolded kMatch_def] scan_number_loose_split] .

lemma exp_5y6m:
  assumes "lowers_plain_text e"
  shows "parseExperienceToNumber e (utf16 ''5 years 6 months'') = Finite (11 / 2)"
proof -
  have p: "list_all plain (utf16 ''5 years 6 months'')" by (simp add: text_eval)
  have l: "trim (toLowerCase e (utf16 ''5 years 6 months'')) = utf16 ''5 years 6 months''"
    unfolding lower_eval [OF assms p] by (simp add: text_eval)
  have y: "yearMatches (utf16 ''5 years 6 months'') = Some (utf16 ''5'')" by (simp add: scan_eval)
  have m: "monthMatches (utf16 ''5 years 6 months'') = Some (utf16 ''6'')" by (simp add: scan_eval)
  have ne: "utf16 ''5 years 6 months'' \<noteq> []" by (simp add: utf16_def)
  show ?thesis
    by (simp add: parseExperienceToNumber_round1 [OF ne] l y m parseFloat_digit value_5y6m)
qed

lemma exp_6m:
  assumes "lowers_plain_text e"
  shows "parseExperienceToNumber e (utf16 ''6 months'') = Finite (1 / 2)"
proof -
  have p: "list_all plain (utf16 ''6 months'')" by (simp add: text_eval)
  have l: "trim (toLowerCase e (utf16 ''6 months'')) = utf16 ''6 months''"
    unfolding lower_eval [OF assms p] by (simp add: text_eval)
  have y: "yearMatches (utf16 ''6 months'') = None" by (simp add: scan_eval)
  have m: "monthMatches (utf16 ''6 months'') = Some (utf16 ''6'')" by (simp add: scan_eval)
  have ne: "utf16 ''6 months'' \<noteq> []" by (simp add: utf16_def)
  show ?thesis
    by (simp add: parseExperienceToNumber_round1 [OF ne] l y m parseFloat_digit value_6m)
qed

lemma exp_3:
  assumes "lowers_plain_text e"
  shows "parseExperienceToNumber e (utf16 ''3'') = Finite 3"
proof -
  have p: "list_all plain (utf16 ''3'')" by (simp add: text_eval)
  have l: "trim (toLowerCase e (utf16 ''3'')) = utf16 ''3''"
    unfolding lower_eval [OF assms p] by (simp add: text_eval)
  have y: "yearMatches (utf16 ''3'') = None" by (simp add: scan_eval)
  have m: "monthMatches (utf16 ''3'') = None" by (simp add: scan_eval)
  have w: "scan_whole_number (utf16 ''3'') = Some (utf16 ''3'')" by (simp add: scan_eval)
  have ne: "utf16 ''3'' \<noteq> []" by (simp add: utf16_def)
  show ?thesis
    by (simp add: parseExperienceToNumber_round1 [OF ne] l y m w parseFloat_digit value_3)
qed

lemma exp_garbage:
  assumes "lowers_plain_text e"
  shows "parseExperienceToNumber e (utf16 ''garbage'') = Finite 0"
proof -
  have p: "list_all plain (utf16 ''garbage'')" by (simp add: text_eval)
  have l: "trim (toLowerCase e (utf16 ''garbage'')) = utf16 ''garbage''"
    unfolding lower_eval [OF assms p] by (simp add: text_eval)
  have y: "yearMatches (utf16 ''garbage'') = None" by (simp add: scan_eval)
  have m: "monthMatches (utf16 ''garbage'') = None" by (simp add: scan_eval)
  have w: "scan_whole_number (utf16 ''garbage'') = None" by (simp add: scan_eval)
  have ne: "utf16 ''garbage'' \<noteq> []" by (simp add: utf16_def)
  show ?thesis
    by (simp add: parseExperienceToNumber_round1 [OF ne] l y m w round1_zero)
qed

lemma exp_upper:
  assumes "lowers_plain_text e"
  shows "parseExperienceToNumber e (utf16 ''  5 YEARS 6 Months '') = Finite (11 / 2)"
proof -
  have p: "list_all plain (utf16 ''  5 YEARS 6 Months '')" by (simp add: text_eval)
  have l: "trim (toLowerCase e (utf16 ''  5 YEARS 6 Months '')) = utf16 ''5 years 6 months''"
    unfolding lower_eval [OF assms p] by (simp add: text_eval)
  have y: "yearMatches (utf16 ''5 years 6 months'') = Some (utf16 ''5'')" by (simp add: scan_eval)
  have m: "monthMatches (utf16 ''5 years 6 months'') = Some (utf16 ''6'')" by (simp add: scan_eval)
  have ne: "utf16 ''  5 YEARS 6 Months '' \<noteq> []" by (simp add: utf16_def)
  show ?thesis
    by (simp add: parseExperienceToNumber_round1 [OF ne] l y m parseFloat_digit value_5y6m)
qed

lemma exp_wide:
  assumes "lowers_plain_text e"
  shows "parseExperienceToNumber e (0x3000 # utf16 ''3 YRS'' @ [0xA0, 0x2003]) = Finite 3"
proof -
  have p: "list_all plain (0x3000 # utf16 ''3 YRS'' @ [0xA0, 0x2003])" by (simp add: text_eval)
  have l: "trim (toLowerCase e (0x3000 # utf16 ''3 YRS'' @ [0xA0, 0x2003])) = utf16 ''3 yrs''"
    unfolding lower_eval [OF assms p] by (simp add: text_eval)
  have y: "yearMatches (utf16 ''3 yrs'') = Some (utf16 ''3'')" by (simp add: scan_eval)
  have m: "monthMatches (utf16 ''3 yrs'') = None" by (simp add: scan_eval)
  have ne: "0x3000 # utf16 ''3 YRS'' @ [0xA0, 0x2003] \<noteq> []" by (simp add: utf16_def)
  show ?thesis
    by (simp add: parseExperienceToNumber_round1 [OF ne] l y m parseFloat_digit value_3)
qed

lemma exp_6_6m:
  assumes "lowers_plain_text e"
  shows "parseExperienceToNumber e (utf16 ''6.6 months'') = Finite (1 / 2)"
proof -
  have p: "list_all plain (utf16 ''6.6 months'')" by (simp add: text_eval)
  have l: "trim (toLowerCase e (utf16 ''6.6 months'')) = utf16 ''6.6 months''"
    unfolding lower_eval [OF assms p] by (simp add: text_eval)
  have y: "yearMatches (utf16 ''6.6 months'') = None" by (simp add: scan_eval)
  have m: "monthMatches (utf16 ''6.6 months'') = Some (utf16 ''6.6'')" by (simp add: scan_eval)
  have ne: "utf16 ''6.6 months'' \<noteq> []" by (simp add: utf16_def)
  show ?thesis
    by (simp add: parseExperienceToNumber_round1 [OF ne] l y m parseFloat_6_6 twelfth_6_6 value_6_6m)
qed

lemma exp_2y6m:
  assumes "lowers_plain_text e"
  shows "parseExperienceToNumber e (utf16 ''2 years 6 months'') = Finite (5 / 2)"
proof -
  have p: "list_all plain (utf16 ''2 years 6 months'')" by (simp add: text_eval)
  have l: "trim (toLowerCase e (utf16 ''2 years 6 months'')) = utf16 ''2 years 6 months''"
    unfolding lower_eval [OF assms p] by (simp add: text_eval)
  have y: "yearMatches (utf16 ''2 years 6 months'') = Some (utf16 ''2'')" by (simp add: scan_eval)
  have m: "monthMatches (utf16 ''2 years 6 months'') = Some (utf16 ''6'')" by (simp add: scan_eval)
  have ne: "utf16 ''2 years 6 months'' \<noteq> []" by (simp add: utf16_def)
  show ?thesis
    by (simp add: parseExperienceToNumber_round1 [OF ne] l y m parseFloat_digit value_2y6m)
qed

lemma sample_lowers: "lowers_plain_text sample_env"
  by (simp add: lowers_plain_text_def sample_env_def)

text \<open>
  Claim C7. For every input string the duration parser returns a number of years that is
  not negative: \<open>Infinity\<close> when a quantity is beyond the doubles, and otherwise the
  double nearest to a whole number of tenths. It adds the years quantity (the first number
  followed by optional white space and \<open>y\<close>) and, independently, the months quantity
  (the first number followed by optional white space and \<open>m\<close>) divided by 12; a string
  with both units sums both. With neither unit, a trimmed string that is a bare number is
  taken as years, and anything else, the empty string included, yields 0. The result is
  rounded to one decimal place: the sum is multiplied by 10, rounded to the nearest
  integer and divided by 10, in the arithmetic of doubles. The matching is done on the
  string lowered and trimmed, so that upper case and outer white space do not count.
\<close>

theorem parseExperienceToNumber_years:
  "nonneg (parseExperienceToNumber e s)
   \<and> (parseExperienceToNumber e s = Infinity
        \<or> (\<exists>k::nat. parseExperienceToNumber e s = binary64 (of_nat k / 10)))
   \<and> (s \<noteq> [] \<longrightarrow>
        (let l = trim (toLowerCase e s) in
           (\<forall>y m. yearMatches l = Some y \<and> monthMatches l = Some m \<longrightarrow>
               parseExperienceToNumber e s =
                 round1 (js_plus (parseFloat y) (js_divide (parseFloat m) (Finite 12))))
         \<and> (\<forall>y. yearMatches l = Some y \<and> monthMatches l = None \<longrightarrow>
               parseExperienceToNumber e s = round1 (parseFloat y))
         \<and> (\<forall>m. yearMatches l = None \<and> monthMatches l = Some m \<longrightarrow>
               parseExperienceToNumber e s = round1 (js_divide (parseFloat m) (Finite 12)))
         \<and> (yearMatches l = None \<and> monthMatches l = None \<longrightarrow>
               (is_decimal l \<longrightarrow> parseExperienceToNumber e s = round1 (parseFloat l))
             \<and> (\<not> is_decimal l \<longrightarrow> parseExperienceToNumber e s = Finite 0))
         \<and> (\<forall>y. yearMatches l = Some y \<longrightarrow> is_decimal y \<and>
               (\<exists>pre ws post. l = pre @ y @ ws @ code CHR ''y'' # post \<and> (\<forall>c\<in>set ws. is_space c)))
         \<and> (\<forall>m. monthMatches l = Some m \<longrightarrow> is_decimal m \<and>
               (\<exists>pre ws post. l = pre @ m @ ws @ code CHR ''m'' # post \<and> (\<forall>c\<in>set ws. is_space c)))))
   \<and> (\<forall>t. nonneg t \<longrightarrow>
         round1 t = Infinity
         \<or> (\<exists>k::nat. round1 t = binary64 (of_nat k / 10)
               \<and> (\<exists>p. js_times t (Finite 10) = Finite p \<and> \<bar>of_nat k - p\<bar> \<le> 1 / 2)))
   \<and> parseExperienceToNumber e [] = Finite 0
   \<and> (lowers_plain_text e \<longrightarrow>
         parseExperienceToNumber e (utf16 ''5 years 6 months'') = Finite (11 / 2)
       \<and> parseExperienceToNumber e (utf16 ''6 months'') = Finite (1 / 2)
       \<and> parseExperienceToNumber e (utf16 ''3'') = Finite 3
       \<and> parseExperienceToNumber e (utf16 ''garbage'') = Finite 0
       \<and> parseExperienceToNumber e (utf16 ''  5 YEARS 6 Months '') = Finite (11 / 2)
       \<and> parseExperienceToNumber e (0x3000 # utf16 ''3 YRS'' @ [0xA0, 0x2003]) = Finite 3
       \<and> parseExperienceToNumber e (utf16 ''6.6 months'') = Finite (1 / 2))"
proof -
  have cases: "s \<noteq> [] \<longrightarrow>
        (let l = trim (toLowerCase e s) in
           (\<forall>y m. yearMatches l = Some y \<and> monthMatches l = Some m \<longrightarrow>
               parseExperienceToNumber e s =
                 round1 (js_plus (parseFloat y) (js_divide (parseFloat m) (Finite 12))))
         \<and> (\<forall>y. yearMatches l = Some y \<and> monthMatches l = None \<longrightarrow>
               parseExperienceToNumber e s = round1 (parseFloat y))
         \<and> (\<forall>m. yearMatches l = None \<and> monthMatches l = Some m \<longrightarrow>
               parseExperienceToNumber e s = round1 (js_divide (parseFloat m) (Finite 12)))
         \<and> (yearMatches l = None \<and> monthMatches l = None \<longrightarrow>
               (is_decimal l \<longrightarrow> parseExperienceToNumber e s = round1 (parseFloat l))
             \<and> (\<not> is_decimal l \<longrightarrow> parseExperienceToNumber e s = Finite 0))
         \<and> (\<forall>y. yearMatches l = Some y \<longrightarrow> is_decimal y \<and>
               (\<exists>pre ws post. l = pre @ y @ ws @ code CHR ''y'' # post \<and> (\<forall>c\<in>set ws. is_space c)))
         \<and> (\<forall>m. monthMatches l = Some m \<longrightarrow> is_decimal m \<and>
               (\<exists>pre ws post. l = pre @ m @ ws @ code CHR ''m'' # post \<and> (\<forall>c\<in>set ws. is_space c))))"
  proof
    assume ne: "s \<noteq> []"
    define l where "l = trim (toLowerCase e s)"
    have r: "parseExperienceToNumber e s =
       round1 (case (yearMatches l, monthMatches l) of
           (Some y, Some m) \<Rightarrow> js_plus (parseFloat y) (js_divide (parseFloat m) (Finite 12))
         | (Some y, None) \<Rightarrow> parseFloat y
         | (None, Some m) \<Rightarrow> js_divide (parseFloat m) (Finite 12)
         | (None, None) \<Rightarrow> (case scan_whole_number l of Some g \<Rightarrow> parseFloat g | None \<Rightarrow> Finite 0))"
      unfolding l_def by (rule parseExperienceToNumber_round1 [OF ne, unfolded Let_def])
    have c1: "\<forall>y m. yearMatches l = Some y \<and> monthMatches l = Some m \<longrightarrow>
               parseExperienceToNumber e s =
                 round1 (js_plus (parseFloat y) (js_divide (parseFloat m) (Finite 12)))"
      by (simp add: r)
    have c2: "\<forall>y. yearMatches l = Some y \<and> monthMatches l = None \<longrightarrow>
               parseExperienceToNumber e s = round1 (parseFloat y)"
      by (simp add: r)
    have c3: "\<forall>m. yearMatches l = None \<and> monthMatches l = Some m \<longrightarrow>
               parseExperienceToNumber e s = round1 (js_divide (parseFloat m) (Finite 12))"
      by (simp add: r)
    have c4: "yearMatches l = None \<and> monthMatches l = None \<longrightarrow>
               (is_decimal l \<longrightarrow> parseExperienceToNumber e s = round1 (parseFloat l))
             \<and> (\<not> is_decimal l \<longrightarrow> parseExperienceToNumber e s = Finite 0)"
      by (simp add: r scan_whole_number_complete scan_whole_number_None round1_zero)
    have c5: "\<forall>y. yearMatches l = Some y \<longrightarrow> is_decimal y \<and>
               (\<exists>pre ws post. l = pre @ y @ ws @ code CHR ''y'' # post \<and> (\<forall>c\<in>set ws. is_space c))"
      using yearMatches_sound by blast
    have c6: "\<forall>m. monthMatches l = Some m \<longrightarrow> is_decimal m \<and>
               (\<exists>pre ws post. l = pre @ m @ ws @ code CHR ''m'' # post \<and> (\<forall>c\<in>set ws. is_space c))"
      using monthMatches_sound by blast
    from c1 c2 c3 c4 c5 c6 show "let l = trim (toLowerCase e s) in
           (\<forall>y m. yearMatches l = Some y \<and> monthMatches l = Some m \<longrightarrow>
               parseExperienceToNumber e s =
                 round1 (js_plus (parseFloat y) (js_divide (parseFloat m) (Finite 12))))
         \<and> (\<forall>y. yearMatches l = Some y \<and> monthMatches l = None \<longrightarrow>
               parseExperienceToNumber e s = round1 (parseFloat y))
         \<and> (\<forall>m. yearMatches l = None \<and> monthMatches l = Some m \<longrightarrow>
               parseExperienceToNumber e s = round1 (js_divide (parseFloat m) (Finite 12)))
         \<and> (yearMatches l = None \<and> monthMatches l = None \<longrightarrow>
               (is_decimal l \<longrightarrow> parseExperienceToNumber e s = round1 (parseFloat l))
             \<and> (\<not> is_decimal l \<longrightarrow> parseExperienceToNumber e s = Finite 0))
         \<and> (\<forall>y. yearMatches l = Some y \<longrightarrow> is_decimal y \<and>
               (\<exists>pre ws post. l = pre @ y @ ws @ code CHR ''y'' # post \<and> (\<forall>c\<in>set ws. is_space c)))
         \<and> (\<forall>m. monthMatches l = Some m \<longrightarrow> is_decimal m \<and>
               (\<exists>pre ws post. l = pre @ m @ ws @ code CHR ''m'' # post \<and> (\<forall>c\<in>set ws. is_space c)))"
      unfolding Let_def l_def [symmetric] by (intro conjI)
  qed
  have near: "\<forall>t. nonneg t \<longrightarrow>
         round1 t = Infinity
         \<or> (\<exists>k::nat. round1 t = binary64 (of_nat k / 10)
               \<and> (\<exists>p. js_times t (Finite 10) = Finite p \<and> \<bar>of_nat k - p\<bar> \<le> 1 / 2))"
    using round1_tenths by blast
  have examples: "lowers_plain_text e \<longrightarrow>
         parseExperienceToNumber e (utf16 ''5 years 6 months'') = Finite (11 / 2)
       \<and> parseExperienceToNumber e (utf16 ''6 months'') = Finite (1 / 2)
       \<and> parseExperienceToNumber e (utf16 ''3'') = Finite 3
       \<and> parseExperienceToNumber e (utf16 ''garbage'') = Finite 0
       \<and> parseExperienceToNumber e (utf16 ''  5 YEARS 6 Months '') = Finite (11 / 2)
       \<and> parseExperienceToNumber e (0x3000 # utf16 ''3 YRS'' @ [0xA0, 0x2003]) = Finite 3
       \<and> parseExperienceToNumber e (utf16 ''6.6 months'') = Finite (1 / 2)"
    using exp_5y6m exp_6m exp_3 exp_garbage exp_upper exp_wide exp_6_6m by (intro impI conjI)
  from parseExperienceToNumber_nonneg [of e s] parseExperienceToNumber_tenths [of e s] cases near
    parseExperienceToNumber_empty [of e] examples
  show ?thesis by (intro conjI)
qed

text \<open>Claim C7 in the sample environment at \<open>2 years 6 months\<close>: both units match
  and the result is 2.5; at \<open>6.6 months\<close> the result is 0.5, the twelfth of the
  double 6.6 times 10 being the double 5.499999999999999.\<close>

theorem parseExperienceToNumber_years_witness:
  "utf16 ''2 years 6 months'' \<noteq> []
   \<and> lowers_plain_text sample_env
   \<and> yearMatches (trim (toLowerCase sample_env (utf16 ''2 years 6 months''))) = Some (utf16 ''2'')
   \<and> monthMatches (trim (toLowerCase sample_env (utf16 ''2 years 6 months''))) = Some (utf16 ''6'')
   \<and> nonneg (Finite (5 / 2))
   \<and> parseExperienceToNumber sample_env (utf16 ''2 years 6 months'') = Finite (5 / 2)
   \<and> parseExperienceToNumber sample_env (utf16 ''6.6 months'') = Finite (1 / 2)
   \<and> parseExperienceToNumber sample_env (utf16 ''  5 YEARS 6 Months '') = Finite (11 / 2)"
proof -
  have p: "list_all plain (utf16 ''2 years 6 months'')" by (simp add: text_eval)
  have l: "trim (toLowerCase sample_env (utf16 ''2 years 6 months'')) = utf16 ''2 years 6 months''"
    unfolding lower_eval [OF sample_lowers p] by (simp add: text_eval)
  have y: "yearMatches (utf16 ''2 years 6 months'') = Some (utf16 ''2'')" by (simp add: scan_eval)
  have m: "monthMatches (utf16 ''2 years 6 months'') = Some (utf16 ''6'')" by (simp add: scan_eval)
  have ne: "utf16 ''2 years 6 months'' \<noteq> []" by (simp add: utf16_def)
  note T = parseExperienceToNumber_years [of sample_env "utf16 ''2 years 6 months''"]
  from T ne have "\<forall>y m. yearMatches (utf16 ''2 years 6 months'') = Some y
        \<and> monthMatches (utf16 ''2 years 6 months'') = Some m \<longrightarrow>
      parseExperienceToNumber sample_env (utf16 ''2 years 6 months'') =
        round1 (js_plus (parseFloat y) (js_divide (parseFloat m) (Finite 12)))"
    by (simp add: Let_def l)
  with y m have v: "parseExperienceToNumber sample_env (utf16 ''2 years 6 months'') = Finite (5 / 2)"
    by (simp add: parseFloat_digit value_2y6m)
  from T have n: "nonneg (parseExperienceToNumber sample_env (utf16 ''2 years 6 months''))"
    by (elim conjE)
  from T sample_lowers
  have x: "parseExperienceToNumber sample_env (utf16 ''6.6 months'') = Finite (1 / 2)"
    and u: "parseExperienceToNumber sample_env (utf16 ''  5 YEARS 6 Months '') = Finite (11 / 2)"
    by (elim conjE, simp)+
  from ne sample_lowers y m n v x u show ?thesis by (simp add: l)
qed

text \<open>1.1 as a double, and a hundred thousand times that: 110000.00000000001.\<close>

lemma lakh_1_1:
  "js_times (parseFloat (utf16 ''1.1'')) (Finite 100000) = Finite (7559142440960001 / 68719476736)"
proof -
  have d: "decimal_value (utf16 ''1.1'') = 11 / 10" by (simp add: decimal_eval)
  have "binary64 (11 / 10) = Finite (of_int 4953959590107546 * 2 powi (0 - 52))"
    by (rule binary64_near) simp_all
  then have f: "parseFloat (utf16 ''1.1'') = Finite (2476979795053773 / 2251799813685248)"
    by (simp add: parseFloat_def d)
  have "binary64 (2476979795053773 / 2251799813685248 * 100000) =
      Finite (of_int 7559142440960001 * 2 powi (16 - 52))"
    by (rule binary64_near) simp_all
  then show ?thesis by (simp add: f js_times_def)
qed

lemma lakh_2_5:
  "js_times (parseFloat (utf16 ''2.5'')) (Finite 100000) = Finite 250000"
proof -
  have d: "decimal_value (utf16 ''2.5'') = 5 / 2" by (simp add: decimal_eval)
  show ?thesis by (simp add: parseFloat_def d binary64_5_2 js_times_def binary64_numeral)
qed

lemma strip_ctc_set:
  "code CHR '','' \<notin> set (strip_ctc s) \<and> rupee \<notin> set (strip_ctc s) \<and> code CHR ''$'' \<notin> set (strip_ctc s)"
  by (simp add: strip_ctc_def)

lemma strip_ctc_keeps:
  "c \<noteq> code CHR '','' \<Longrightarrow> c \<noteq> rupee \<Longrightarrow> c \<noteq> code CHR ''$'' \<Longrightarrow>
   count_list (strip_ctc s) c = count_list s c"
  by (induction s) (simp_all add: strip_ctc_def)

lemma whole_times:
  assumes "decimal_value g = of_int n" "0 \<le> n" "0 < k" "n * k \<le> 2 ^ 53"
  shows "js_times (parseFloat g) (Finite (of_int k)) = Finite (of_int (n * k))"
proof -
  have "n * 1 \<le> n * k" using assms(2,3) by (intro mult_left_mono) simp_all
  with assms(4) have n: "n \<le> 2 ^ 53" by simp
  have nk: "0 \<le> n * k" using assms(2,3) by simp
  have "parseFloat g = Finite (of_int n)"
    unfolding parseFloat_def assms(1) using assms(2) n by (rule binary64_int)
  moreover have "binary64 (of_int (n * k)) = Finite (of_int (n * k))"
    using nk assms(4) by (rule binary64_int)
  ultimately show ?thesis by (simp add: js_times_def)
qed

lemma ctc_12lpa:
  assumes "lowers_plain_text e"
  shows "parseCTC e (utf16 ''12 LPA'') = Finite 1200000"
proof -
  have p: "list_all plain (utf16 ''12 LPA'')" by (simp add: text_eval)
  have l: "strip_ctc (toLowerCase e (utf16 ''12 LPA'')) = utf16 ''12 lpa''"
    unfolding lower_eval [OF assms p] by (simp add: text_eval)
  have a: "lakhMatch (utf16 ''12 lpa'') = Some (utf16 ''12'')" by (simp add: scan_eval)
  have ne: "utf16 ''12 LPA'' \<noteq> []" by (simp add: utf16_def)
  show ?thesis
    by (simp add: parseCTC_cases [OF ne] l a parseFloat_digit number_eval)
qed

lemma ctc_50k:
  assumes "lowers_plain_text e"
  shows "parseCTC e (utf16 ''50k'') = Finite 50000"
proof -
  have p: "list_all plain (utf16 ''50k'')" by (simp add: text_eval)
  have l: "strip_ctc (toLowerCase e (utf16 ''50k'')) = utf16 ''50k''"
    unfolding lower_eval [OF assms p] by (simp add: text_eval)
  have a: "lakhMatch (utf16 ''50k'') = None" by (simp add: scan_eval)
  have k: "kMatch (utf16 ''50k'') = Some (utf16 ''50'')" by (simp add: scan_eval)
  have ne: "utf16 ''50k'' \<noteq> []" by (simp add: utf16_def)
  show ?thesis
    by (simp add: parseCTC_cases [OF ne] l a k parseFloat_digit number_eval)
qed

lemma ctc_80000:
  assumes "lowers_plain_text e"
  shows "parseCTC e (utf16 ''$80,000'') = Finite 80000"
proof -
  have p: "list_all plain (utf16 ''$80,000'')" by (simp add: text_eval)
  have l: "strip_ctc (toLowerCase e (utf16 ''$80,000'')) = utf16 ''80000''"
    unfolding lower_eval [OF assms p] by (simp add: text_eval)
  have a: "lakhMatch (utf16 ''80000'') = None" by (simp add: scan_eval)
  have k: "kMatch (utf16 ''80000'') = None" by (simp add: scan_eval)
  have n: "numMatch (utf16 ''80000'') = Some (utf16 ''80000'')" by (simp add: scan_eval)
  have ne: "utf16 ''$80,000'' \<noteq> []" by (simp add: utf16_def)
  show ?thesis
    by (simp add: parseCTC_cases [OF ne] l a k n parseFloat_digit)
qed

lemma ctc_rupee:
  assumes "lowers_plain_text e"
  shows "parseCTC e (rupee # utf16 ''12,50,000'') = Finite 1250000"
proof -
  have p: "list_all plain (rupee # utf16 ''12,50,000'')" by (simp add: text_eval)
  have l: "strip_ctc (toLowerCase e (rupee # utf16 ''12,50,000'')) = utf16 ''1250000''"
    unfolding lower_eval [OF assms p] by (simp add: text_eval)
  have a: "lakhMatch (utf16 ''1250000'') = None" by (simp add: scan_eval)
  have k: "kMatch (utf16 ''1250000'') = None" by (simp add: scan_eval)
  have n: "numMatch (utf16 ''1250000'') = Some (utf16 ''1250000'')" by (simp add: scan_eval)
  have ne: "rupee # utf16 ''12,50,000'' \<noteq> []" by (simp add: utf16_def)
  show ?thesis
    by (simp add: parseCTC_cases [OF ne] l a k n parseFloat_digit)
qed

lemma ctc_lakh_first:
  assumes "lowers_plain_text e"
  shows "parseCTC e (utf16 ''5 and 12 lpa'') = Finite 1200000"
proof -
  have p: "list_all plain (utf16 ''5 and 12 lpa'')" by (simp add: text_eval)
  have l: "strip_ctc (toLowerCase e (utf16 ''5 and 12 lpa'')) = utf16 ''5 and 12 lpa''"
    unfolding lower_eval [OF assms p] by (simp add: text_eval)
  have a: "lakhMatch (utf16 ''5 and 12 lpa'') = Some (utf16 ''12'')" by (simp add: scan_eval)
  have ne: "utf16 ''5 and 12 lpa'' \<noteq> []" by (simp add: utf16_def)
  show ?thesis
    by (simp add: parseCTC_cases [OF ne] l a parseFloat_digit number_eval)
qed

lemma ctc_1_1lpa:
  assumes "lowers_plain_text e"
  shows "parseCTC e (utf16 ''1.1 lpa'') = Finite (7559142440960001 / 68719476736)"
proof -
  have p: "list_all plain (utf16 ''1.1 lpa'')" by (simp add: text_eval)
  have l: "strip_ctc (toLowerCase e (utf16 ''1.1 lpa'')) = utf16 ''1.1 lpa''"
    unfolding lower_eval [OF assms p] by (simp add: text_eval)
  have a: "lakhMatch (utf16 ''1.1 lpa'') = Some (utf16 ''1.1'')" by (simp add: scan_eval)
  have ne: "utf16 ''1.1 lpa'' \<noteq> []" by (simp add: utf16_def)
  show ?thesis
    by (simp add: parseCTC_cases [OF ne] l a lakh_1_1)
qed

lemma ctc_lakh_bare:
  assumes "lowers_plain_text e"
  shows "parseCTC e (utf16 ''7 or 2.5 lakh'') = Finite 250000"
proof -
  have p: "list_all plain (utf16 ''7 or 2.5 lakh'')" by (simp add: text_eval)
  have l: "strip_ctc (toLowerCase e (utf16 ''7 or 2.5 lakh'')) = utf16 ''7 or 2.5 lakh''"
    unfolding lower_eval [OF assms p] by (simp add: text_eval)
  have a: "lakhMatch (utf16 ''7 or 2.5 lakh'') = Some (utf16 ''2.5'')" by (simp add: scan_eval)
  have ne: "utf16 ''7 or 2.5 lakh'' \<noteq> []" by (simp add: utf16_def)
  show ?thesis
    by (simp add: parseCTC_cases [OF ne] l a lakh_2_5)
qed

text \<open>
  Claim C8. For every input string the compensation parser lowers the string, removes
  every comma, rupee sign and dollar sign from it and nothing else, and applies exactly
  one pattern, in the order lakh, k, bare number: a number followed by optional white
  space and \<open>l\<close> is multiplied by 100000; otherwise a number followed by optional
  white space and \<open>k\<close> is multiplied by 1000; otherwise the first bare number is
  taken; 0 if the string has no digit. The matches are never summed, and a lakh match
  wins over a bare number that stands earlier in the same string. The product is that of
  doubles: it is the exact product of a whole number as long as that stays below
  \<open>2 ^ 53\<close>, and 1.1 lakh is 110000.00000000001.
\<close>

theorem parseCTC_precedence:
  "nonneg (parseCTC e s)
   \<and> (s \<noteq> [] \<longrightarrow>
        (let l = strip_ctc (toLowerCase e s) in
           code CHR '','' \<notin> set l \<and> rupee \<notin> set l \<and> code CHR ''$'' \<notin> set l
         \<and> (\<forall>c. c \<noteq> code CHR '','' \<and> c \<noteq> rupee \<and> c \<noteq> code CHR ''$'' \<longrightarrow>
               count_list l c = count_list (toLowerCase e s) c)
         \<and> (\<forall>g. lakhMatch l = Some g \<longrightarrow>
               parseCTC e s = js_times (parseFloat g) (Finite 100000) \<and>
               (\<exists>pre ws post. l = pre @ g @ ws @ code CHR ''l'' # post \<and> (\<forall>c\<in>set ws. is_space c)))
         \<and> (\<forall>g. lakhMatch l = None \<and> kMatch l = Some g \<longrightarrow>
               parseCTC e s = js_times (parseFloat g) (Finite 1000) \<and>
               (\<exists>pre ws post. l = pre @ g @ ws @ code CHR ''k'' # post \<and> (\<forall>c\<in>set ws. is_space c)))
         \<and> (\<forall>g. lakhMatch l = None \<and> kMatch l = None \<and> numMatch l = Some g \<longrightarrow>
               parseCTC e s = parseFloat g \<and>
               (\<exists>pre post. l = pre @ g @ post \<and> (\<forall>c\<in>set pre. \<not> is_digit c) \<and> g \<noteq> [] \<and> is_digit (hd g)))
         \<and> (lakhMatch l = None \<and> kMatch l = None \<and> numMatch l = None \<longrightarrow>
               parseCTC e s = Finite 0 \<and> (\<forall>c\<in>set l. \<not> is_digit c))))
   \<and> (\<forall>g n k. decimal_value g = of_int n \<and> 0 \<le> n \<and> 0 < k \<and> n * k \<le> 2 ^ 53 \<longrightarrow>
         js_times (parseFloat g) (Finite (of_int k)) = Finite (of_int (n * k)))
   \<and> parseCTC e [] = Finite 0
   \<and> (lowers_plain_text e \<longrightarrow>
         parseCTC e (utf16 ''12 LPA'') = Finite 1200000
       \<and> parseCTC e (utf16 ''50k'') = Finite 50000
       \<and> parseCTC e (utf16 ''$80,000'') = Finite 80000
       \<and> parseCTC e (rupee # utf16 ''12,50,000'') = Finite 1250000
       \<and> parseCTC e (utf16 ''5 and 12 lpa'') = Finite 1200000
       \<and> parseCTC e (utf16 ''7 or 2.5 lakh'') = Finite 250000
       \<and> parseCTC e (utf16 ''1.1 lpa'') = Finite (7559142440960001 / 68719476736))"
proof -
  have cases: "s \<noteq> [] \<longrightarrow>
        (let l = strip_ctc (toLowerCase e s) in
           code CHR '','' \<notin> set l \<and> rupee \<notin> set l \<and> code CHR ''$'' \<notin> set l
         \<and> (\<forall>c. c \<noteq> code CHR '','' \<and> c \<noteq> rupee \<and> c \<noteq> code CHR ''$'' \<longrightarrow>
               count_list l c = count_list (toLowerCase e s) c)
         \<and> (\<forall>g. lakhMatch l = Some g \<longrightarrow>
               parseCTC e s = js_times (parseFloat g) (Finite 100000) \<and>
               (\<exists>pre ws post. l = pre @ g @ ws @ code CHR ''l'' # post \<and> (\<forall>c\<in>set ws. is_space c)))
         \<and> (\<forall>g. lakhMatch l = None \<and> kMatch l = Some g \<longrightarrow>
               parseCTC e s = js_times (parseFloat g) (Finite 1000) \<and>
               (\<exists>pre ws post. l = pre @ g @ ws @ code CHR ''k'' # post \<and> (\<forall>c\<in>set ws. is_space c)))
         \<and> (\<forall>g. lakhMatch l = None \<and> kMatch l = None \<and> numMatch l = Some g \<longrightarrow>
               parseCTC e s = parseFloat g \<and>
               (\<exists>pre post. l = pre @ g @ post \<and> (\<forall>c\<in>set pre. \<not> is_digit c) \<and> g \<noteq> [] \<and> is_digit (hd g)))
         \<and> (lakhMatch l = None \<and> kMatch l = None \<and> numMatch l = None \<longrightarrow>
               parseCTC e s = Finite 0 \<and> (\<forall>c\<in>set l. \<not> is_digit c)))"
  proof
    assume ne: "s \<noteq> []"
    define l where "l = strip_ctc (toLowerCase e s)"
    have r: "parseCTC e s =
      (case lakhMatch l of
           Some g \<Rightarrow> js_times (parseFloat g) (Finite 100000)
         | None \<Rightarrow> (case kMatch l of
                      Some g \<Rightarrow> js_times (parseFloat g) (Finite 1000)
                    | None \<Rightarrow> (case numMatch l of Some g \<Rightarrow> parseFloat g | None \<Rightarrow> Finite 0)))"
      unfolding l_def by (rule parseCTC_cases [OF ne, unfolded Let_def])
    have c0: "code CHR '','' \<notin> set l" "rupee \<notin> set l" "code CHR ''$'' \<notin> set l"
      unfolding l_def using strip_ctc_set [of "toLowerCase e s"] by simp_all
    have c0': "\<forall>c. c \<noteq> code CHR '','' \<and> c \<noteq> rupee \<and> c \<noteq> code CHR ''$'' \<longrightarrow>
               count_list l c = count_list (toLowerCase e s) c"
      unfolding l_def by (simp add: strip_ctc_keeps)
    have c1: "\<forall>g. lakhMatch l = Some g \<longrightarrow>
               parseCTC e s = js_times (parseFloat g) (Finite 100000) \<and>
               (\<exists>pre ws post. l = pre @ g @ ws @ code CHR ''l'' # post \<and> (\<forall>c\<in>set ws. is_space c))"
      using lakhMatch_sound by (simp add: r)
    have c2: "\<forall>g. lakhMatch l = None \<and> kMatch l = Some g \<longrightarrow>
               parseCTC e s = js_times (parseFloat g) (Finite 1000) \<and>
               (\<exists>pre ws post. l = pre @ g @ ws @ code CHR ''k'' # post \<and> (\<forall>c\<in>set ws. is_space c))"
      using kMatch_sound by (simp add: r)
    have c3: "\<forall>g. lakhMatch l = None \<and> kMatch l = None \<and> numMatch l = Some g \<longrightarrow>
               parseCTC e s = parseFloat g \<and>
               (\<exists>pre post. l = pre @ g @ post \<and> (\<forall>c\<in>set pre. \<not> is_digit c) \<and> g \<noteq> [] \<and> is_digit (hd g))"
      using numMatch_first by (simp add: r)
    have c4: "lakhMatch l = None \<and> kMatch l = None \<and> numMatch l = None \<longrightarrow>
               parseCTC e s = Finite 0 \<and> (\<forall>c\<in>set l. \<not> is_digit c)"
      using numMatch_None [of l] by (simp add: r)
    from c0 c0' c1 c2 c3 c4 show "(let l = strip_ctc (toLowerCase e s) in
           code CHR '','' \<notin> set l \<and> rupee \<notin> set l \<and> code CHR ''$'' \<notin> set l
         \<and> (\<forall>c. c \<noteq> code CHR '','' \<and> c \<noteq> rupee \<and> c \<noteq> code CHR ''$'' \<longrightarrow>
               count_list l c = count_list (toLowerCase e s) c)
         \<and> (\<forall>g. lakhMatch l = Some g \<longrightarrow>
               parseCTC e s = js_times (parseFloat g) (Finite 100000) \<and>
               (\<exists>pre ws post. l = pre @ g @ ws @ code CHR ''l'' # post \<and> (\<forall>c\<in>set ws. is_space c)))
         \<and> (\<forall>g. lakhMatch l = None \<and> kMatch l = Some g \<longrightarrow>
               parseCTC e s = js_times (parseFloat g) (Finite 1000) \<and>
               (\<exists>pre ws post. l = pre @ g @ ws @ code CHR ''k'' # post \<and> (\<forall>c\<in>set ws. is_space c)))
         \<and> (\<forall>g. lakhMatch l = None \<and> kMatch l = None \<and> numMatch l = Some g \<longrightarrow>
               parseCTC e s = parseFloat g \<and>
               (\<exists>pre post. l = pre @ g @ post \<and> (\<forall>c\<in>set pre. \<not> is_digit c) \<and> g \<noteq> [] \<and> is_digit (hd g)))
         \<and> (lakhMatch l = None \<and> kMatch l = None \<and> numMatch l = None \<longrightarrow>
               parseCTC e s = Finite 0 \<and> (\<forall>c\<in>set l. \<not> is_digit c)))"
      unfolding Let_def l_def [symmetric] by (intro conjI)
  qed
  have whole: "(\<forall>g n k. decimal_value g = of_int n \<and> 0 \<le> n \<and> 0 < k \<and> n * k \<le> 2 ^ 53 \<longrightarrow>
         js_times (parseFloat g) (Finite (of_int k)) = Finite (of_int (n * k)))"
    using whole_times by blast
  have examples: "(lowers_plain_text e \<longrightarrow>
         parseCTC e (utf16 ''12 LPA'') = Finite 1200000
       \<and> parseCTC e (utf16 ''50k'') = Finite 50000
       \<and> parseCTC e (utf16 ''$80,000'') = Finite 80000
       \<and> parseCTC e (rupee # utf16 ''12,50,000'') = Finite 1250000
       \<and> parseCTC e (utf16 ''5 and 12 lpa'') = Finite 1200000
       \<and> parseCTC e (utf16 ''7 or 2.5 lakh'') = Finite 250000
       \<and> parseCTC e (utf16 ''1.1 lpa'') = Finite (7559142440960001 / 68719476736))"
    using ctc_12lpa ctc_50k ctc_80000 ctc_rupee ctc_lakh_first ctc_lakh_bare ctc_1_1lpa
    by (intro impI conjI)
  from parseCTC_nonneg [of e s] cases whole parseCTC_empty [of e] examples
  show ?thesis by (intro conjI)
qed

text \<open>Claim C8 in the sample environment at \<open>7 or 2.5 lakh\<close>: the lakh match wins
  over the earlier bare 7; and at a sum in rupees, whose sign and separators are
  removed.\<close>

theorem parseCTC_precedence_witness:
  "utf16 ''7 or 2.5 lakh'' \<noteq> []
   \<and> lowers_plain_text sample_env
   \<and> lakhMatch (strip_ctc (toLowerCase sample_env (utf16 ''7 or 2.5 lakh''))) = Some (utf16 ''2.5'')
   \<and> numMatch (strip_ctc (toLowerCase sample_env (utf16 ''7 or 2.5 lakh''))) = Some (utf16 ''7'')
   \<and> parseCTC sample_env (utf16 ''7 or 2.5 lakh'') = Finite 250000
   \<and> parseCTC sample_env (rupee # utf16 ''12,50,000'') = Finite 1250000
   \<and> parseCTC sample_env (utf16 ''1.1 lpa'') = Finite (7559142440960001 / 68719476736)"
proof -
  have p: "list_all plain (utf16 ''7 or 2.5 lakh'')" by (simp add: text_eval)
  have l: "strip_ctc (toLowerCase sample_env (utf16 ''7 or 2.5 lakh'')) = utf16 ''7 or 2.5 lakh''"
    unfolding lower_eval [OF sample_lowers p] by (simp add: text_eval)
  have a: "lakhMatch (utf16 ''7 or 2.5 lakh'') = Some (utf16 ''2.5'')" by (simp add: scan_eval)
  have n: "numMatch (utf16 ''7 or 2.5 lakh'') = Some (utf16 ''7'')" by (simp add: scan_eval)
  have ne: "utf16 ''7 or 2.5 lakh'' \<noteq> []" by (simp add: utf16_def)
  note T = parseCTC_precedence [of sample_env "utf16 ''7 or 2.5 lakh''"]
  from T ne have "\<forall>g. lakhMatch (utf16 ''7 or 2.5 lakh'') = Some g \<longrightarrow>
      parseCTC sample_env (utf16 ''7 or 2.5 lakh'') = js_times (parseFloat g) (Finite 100000)"
    by (simp add: Let_def l)
  with a have v: "parseCTC sample_env (utf16 ''7 or 2.5 lakh'') = Finite 250000"
    by (simp add: lakh_2_5)
  from T sample_lowers
  have x: "parseCTC sample_env (rupee # utf16 ''12,50,000'') = Finite 1250000"
    and u: "parseCTC sample_env (utf16 ''1.1 lpa'') = Finite (7559142440960001 / 68719476736)"
    by (elim conjE, simp)+
  from ne sample_lowers a n v x u show ?thesis by (simp add: l)
qed

subsection \<open>Rendering and progress\<close>

lemma valid_pages_Cons:
  "valid_pages pdf (p # ps) =
     (if p > int (numPages pdf) \<or> p < 1 then valid_pages pdf ps else p # valid_pages pdf ps)"
  by (auto simp: valid_pages_def)

lemma render_pages_ok:
  "no_page_error pdf ps \<Longrightarrow>
   render_pages pdf n ps st =
     (st\<lparr>processedPages := processedPages st + length (rendered_canvases pdf ps),
         reported := reported st @
                       progress_reports n (processedPages st) (length (rendered_canvases pdf ps)),
         renderedPages := renderedPages st @ rendered_canvases pdf ps,
         totalHeight := totalHeight st + sum_list (map height (rendered_canvases pdf ps)),
         maxWidth := fold max (map width (rendered_canvases pdf ps)) (maxWidth st)\<rparr>, None)"
proof (induction ps arbitrary: st)
  case Nil
  then show ?case by (simp add: rendered_canvases_def valid_pages_def)
next
  case (Cons p ps)
  show ?case
  proof (cases "p > int (numPages pdf) \<or> p < 1")
    case True
    then have v: "valid_pages pdf (p # ps) = valid_pages pdf ps" by (simp add: valid_pages_Cons)
    then have "no_page_error pdf ps" "rendered_canvases pdf (p # ps) = rendered_canvases pdf ps"
      using Cons.prems by (simp_all add: no_page_error_def rendered_canvases_def)
    with Cons.IH [of st] True show ?thesis by simp
  next
    case False
    then have v: "valid_pages pdf (p # ps) = p # valid_pages pdf ps" by (simp add: valid_pages_Cons)
    with Cons.prems have ok: "no_page_error pdf ps" and np: "\<And>err. getPage pdf p \<noteq> PageError err"
      by (auto simp: no_page_error_def split: page_result.splits)
    show ?thesis
    proof (cases "getPage pdf p")
      case (Rendered cv)
      have rc: "rendered_canvases pdf (p # ps) = cv # rendered_canvases pdf ps"
        by (simp add: rendered_canvases_def v Rendered)
      let ?st' = "st\<lparr>processedPages := processedPages st + 1,
                      reported := reported st @ [page_progress n (processedPages st + 1)],
                      renderedPages := renderedPages st @ [cv],
                      totalHeight := totalHeight st + height cv,
                      maxWidth := max (maxWidth st) (width cv)\<rparr>"
      have "render_pages pdf n (p # ps) st = render_pages pdf n ps ?st'"
        using False Rendered by (simp add: Let_def page_progress_def)
      then show ?thesis
        unfolding rc using Cons.IH [OF ok, of ?st'] by (simp add: max.commute)
    next
      case NoContext
      have rc: "rendered_canvases pdf (p # ps) = rendered_canvases pdf ps"
        by (simp add: rendered_canvases_def v NoContext)
      have "render_pages pdf n (p # ps) st = render_pages pdf n ps st"
        using False NoContext by simp
      with Cons.IH [OF ok, of st] rc show ?thesis by simp
    next
      case (PageError err)
      with np [of err] show ?thesis by blast
    qed
  qed
qed

lemma fold_max_Max:
  fixes ws :: "nat list"
  assumes "ws \<noteq> []"
  shows "fold max ws 0 = Max (set ws)"
proof -
  have "Max (set (0 # ws)) = fold max ws 0" by (rule Max.set_eq_fold)
  moreover have "Max (set (0 # ws)) = Max (set ws)" using assms by simp
  ultimately show ?thesis by simp
qed

lemma draw_pages_fst: "map fst (draw_pages cvs y) = cvs"
  by (induction cvs arbitrary: y) simp_all

lemma draw_pages_length: "length (draw_pages cvs y) = length cvs"
  by (induction cvs arbitrary: y) simp_all

lemma draw_pages_snd:
  "i < length cvs \<Longrightarrow> snd (draw_pages cvs y ! i) = y + sum_list (map height (take i cvs))"
proof (induction cvs arbitrary: y i)
  case Nil
  then show ?case by simp
next
  case (Cons cv cvs)
  then show ?case by (cases i) simp_all
qed


lemma round_half_up_mono: "x \<le> y \<Longrightarrow> round_half_up x \<le> round_half_up y"
  by (simp add: round_half_up_def floor_mono)

lemma round64_one: "round64 1 = 1"
  using round64_int [of 1] by simp

lemma round64_75: "round64 75 = 75"
  using round64_int [of 75] by simp

lemma page_progress_mono: "j \<le> k \<Longrightarrow> page_progress n j \<le> page_progress n k"
proof -
  assume jk: "j \<le> k"
  have q: "(of_nat j :: rat) / of_nat n \<le> of_nat k / of_nat n"
    using jk by (intro divide_right_mono) simp_all
  have "round64 (of_nat j / of_nat n) \<le> round64 (of_nat k / of_nat n)"
    using q by (intro round64_mono) simp_all
  then have "round64 (of_nat j / of_nat n) * 75 \<le> round64 (of_nat k / of_nat n) * 75" by simp
  moreover have "0 \<le> round64 (of_nat j / of_nat n) * 75"
    using round64_nonneg [of "of_nat j / of_nat n"] by simp
  ultimately have "round64 (round64 (of_nat j / of_nat n) * 75) \<le> round64 (round64 (of_nat k / of_nat n) * 75)"
    by (intro round64_mono)
  then show ?thesis unfolding page_progress_def by (intro add_left_mono round_half_up_mono)
qed

lemma page_progress_lower: "5 \<le> page_progress n k"
proof -
  have "0 \<le> round64 (of_nat k / of_nat n) * 75"
    using round64_nonneg [of "of_nat k / of_nat n"] by simp
  then have "0 \<le> round64 (round64 (of_nat k / of_nat n) * 75)" by (rule round64_nonneg)
  then show ?thesis unfolding page_progress_def using round_half_up_nonneg by simp
qed

lemma page_progress_upper:
  assumes "k \<le> n"
  shows "page_progress n k \<le> 80"
proof -
  have "(of_nat k :: rat) / of_nat n \<le> 1"
    using assms by (cases "n = 0") (simp_all add: divide_le_eq_1)
  then have "round64 (of_nat k / of_nat n) \<le> round64 1" by (intro round64_mono) simp_all
  then have a: "round64 (of_nat k / of_nat n) * 75 \<le> 75" by (simp add: round64_one)
  have "0 \<le> round64 (of_nat k / of_nat n) * 75"
    using round64_nonneg [of "of_nat k / of_nat n"] by simp
  then have "round64 (round64 (of_nat k / of_nat n) * 75) \<le> round64 75" using a by (rule round64_mono)
  then have "round64 (round64 (of_nat k / of_nat n) * 75) + 1 / 2 < 76" by (simp add: round64_75)
  then have "\<lfloor>round64 (round64 (of_nat k / of_nat n) * 75) + 1 / 2\<rfloor> < 76" by (simp add: floor_less_iff)
  then show ?thesis by (simp add: page_progress_def round_half_up_def)
qed

lemma progress_reports_set:
  "set (progress_reports n k m) = page_progress n ` {Suc k..k + m}"
proof (induction m arbitrary: k)
  case 0
  then show ?case by simp
next
  case (Suc m)
  have "{Suc k..k + Suc m} = insert (Suc k) {Suc (Suc k)..Suc k + m}" by auto
  with Suc [of "Suc k"] show ?case by simp
qed

lemma progress_reports_sorted: "sorted (progress_reports n k m)"
proof (induction m arbitrary: k)
  case 0
  then show ?case by simp
next
  case (Suc m)
  have "\<forall>x\<in>set (progress_reports n (Suc k) m). page_progress n (Suc k) \<le> x"
    by (auto simp: progress_reports_set intro: page_progress_mono)
  with Suc [of "Suc k"] show ?case by simp
qed

lemma progress_reports_bounds:
  assumes "k + m \<le> n" "x \<in> set (progress_reports n k m)"
  shows "5 \<le> x \<and> x \<le> 80"
proof -
  from assms(2) obtain j where "j \<le> k + m" "x = page_progress n j"
    by (auto simp: progress_reports_set)
  with assms(1) show ?thesis by (simp add: page_progress_lower page_progress_upper)
qed

lemma progress_reports_append:
  "progress_reports n k (a + b) = progress_reports n k a @ progress_reports n (k + a) b"
  by (induction a arbitrary: k) simp_all

lemma render_pages_reported:
  "\<exists>m\<le>length ps.
     reported (fst (render_pages pdf n ps st)) =
       reported st @ progress_reports n (processedPages st) m"
proof (induction ps arbitrary: st)
  case Nil
  have "reported st = reported st @ progress_reports n (processedPages st) 0" by simp
  then show ?case by auto
next
  case (Cons p ps)
  show ?case
  proof (cases "p > int (numPages pdf) \<or> p < 1")
    case True
    from Cons [of st] obtain m where "m \<le> length ps"
      "reported (fst (render_pages pdf n ps st)) = reported st @ progress_reports n (processedPages st) m"
      by blast
    with True have "m \<le> length (p # ps) \<and>
      reported (fst (render_pages pdf n (p # ps) st)) = reported st @ progress_reports n (processedPages st) m"
      by simp
    then show ?thesis by blast
  next
    case False
    show ?thesis
    proof (cases "getPage pdf p")
      case (Rendered cv)
      let ?st' = "st\<lparr>processedPages := processedPages st + 1,
                      reported := reported st @ [page_progress n (processedPages st + 1)],
                      renderedPages := renderedPages st @ [cv],
                      totalHeight := totalHeight st + height cv,
                      maxWidth := max (maxWidth st) (width cv)\<rparr>"
      have r: "render_pages pdf n (p # ps) st = render_pages pdf n ps ?st'"
        using False Rendered by (simp add: Let_def page_progress_def)
      from Cons [of ?st'] obtain m where m: "m \<le> length ps"
        "reported (fst (render_pages pdf n ps ?st')) = reported ?st' @ progress_reports n (processedPages ?st') m"
        by blast
      have "Suc m \<le> length (p # ps) \<and>
        reported (fst (render_pages pdf n (p # ps) st)) =
          reported st @ progress_reports n (processedPages st) (Suc m)"
        unfolding r using m by simp
      then show ?thesis by blast
    next
      case NoContext
      from Cons [of st] obtain m where "m \<le> length ps"
        "reported (fst (render_pages pdf n ps st)) = reported st @ progress_reports n (processedPages st) m"
        by blast
      with False NoContext have "m \<le> length (p # ps) \<and>
        reported (fst (render_pages pdf n (p # ps) st)) = reported st @ progress_reports n (processedPages st) m"
        by simp
      then show ?thesis by blast
    next
      case (PageError err)
      with False have "0 \<le> length (p # ps) \<and>
        reported (fst (render_pages pdf n (p # ps) st)) = reported st @ progress_reports n (processedPages st) 0"
        by simp
      then show ?thesis by blast
    qed
  qed
qed

lemma pdf_not_image: "\<not> startsWith ''application/pdf'' ''image/''"
  by (simp add: startsWith_def)

text \<open>The reports of one call of fileToGenerativePart: 5, values between 5 and 80 in
  ascending order, and 80 at the end exactly when a part is returned.\<close>

lemma fileToGenerativePart_reports:
  "\<exists>mid. sorted mid \<and> (\<forall>p\<in>set mid. 5 \<le> p \<and> p \<le> 80) \<and>
     fst (fileToGenerativePart e f pages) =
       (case snd (fileToGenerativePart e f pages) of Inl err \<Rightarrow> 5 # mid | Inr part \<Rightarrow> 5 # mid @ [80])"
proof -
  have triv: "\<And>r. r = [5] \<Longrightarrow> \<exists>mid. sorted mid \<and> (\<forall>p\<in>set mid. 5 \<le> p \<and> p \<le> 80) \<and> r = 5 # mid"
    "\<And>r. r = [5, 80] \<Longrightarrow> \<exists>mid. sorted mid \<and> (\<forall>p\<in>set mid. 5 \<le> p \<and> p \<le> 80) \<and> r = 5 # mid @ [80]"
    by (intro exI [of _ "[]"]; simp)+
  show ?thesis
  proof (cases "\<not> startsWith (type f) ''image/'' \<and> type f = ''application/pdf'' \<and> (\<exists>pdf. getDocument e f = Inr pdf)")
    case False
    then show ?thesis
      by (auto simp: fileToGenerativePart_def split: sum.splits intro!: exI [of _ "[]"])
  next
    case True
    then obtain pdf where pdf: "getDocument e f = Inr pdf" by blast
    define toParse where "toParse = pagesToParse pdf pages"
    define res where "res = render_pages pdf (length toParse) toParse render_init"
    from render_pages_reported [of toParse pdf "length toParse" render_init]
    obtain m where m: "m \<le> length toParse"
      "reported (fst res) = progress_reports (length toParse) 0 m"
      by (auto simp: res_def render_init_def)
    let ?mid = "reported (fst res)"
    have s: "sorted ?mid" by (simp add: m(2) progress_reports_sorted)
    have b: "\<forall>p\<in>set ?mid. 5 \<le> p \<and> p \<le> 80"
      using progress_reports_bounds [of 0 m "length toParse"] m by simp
    have "fst (fileToGenerativePart e f pages) =
       (case snd (fileToGenerativePart e f pages) of Inl err \<Rightarrow> 5 # ?mid | Inr part \<Rightarrow> 5 # ?mid @ [80])"
      using True pdf
      by (simp add: fileToGenerativePart_def Let_def toParse_def [symmetric] res_def [symmetric]
            pdf_not_image split: prod.splits option.splits)
    with s b show ?thesis by blast
  qed
qed

subsection \<open>The PDF branch, the progress reports and the empty selection\<close>

lemma pdf_payload:
  assumes "type f = ''application/pdf''" "getDocument e f = Inr pdf"
    and "no_page_error pdf (pagesToParse pdf pages)"
  shows "snd (fileToGenerativePart e f pages) =
     (let cvs = rendered_canvases pdf (pagesToParse pdf pages)
      in if cvs = [] then Inl (Error ''Could not render any PDF pages.'')
         else if getContext e (c_width (stitch cvs)) (c_height (stitch cvs))
         then Inr (InlineData ''image/jpeg'' (split_comma_1 (toDataURL e (stitch cvs))))
         else Inl (Error ''Could not create final canvas context''))"
proof -
  define toParse where "toParse = pagesToParse pdf pages"
  have r: "render_pages pdf (length toParse) toParse render_init =
     (\<lparr>renderedPages = rendered_canvases pdf toParse,
       totalHeight = sum_list (map height (rendered_canvases pdf toParse)),
       maxWidth = fold max (map width (rendered_canvases pdf toParse)) 0,
       processedPages = length (rendered_canvases pdf toParse),
       reported = progress_reports (length toParse) 0 (length (rendered_canvases pdf toParse))\<rparr>, None)"
    using render_pages_ok [OF assms(3), of "length toParse" render_init]
    by (simp add: toParse_def render_init_def)
  show ?thesis
    using assms(1,2)
    by (simp add: fileToGenerativePart_def pdf_not_image Let_def toParse_def [symmetric] r stitch_def)
qed

lemma stitch_width: "cvs \<noteq> [] \<Longrightarrow> c_width (stitch cvs) = Max (set (map width cvs))"
  using fold_max_Max [of "map width cvs"] by (simp add: stitch_def)

lemma stitch_offsets:
  "i < length cvs \<Longrightarrow> snd (drawImage (stitch cvs) ! i) = sum_list (map height (take i cvs))"
  by (simp add: stitch_def draw_pages_snd)

lemma rendered_canvases_valid:
  "rendered_canvases pdf (valid_pages pdf ps) = rendered_canvases pdf ps"
  by (simp add: rendered_canvases_def valid_pages_def)

lemma rendered_all_list:
  "\<forall>p\<in>set xs. \<exists>cv. g p = Rendered cv \<Longrightarrow>
   map Rendered (concat (map (\<lambda>p. case g p of Rendered cv \<Rightarrow> [cv] | _ \<Rightarrow> []) xs)) = map g xs"
  by (induction xs) auto

lemma rendered_canvases_all:
  "\<forall>p\<in>set (valid_pages pdf ps). \<exists>cv. getPage pdf p = Rendered cv \<Longrightarrow>
   map Rendered (rendered_canvases pdf ps) = map (getPage pdf) (valid_pages pdf ps)"
  unfolding rendered_canvases_def by (rule rendered_all_list)

lemma page_errors_Cons:
  "page_errors pdf (p # ps) =
     (if p > int (numPages pdf) \<or> p < 1 then page_errors pdf ps
      else (case getPage pdf p of PageError err \<Rightarrow> [err] | _ \<Rightarrow> []) @ page_errors pdf ps)"
  by (auto simp: page_errors_def valid_pages_def)

lemma render_pages_error:
  "snd (render_pages pdf n ps st) = (case page_errors pdf ps of [] \<Rightarrow> None | err # _ \<Rightarrow> Some err)"
proof (induction ps arbitrary: st)
  case Nil
  then show ?case by (simp add: page_errors_def valid_pages_def)
next
  case (Cons p ps)
  show ?case
  proof (cases "p > int (numPages pdf) \<or> p < 1")
    case True
    then show ?thesis using Cons [of st] by (simp add: page_errors_Cons)
  next
    case False
    then show ?thesis
      using Cons by (cases "getPage pdf p") (simp_all add: page_errors_Cons Let_def)
  qed
qed

lemma no_page_error_iff: "no_page_error pdf ps \<longleftrightarrow> page_errors pdf ps = []"
  by (induction ps)
     (auto simp: no_page_error_def page_errors_def valid_pages_def split: page_result.splits)

lemma page_errors_valid: "page_errors pdf (valid_pages pdf ps) = page_errors pdf ps"
  by (simp add: page_errors_def valid_pages_def)

lemma pdf_rejected:
  assumes "type f = ''application/pdf''" "getDocument e f = Inr pdf"
    and "page_errors pdf (pagesToParse pdf pages) = err # errs"
  shows "snd (fileToGenerativePart e f pages) = Inl err"
proof -
  define toParse where "toParse = pagesToParse pdf pages"
  obtain st failure where r: "render_pages pdf (length toParse) toParse render_init = (st, failure)"
    by (cases "render_pages pdf (length toParse) toParse render_init")
  have "snd (render_pages pdf (length toParse) toParse render_init) = Some err"
    unfolding render_pages_error toParse_def assms(3) by simp
  then have "failure = Some err" by (simp add: r)
  then show ?thesis
    using assms(1,2)
    by (simp add: fileToGenerativePart_def pdf_not_image Let_def toParse_def [symmetric] r)
qed

lemma pdf_unopened:
  assumes "type f = ''application/pdf''" "getDocument e f = Inl err"
  shows "fileToGenerativePart e f pages = ([5], Inl err)"
  using assms by (simp add: fileToGenerativePart_def pdf_not_image)

lemma pdf_result:
  assumes "type f = ''application/pdf''" "getDocument e f = Inr pdf"
  shows "snd (fileToGenerativePart e f pages) =
     (let sel = pagesToParse pdf pages; cvs = rendered_canvases pdf sel
      in case page_errors pdf sel of
           err # _ \<Rightarrow> Inl err
         | [] \<Rightarrow>
             if cvs = [] then Inl (Error ''Could not render any PDF pages.'')
             else if getContext e (c_width (stitch cvs)) (c_height (stitch cvs))
             then Inr (InlineData ''image/jpeg'' (split_comma_1 (toDataURL e (stitch cvs))))
             else Inl (Error ''Could not create final canvas context''))"
proof (cases "page_errors pdf (pagesToParse pdf pages)")
  case Nil
  then have "no_page_error pdf (pagesToParse pdf pages)" by (simp add: no_page_error_iff)
  from pdf_payload [OF assms this] show ?thesis by (simp add: Let_def Nil)
next
  case (Cons err errs)
  from pdf_rejected [OF assms Cons] show ?thesis by (simp add: Let_def Cons)
qed

lemma rendered_canvases_none: "valid_pages pdf ps = [] \<Longrightarrow> rendered_canvases pdf ps = [] \<and> page_errors pdf ps = []"
  by (simp add: rendered_canvases_def page_errors_def)

text \<open>
  Claim C4, amended. For a PDF file and a page selection, the payload is determined by the
  selected page numbers within the document, in the order of the selection: numbers out
  of range are skipped. When the document cannot be opened, or \<open>getPage\<close> or
  \<open>render\<close> rejects for one of these pages, rendering fails with that rejection, the
  first one in the order of the selection, whatever has been rendered before. Otherwise
  the pages that have a 2d context are rendered. When none is, rendering fails with the
  error of the zero pages. When the stitched canvas has no 2d context, rendering fails
  with the error of the final canvas. In every other case the result is one JPEG of the
  stitched canvas, as wide as the widest rendered page and as high as the sum of their
  heights, the pages drawn in the order of the selection, each below the one before, on a
  white background.
\<close>

theorem pdf_composite:
  assumes "type f = ''application/pdf''"
  shows "(\<forall>err. getDocument e f = Inl err \<longrightarrow> snd (fileToGenerativePart e f pages) = Inl err)
    \<and> (\<forall>pdf. getDocument e f = Inr pdf \<longrightarrow>
          (let sel = pagesToParse pdf pages; cvs = rendered_canvases pdf sel in
            snd (fileToGenerativePart e f pages) =
              (case page_errors pdf sel of
                 err # _ \<Rightarrow> Inl err
               | [] \<Rightarrow>
                   if cvs = [] then Inl (Error ''Could not render any PDF pages.'')
                   else if getContext e (c_width (stitch cvs)) (c_height (stitch cvs))
                   then Inr (InlineData ''image/jpeg'' (split_comma_1 (toDataURL e (stitch cvs))))
                   else Inl (Error ''Could not create final canvas context''))
          \<and> (cvs \<noteq> [] \<longrightarrow> c_width (stitch cvs) = Max (set (map width cvs)))
          \<and> c_height (stitch cvs) = sum_list (map height cvs)
          \<and> fillStyle (stitch cvs) = ''white''
          \<and> map fst (drawImage (stitch cvs)) = cvs
          \<and> (\<forall>i<length cvs. snd (drawImage (stitch cvs) ! i) = sum_list (map height (take i cvs)))
          \<and> cvs = rendered_canvases pdf (valid_pages pdf sel)
          \<and> page_errors pdf sel = page_errors pdf (valid_pages pdf sel)
          \<and> (valid_pages pdf sel = [] \<longrightarrow>
                snd (fileToGenerativePart e f pages) = Inl (Error ''Could not render any PDF pages.''))
          \<and> ((\<forall>p\<in>set (valid_pages pdf sel). \<exists>cv. getPage pdf p = Rendered cv) \<longrightarrow>
                map Rendered cvs = map (getPage pdf) (valid_pages pdf sel) \<and> page_errors pdf sel = [])))"
proof -
  have a: "\<forall>err. getDocument e f = Inl err \<longrightarrow> snd (fileToGenerativePart e f pages) = Inl err"
    using pdf_unopened [OF assms] by simp
  have b: "\<forall>pdf. getDocument e f = Inr pdf \<longrightarrow>
          (let sel = pagesToParse pdf pages; cvs = rendered_canvases pdf sel in
            snd (fileToGenerativePart e f pages) =
              (case page_errors pdf sel of
                 err # _ \<Rightarrow> Inl err
               | [] \<Rightarrow>
                   if cvs = [] then Inl (Error ''Could not render any PDF pages.'')
                   else if getContext e (c_width (stitch cvs)) (c_height (stitch cvs))
                   then Inr (InlineData ''image/jpeg'' (split_comma_1 (toDataURL e (stitch cvs))))
                   else Inl (Error ''Could not create final canvas context''))
          \<and> (cvs \<noteq> [] \<longrightarrow> c_width (stitch cvs) = Max (set (map width cvs)))
          \<and> c_height (stitch cvs) = sum_list (map height cvs)
          \<and> fillStyle (stitch cvs) = ''white''
          \<and> map fst (drawImage (stitch cvs)) = cvs
          \<and> (\<forall>i<length cvs. snd (drawImage (stitch cvs) ! i) = sum_list (map height (take i cvs)))
          \<and> cvs = rendered_canvases pdf (valid_pages pdf sel)
          \<and> page_errors pdf sel = page_errors pdf (valid_pages pdf sel)
          \<and> (valid_pages pdf sel = [] \<longrightarrow>
                snd (fileToGenerativePart e f pages) = Inl (Error ''Could not render any PDF pages.''))
          \<and> ((\<forall>p\<in>set (valid_pages pdf sel). \<exists>cv. getPage pdf p = Rendered cv) \<longrightarrow>
                map Rendered cvs = map (getPage pdf) (valid_pages pdf sel) \<and> page_errors pdf sel = []))"
  proof (intro allI impI)
    fix pdf
    assume d: "getDocument e f = Inr pdf"
    define sel where "sel = pagesToParse pdf pages"
    define cvs where "cvs = rendered_canvases pdf sel"
    note r = pdf_result [OF assms d, of pages, unfolded Let_def, folded sel_def, folded cvs_def]
    have w: "cvs \<noteq> [] \<longrightarrow> c_width (stitch cvs) = Max (set (map width cvs))"
      using stitch_width by blast
    have h: "c_height (stitch cvs) = sum_list (map height cvs)" by (simp add: stitch_def)
    have fs: "fillStyle (stitch cvs) = ''white''" by (simp add: stitch_def)
    have dr: "map fst (drawImage (stitch cvs)) = cvs" by (simp add: stitch_def draw_pages_fst)
    have off: "\<forall>i<length cvs. snd (drawImage (stitch cvs) ! i) = sum_list (map height (take i cvs))"
      using stitch_offsets by blast
    have v: "cvs = rendered_canvases pdf (valid_pages pdf sel)"
      by (simp add: cvs_def rendered_canvases_valid)
    have pe: "page_errors pdf sel = page_errors pdf (valid_pages pdf sel)"
      by (simp add: page_errors_valid)
    have z: "valid_pages pdf sel = [] \<longrightarrow>
                snd (fileToGenerativePart e f pages) = Inl (Error ''Could not render any PDF pages.'')"
      using rendered_canvases_none [of pdf sel] by (simp add: r cvs_def)
    have all: "(\<forall>p\<in>set (valid_pages pdf sel). \<exists>cv. getPage pdf p = Rendered cv) \<longrightarrow>
                map Rendered cvs = map (getPage pdf) (valid_pages pdf sel) \<and> page_errors pdf sel = []"
    proof
      assume x: "\<forall>p\<in>set (valid_pages pdf sel). \<exists>cv. getPage pdf p = Rendered cv"
      then have "map Rendered cvs = map (getPage pdf) (valid_pages pdf sel)"
        unfolding cvs_def by (rule rendered_canvases_all)
      moreover have "page_errors pdf sel = []"
        using x by (auto simp: page_errors_def)
      ultimately show "map Rendered cvs = map (getPage pdf) (valid_pages pdf sel) \<and> page_errors pdf sel = []" ..
    qed
    from r w h fs dr off v pe z all
    show "(let sel = pagesToParse pdf pages; cvs = rendered_canvases pdf sel in
            snd (fileToGenerativePart e f pages) =
              (case page_errors pdf sel of
                 err # _ \<Rightarrow> Inl err
               | [] \<Rightarrow>
                   if cvs = [] then Inl (Error ''Could not render any PDF pages.'')
                   else if getContext e (c_width (stitch cvs)) (c_height (stitch cvs))
                   then Inr (InlineData ''image/jpeg'' (split_comma_1 (toDataURL e (stitch cvs))))
                   else Inl (Error ''Could not create final canvas context''))
          \<and> (cvs \<noteq> [] \<longrightarrow> c_width (stitch cvs) = Max (set (map width cvs)))
          \<and> c_height (stitch cvs) = sum_list (map height cvs)
          \<and> fillStyle (stitch cvs) = ''white''
          \<and> map fst (drawImage (stitch cvs)) = cvs
          \<and> (\<forall>i<length cvs. snd (drawImage (stitch cvs) ! i) = sum_list (map height (take i cvs)))
          \<and> cvs = rendered_canvases pdf (valid_pages pdf sel)
          \<and> page_errors pdf sel = page_errors pdf (valid_pages pdf sel)
          \<and> (valid_pages pdf sel = [] \<longrightarrow>
                snd (fileToGenerativePart e f pages) = Inl (Error ''Could not render any PDF pages.''))
          \<and> ((\<forall>p\<in>set (valid_pages pdf sel). \<exists>cv. getPage pdf p = Rendered cv) \<longrightarrow>
                map Rendered cvs = map (getPage pdf) (valid_pages pdf sel) \<and> page_errors pdf sel = []))"
      unfolding Let_def sel_def [symmetric] cvs_def [symmetric] by (intro conjI)
  qed
  from a b show ?thesis ..
qed

lemma sample_facts:
  "type a_pdf = ''application/pdf''"
  "name a_pdf = ''a.pdf''"
  "getDocument sample_env f = Inr sample_pdf"
  "getContext sample_env w h"
  "generateContent sample_env (ResumeRequest part) = Inr (Some ''{}'')"
  "JSON_parse sample_env ''{}'' = Some (JObj [])"
  "randomUUID sample_env = ''0b7e2c1a-5d64-4f0e-9a3b-1c2d3e4f5a6b''"
  "split_comma_1 (toDataURL sample_env c) = Some ''/9j/4AAQ''"
  by (simp_all add: a_pdf_def sample_env_def split_comma_1_def)

text \<open>
  Claim C4 as stated fails: a selected page within the document does not always give the
  composite. In a document of two pages whose second page cannot be read, the selection
  1, 2 fails with the rejection of the second page, although the first one has been
  rendered; a stitched canvas without a 2d context gives the error of the final canvas;
  and a page without a 2d context is skipped, so that the selection of that page alone
  gives the error of the zero pages.
\<close>

theorem valid_page_without_composite_counterexample:
  "type a_pdf = ''application/pdf''
   \<and> getDocument torn_env a_pdf = Inr torn_pdf
   \<and> valid_pages torn_pdf (pagesToParse torn_pdf (Some [1, 2])) = [1, 2]
   \<and> getPage torn_pdf 1 = Rendered (page_canvas 1)
   \<and> snd (fileToGenerativePart torn_env a_pdf (Some [1, 2])) = Inl (Error ''Invalid PDF structure'')
   \<and> getDocument blind_env a_pdf = Inr sample_pdf
   \<and> valid_pages sample_pdf (pagesToParse sample_pdf (Some [1])) = [1]
   \<and> snd (fileToGenerativePart blind_env a_pdf (Some [1])) =
       Inl (Error ''Could not create final canvas context'')
   \<and> getDocument veiled_env a_pdf = Inr veiled_pdf
   \<and> valid_pages veiled_pdf (pagesToParse veiled_pdf (Some [1])) = [1]
   \<and> snd (fileToGenerativePart veiled_env a_pdf (Some [1])) =
       Inl (Error ''Could not render any PDF pages.'')"
proof -
  have t: "type a_pdf = ''application/pdf''" by (simp add: a_pdf_def)
  have d1: "getDocument torn_env a_pdf = Inr torn_pdf" by (simp add: torn_env_def)
  have d2: "getDocument blind_env a_pdf = Inr sample_pdf" by (simp add: blind_env_def sample_env_def)
  have d3: "getDocument veiled_env a_pdf = Inr veiled_pdf" by (simp add: veiled_env_def)
  have s1: "pagesToParse torn_pdf (Some [1, 2]) = [1, 2]" by (simp add: pagesToParse_def)
  have s2: "pagesToParse sample_pdf (Some [1]) = [1]" by (simp add: pagesToParse_def)
  have s3: "pagesToParse veiled_pdf (Some [1]) = [1]" by (simp add: pagesToParse_def)
  have v1: "valid_pages torn_pdf [1, 2] = [1, 2]" by (simp add: valid_pages_def torn_pdf_def)
  have v2: "valid_pages sample_pdf [1] = [1]" by (simp add: valid_pages_def sample_pdf_def)
  have v3: "valid_pages veiled_pdf [1] = [1]" by (simp add: valid_pages_def veiled_pdf_def)
  have g1: "getPage torn_pdf 1 = Rendered (page_canvas 1)" by (simp add: torn_pdf_def)
  have e1: "page_errors torn_pdf [1, 2] = [Error ''Invalid PDF structure'']"
    by (simp add: page_errors_def v1) (simp add: torn_pdf_def)
  have e2: "page_errors sample_pdf [1] = []" "rendered_canvases sample_pdf [1] = [page_canvas 1]"
    by (simp_all add: page_errors_def rendered_canvases_def v2) (simp_all add: sample_pdf_def)
  have e3: "page_errors veiled_pdf [1] = []" "rendered_canvases veiled_pdf [1] = []"
    by (simp_all add: page_errors_def rendered_canvases_def v3) (simp_all add: veiled_pdf_def)
  have c2: "\<not> getContext blind_env w h" for w h by (simp add: blind_env_def)
  have r1: "snd (fileToGenerativePart torn_env a_pdf (Some [1, 2])) = Inl (Error ''Invalid PDF structure'')"
    by (simp add: pdf_result [OF t d1] s1 e1)
  have r2: "snd (fileToGenerativePart blind_env a_pdf (Some [1])) =
       Inl (Error ''Could not create final canvas context'')"
    by (simp add: pdf_result [OF t d2] s2 e2 c2)
  have r3: "snd (fileToGenerativePart veiled_env a_pdf (Some [1])) =
       Inl (Error ''Could not render any PDF pages.'')"
    by (simp add: pdf_result [OF t d3] s3 e3)
  from t d1 v1 g1 r1 d2 v2 r2 d3 v3 r3 show ?thesis by (simp add: s1 s2 s3)
qed

text \<open>
  Claim C4, amended, on the document of three pages with the selection 1, 99, 3: page 99
  is skipped, and pages 1 and 3 are stitched to the height 1500.
\<close>

theorem pdf_composite_witness:
  "type a_pdf = ''application/pdf''
   \<and> getDocument sample_env a_pdf = Inr sample_pdf
   \<and> valid_pages sample_pdf (pagesToParse sample_pdf (Some [1, 99, 3])) = [1, 3]
   \<and> page_errors sample_pdf (pagesToParse sample_pdf (Some [1, 99, 3])) = []
   \<and> rendered_canvases sample_pdf (pagesToParse sample_pdf (Some [1, 99, 3])) = [page_canvas 1, page_canvas 3]
   \<and> c_height (stitch [page_canvas 1, page_canvas 3]) = 1500
   \<and> c_width (stitch [page_canvas 1, page_canvas 3]) = 600
   \<and> snd (fileToGenerativePart sample_env a_pdf (Some [1, 99, 3])) =
       Inr (InlineData ''image/jpeg'' (Some ''/9j/4AAQ''))"
proof -
  have h1: "type a_pdf = ''application/pdf''" by (simp add: a_pdf_def)
  have h2: "getDocument sample_env a_pdf = Inr sample_pdf" by (simp add: sample_env_def)
  have sel: "pagesToParse sample_pdf (Some [1, 99, 3]) = [1, 99, 3]" by (simp add: pagesToParse_def)
  have v: "valid_pages sample_pdf [1, 99, 3] = [1, 3]" by (simp add: valid_pages_def sample_pdf_def)
  have pe: "page_errors sample_pdf [1, 99, 3] = []"
    by (simp add: page_errors_def v) (simp add: sample_pdf_def)
  have cvs: "rendered_canvases sample_pdf [1, 99, 3] = [page_canvas 1, page_canvas 3]"
    by (simp add: rendered_canvases_def v) (simp add: sample_pdf_def)
  have ht: "c_height (stitch [page_canvas 1, page_canvas 3]) = 1500"
    by (simp add: stitch_def page_canvas_def)
  have wd: "c_width (stitch [page_canvas 1, page_canvas 3]) = 600"
    by (simp add: stitch_def page_canvas_def)
  have url: "split_comma_1 (toDataURL sample_env (stitch [page_canvas 1, page_canvas 3])) = Some ''/9j/4AAQ''"
    by (simp add: sample_env_def split_comma_1_def)
  have ctx: "getContext sample_env w h" for w h by (simp add: sample_env_def)
  have payload: "snd (fileToGenerativePart sample_env a_pdf (Some [1, 99, 3])) =
       Inr (InlineData ''image/jpeg'' (Some ''/9j/4AAQ''))"
    using pdf_composite [OF h1, of sample_env "Some [1, 99, 3]", THEN conjunct2, THEN spec, THEN mp, OF h2,
        unfolded Let_def, THEN conjunct1]
    by (simp add: sel cvs pe url ctx)
  from h1 h2 v pe cvs ht wd payload show ?thesis by (simp add: sel)
qed

lemma parseResume_reports:
  "fst (parseResume e f pages) = fst (fileToGenerativePart e f pages)
   \<or> fst (parseResume e f pages) = fst (fileToGenerativePart e f pages) @ [95]
   \<or> fst (parseResume e f pages) = fst (fileToGenerativePart e f pages) @ [95, 100]"
  by (simp add: parseResume_def split: prod.splits sum.splits option.splits)

lemma parseResume_success_reports:
  "snd (parseResume e f pages) = Inr c \<Longrightarrow>
   fst (parseResume e f pages) = fst (fileToGenerativePart e f pages) @ [95, 100]
   \<and> (\<exists>part. snd (fileToGenerativePart e f pages) = Inr part)"
  by (auto simp: parseResume_def split: prod.splits sum.splits option.splits)

lemma pdf_reports:
  assumes "type f = ''application/pdf''" "getDocument e f = Inr pdf"
  shows "\<exists>m\<le>length (pagesToParse pdf pages).
     fst (fileToGenerativePart e f pages) =
       5 # progress_reports (length (pagesToParse pdf pages)) 0 m
         @ (case snd (fileToGenerativePart e f pages) of Inl err \<Rightarrow> [] | Inr part \<Rightarrow> [80])"
proof -
  define toParse where "toParse = pagesToParse pdf pages"
  define res where "res = render_pages pdf (length toParse) toParse render_init"
  from render_pages_reported [of toParse pdf "length toParse" render_init]
  obtain m where m: "m \<le> length toParse"
    "reported (fst res) = progress_reports (length toParse) 0 m"
    by (auto simp: res_def render_init_def)
  have "fst (fileToGenerativePart e f pages) =
       5 # reported (fst res) @ (case snd (fileToGenerativePart e f pages) of Inl err \<Rightarrow> [] | Inr part \<Rightarrow> [80])"
    using assms
    by (simp add: fileToGenerativePart_def Let_def toParse_def [symmetric] res_def [symmetric]
          pdf_not_image split: prod.splits option.splits)
  with m show ?thesis unfolding toParse_def [symmetric] by auto
qed

text \<open>Page 11 of 30: the quotient is the double 0.36666666666666664, its product with 75
  the double 27.499999999999996, and the report 32.\<close>

lemma page_progress_30_11: "page_progress 30 11 = 32"
proof -
  have a: "round64 (11 / 30) = of_int 6605279453476727 * 2 powi (- 2 - 52)"
    by (rule round64_near) simp_all
  have b: "round64 (6605279453476727 / 18014398509481984 * 75) = of_int 7740561859543039 * 2 powi (4 - 52)"
    by (rule round64_near) simp_all
  have c: "round_half_up (7740561859543039 / 281474976710656) = 27"
    unfolding round_half_up_def by (rule floor_unique) simp_all
  have a': "round64 (11 / 30) = 6605279453476727 / 18014398509481984" unfolding a by simp
  have b': "round64 (6605279453476727 / 18014398509481984 * 75) = 7740561859543039 / 281474976710656"
    unfolding b by simp
  have e: "page_progress 30 11 = 5 + round_half_up (round64 (round64 (11 / 30) * 75))"
    by (simp add: page_progress_def)
  show ?thesis unfolding e a' b' c by simp
qed

lemma round64_half: "round64 (1 / 2) = 1 / 2"
  by (rule round64_exact [where e = "- 1" and n = "2 ^ 52"]) simp_all

lemma round64_75_2: "round64 (75 / 2) = 75 / 2"
  by (rule round64_exact [where e = 5 and n = "75 * 2 ^ 46"]) simp_all

lemma page_progress_2: "page_progress 2 1 = 43" "page_progress 2 2 = 80"
proof -
  have c: "round_half_up (75 / 2) = 38" unfolding round_half_up_def by (simp add: floor_rat_numeral)
  show "page_progress 2 1 = 43" by (simp add: page_progress_def round64_half round64_75_2 c)
  show "page_progress 2 2 = 80"
    by (simp add: page_progress_def round64_one round64_75 round_half_up_def floor_rat_numeral)
qed

text \<open>
  Claim C9. For one file taken through rendering and extraction, the values given to the
  progress callback are integers between 0 and 100 in ascending order; the first one is 5;
  rendering reports values between 5 and 80 and ends with 80 when it returns a part; the
  extraction adds 95 after the call of the model and 100 after the parse of its answer.
  For a PDF file the values between the first 5 and the last 80 are those of the rendered
  pages, 5 plus the rounded 75-fold of the double quotient of the pages rendered so far by
  the pages to parse: 43 after page 1 of 2, and 32 after page 11 of 30.
\<close>

theorem progress_monotone:
  "sorted (fst (parseResume e f pages))
   \<and> (\<forall>p\<in>set (fst (parseResume e f pages)). 0 \<le> p \<and> p \<le> 100)
   \<and> fst (parseResume e f pages) \<noteq> []
   \<and> hd (fst (parseResume e f pages)) = 5
   \<and> sorted (fst (fileToGenerativePart e f pages))
   \<and> (\<forall>p\<in>set (fst (fileToGenerativePart e f pages)). 5 \<le> p \<and> p \<le> 80)
   \<and> hd (fst (fileToGenerativePart e f pages)) = 5
   \<and> (\<forall>part. snd (fileToGenerativePart e f pages) = Inr part \<longrightarrow>
         last (fst (fileToGenerativePart e f pages)) = 80)
   \<and> (fst (parseResume e f pages) = fst (fileToGenerativePart e f pages)
       \<or> fst (parseResume e f pages) = fst (fileToGenerativePart e f pages) @ [95]
       \<or> fst (parseResume e f pages) = fst (fileToGenerativePart e f pages) @ [95, 100])
   \<and> (\<forall>c. snd (parseResume e f pages) = Inr c \<longrightarrow>
         last (fst (fileToGenerativePart e f pages)) = 80
         \<and> fst (parseResume e f pages) = fst (fileToGenerativePart e f pages) @ [95, 100])
   \<and> (\<forall>pdf. type f = ''application/pdf'' \<and> getDocument e f = Inr pdf \<longrightarrow>
         (\<exists>m\<le>length (pagesToParse pdf pages).
            fst (fileToGenerativePart e f pages) =
              5 # progress_reports (length (pagesToParse pdf pages)) 0 m
                @ (case snd (fileToGenerativePart e f pages) of Inl err \<Rightarrow> [] | Inr part \<Rightarrow> [80])))
   \<and> (\<forall>n j k. j \<le> k \<longrightarrow> page_progress n j \<le> page_progress n k)
   \<and> (\<forall>n k. k \<le> n \<longrightarrow> 5 \<le> page_progress n k \<and> page_progress n k \<le> 80)
   \<and> page_progress 2 1 = 43
   \<and> page_progress 30 11 = 32"
proof -
  let ?R = "fst (fileToGenerativePart e f pages)" and ?P = "fst (parseResume e f pages)"
  from fileToGenerativePart_reports [of e f pages] obtain mid where
    mid: "sorted mid" "\<forall>p\<in>set mid. 5 \<le> p \<and> p \<le> 80"
    "?R = (case snd (fileToGenerativePart e f pages) of Inl err \<Rightarrow> 5 # mid | Inr part \<Rightarrow> 5 # mid @ [80])"
    by blast
  have R: "sorted ?R" "\<forall>p\<in>set ?R. 5 \<le> p \<and> p \<le> 80" "hd ?R = 5" "?R \<noteq> []"
    using mid by (auto simp: sorted_append split: sum.splits)
  have last: "\<forall>part. snd (fileToGenerativePart e f pages) = Inr part \<longrightarrow> last ?R = 80"
    using mid(3) by auto
  have P: "?P = ?R \<or> ?P = ?R @ [95] \<or> ?P = ?R @ [95, 100]" by (rule parseResume_reports)
  have sP: "sorted ?P" using P R(1,2) by (elim disjE) (force simp: sorted_append)+
  have bP: "\<forall>p\<in>set ?P. 0 \<le> p \<and> p \<le> 100" using P R(2) by (elim disjE) force+
  have hP: "?P \<noteq> []" "hd ?P = 5" using P R(3,4) by auto
  have ok: "\<forall>c. snd (parseResume e f pages) = Inr c \<longrightarrow> last ?R = 80 \<and> ?P = ?R @ [95, 100]"
    using parseResume_success_reports [of e f pages] last by blast
  have pdf: "\<forall>pdf. type f = ''application/pdf'' \<and> getDocument e f = Inr pdf \<longrightarrow>
         (\<exists>m\<le>length (pagesToParse pdf pages).
            fst (fileToGenerativePart e f pages) =
              5 # progress_reports (length (pagesToParse pdf pages)) 0 m
                @ (case snd (fileToGenerativePart e f pages) of Inl err \<Rightarrow> [] | Inr part \<Rightarrow> [80]))"
    using pdf_reports by blast
  have mono: "\<forall>n j k. j \<le> k \<longrightarrow> page_progress n j \<le> page_progress n k"
    using page_progress_mono by blast
  have bounds: "\<forall>n k. k \<le> n \<longrightarrow> 5 \<le> page_progress n k \<and> page_progress n k \<le> 80"
    using page_progress_lower page_progress_upper by blast
  from sP bP hP R(1,2,3) last P ok pdf mono bounds page_progress_2(1) page_progress_30_11
  show ?thesis by (intro conjI)
qed


lemma empty_object_candidate:
  "finalCandidate sample_env f (JObj []) =
     Inr [(''id'', JStr (utf16 ''0b7e2c1a-5d64-4f0e-9a3b-1c2d3e4f5a6b'')),
          (''totalExperience'', JNum (Finite 0)), (''relevantExperience'', JNum (Finite 0)),
          (''fileName'', JStr (utf16 (name f))), (''isShortlisted'', JBool False)]"
  by (simp add: finalCandidate_def spread_def own_props_def read_member_def get_prop_def
        call_parseExperienceToNumber_def sample_facts)

lemma sample_render:
  "render_pages sample_pdf (Suc (Suc 0)) [1, 3] render_init =
     (\<lparr>renderedPages = [page_canvas 1, page_canvas 3], totalHeight = 1500, maxWidth = 600,
       processedPages = 2, reported = [43, 80]\<rparr>, None)"
proof -
  have v: "valid_pages sample_pdf [1, 3] = [1, 3]" by (simp add: valid_pages_def sample_pdf_def)
  have n: "no_page_error sample_pdf [1, 3]" by (simp add: no_page_error_def v) (simp add: sample_pdf_def)
  have c: "rendered_canvases sample_pdf [1, 3] = [page_canvas 1, page_canvas 3]"
    by (simp add: rendered_canvases_def v) (simp add: sample_pdf_def)
  have c38: "round_half_up (75 / 2) = 38" unfolding round_half_up_def by (simp add: floor_rat_numeral)
  have s1: "page_progress (Suc (Suc 0)) (Suc 0) = 43"
    by (simp add: page_progress_def round64_half round64_75_2 c38)
  have s2: "page_progress (Suc (Suc 0)) (Suc (Suc 0)) = 80"
    by (simp add: page_progress_def round64_one round64_75 round_half_up_def floor_rat_numeral)
  show ?thesis
    unfolding render_pages_ok [OF n] c
    by (simp add: render_init_def s1 s2) (simp add: page_canvas_def)
qed

lemma sample_parse:
  "parseResume sample_env a_pdf (Some [1, 3]) =
     ([5, 43, 80, 80, 95, 100],
      Inr [(''id'', JStr (utf16 ''0b7e2c1a-5d64-4f0e-9a3b-1c2d3e4f5a6b'')),
           (''totalExperience'', JNum (Finite 0)), (''relevantExperience'', JNum (Finite 0)),
           (''fileName'', JStr (utf16 ''a.pdf'')), (''isShortlisted'', JBool False)])"
proof -
  have sel: "pagesToParse sample_pdf (Some [1, 3]) = [1, 3]" by (simp add: pagesToParse_def)
  have r: "fileToGenerativePart sample_env a_pdf (Some [1, 3]) =
      ([5, 43, 80, 80], Inr (InlineData ''image/jpeg'' (Some ''/9j/4AAQ'')))"
    by (simp add: fileToGenerativePart_def sample_facts pdf_not_image sel sample_render
          del: render_pages.simps)
  show ?thesis
    by (simp add: parseResume_def r sample_facts text_or_braces_def empty_object_candidate)
qed

text \<open>
  Claim C9 on the sample document with the selection 1, 3: the reports are
  5, 43, 80, 80, 95, 100.
\<close>

theorem progress_monotone_witness:
  "snd (parseResume sample_env a_pdf (Some [1, 3])) =
     Inr [(''id'', JStr (utf16 ''0b7e2c1a-5d64-4f0e-9a3b-1c2d3e4f5a6b'')),
          (''totalExperience'', JNum (Finite 0)), (''relevantExperience'', JNum (Finite 0)),
          (''fileName'', JStr (utf16 ''a.pdf'')), (''isShortlisted'', JBool False)]
   \<and> type a_pdf = ''application/pdf''
   \<and> getDocument sample_env a_pdf = Inr sample_pdf
   \<and> last (fst (fileToGenerativePart sample_env a_pdf (Some [1, 3]))) = 80
   \<and> fst (parseResume sample_env a_pdf (Some [1, 3])) =
       fst (fileToGenerativePart sample_env a_pdf (Some [1, 3])) @ [95, 100]
   \<and> fst (parseResume sample_env a_pdf (Some [1, 3])) = [5, 43, 80, 80, 95, 100]
   \<and> page_progress 2 1 \<le> page_progress 2 2
   \<and> page_progress 2 2 \<le> 80"
proof -
  note T = progress_monotone [of sample_env a_pdf "Some [1, 3]"]
  from T have m: "\<forall>n j k. j \<le> k \<longrightarrow> page_progress n j \<le> page_progress n k" by (elim conjE)
  from T have b: "\<forall>n k. k \<le> n \<longrightarrow> 5 \<le> page_progress n k \<and> page_progress n k \<le> 80" by (elim conjE)
  have m': "page_progress 2 1 \<le> page_progress 2 2" using m by simp
  have b': "page_progress 2 2 \<le> 80" using b by simp
  from T m' b' show ?thesis by (simp add: sample_parse sample_facts)
qed


lemma pagesToParse_empty: "pagesToParse pdf (Some []) = pagesToParse pdf None"
  by (simp add: pagesToParse_def)

lemma fileToGenerativePart_empty:
  "fileToGenerativePart e f (Some []) = fileToGenerativePart e f None"
  unfolding fileToGenerativePart_def pagesToParse_empty by (rule refl)

lemma parseResume_empty: "parseResume e f (Some []) = parseResume e f None"
  unfolding parseResume_def fileToGenerativePart_empty by (rule refl)

lemma processFile_settle_pages:
  "processFile_settle (t\<lparr>p_pages := ps\<rparr>) outcome s = processFile_settle t outcome s"
  by (simp add: processFile_settle_def)

lemma processFile_empty: "processFile e f (Some []) s = processFile e f None s"
proof -
  have "\<lparr>p_file = f, p_pages = Some [], p_preview = currentFileForPreview s\<rparr> =
        \<lparr>p_file = f, p_pages = None, p_preview = currentFileForPreview s\<rparr>\<lparr>p_pages := Some []\<rparr>"
    by simp
  then show ?thesis
    unfolding processFile_def parseResume_empty Let_def
    by (simp only: processFile_settle_pages)
qed

text \<open>
  Claim C10. For a PDF file, rendering with the empty list of pages is rendering with no
  selection: both take all the pages of the document, the payload and the reports are
  the same, and a preview confirmed with the empty selection hands over the empty list.
  So the empty selection alone never gives the error of the zero pages.
\<close>

theorem empty_selection_is_all_pages:
  "pagesToParse pdf (Some []) = map int [1..<Suc (numPages pdf)]
   \<and> pagesToParse pdf (Some []) = pagesToParse pdf None
   \<and> fileToGenerativePart e f (Some []) = fileToGenerativePart e f None
   \<and> parseResume e f (Some []) = parseResume e f None
   \<and> processFile e f (Some []) s = processFile e f None s
   \<and> (type f = ''application/pdf'' \<longrightarrow> handleConfirm f [] = Some [])
   \<and> (type f = ''application/pdf'' \<and> getDocument e f = Inr pdf
        \<and> no_page_error pdf (map int [1..<Suc (numPages pdf)])
        \<and> rendered_canvases pdf (map int [1..<Suc (numPages pdf)]) \<noteq> [] \<longrightarrow>
        snd (fileToGenerativePart e f (Some [])) \<noteq> Inl (Error ''Could not render any PDF pages.''))"
proof -
  have all: "pagesToParse pdf (Some []) = map int [1..<Suc (numPages pdf)]"
    by (simp add: pagesToParse_def)
  have hc: "type f = ''application/pdf'' \<longrightarrow> handleConfirm f [] = Some []"
    by (simp add: handleConfirm_def)
  have ne: "type f = ''application/pdf'' \<and> getDocument e f = Inr pdf
        \<and> no_page_error pdf (map int [1..<Suc (numPages pdf)])
        \<and> rendered_canvases pdf (map int [1..<Suc (numPages pdf)]) \<noteq> [] \<longrightarrow>
        snd (fileToGenerativePart e f (Some [])) \<noteq> Inl (Error ''Could not render any PDF pages.'')"
  proof
    assume a: "type f = ''application/pdf'' \<and> getDocument e f = Inr pdf
        \<and> no_page_error pdf (map int [1..<Suc (numPages pdf)])
        \<and> rendered_canvases pdf (map int [1..<Suc (numPages pdf)]) \<noteq> []"
    then have "no_page_error pdf (pagesToParse pdf (Some []))" by (simp only: all)
    from pdf_payload [OF _ _ this, of f e] a
    show "snd (fileToGenerativePart e f (Some [])) \<noteq> Inl (Error ''Could not render any PDF pages.'')"
      by (simp add: all Let_def)
  qed
  from all pagesToParse_empty [of pdf] fileToGenerativePart_empty [of e f] parseResume_empty [of e f]
    processFile_empty [of e f s] hc ne
  show ?thesis by (intro conjI)
qed

text \<open>
  Claim C10 on the sample document: the empty selection renders the three pages.
\<close>

theorem empty_selection_is_all_pages_witness:
  "type a_pdf = ''application/pdf''
   \<and> handleConfirm a_pdf [] = Some []
   \<and> getDocument sample_env a_pdf = Inr sample_pdf
   \<and> no_page_error sample_pdf (map int [1..<Suc (numPages sample_pdf)])
   \<and> rendered_canvases sample_pdf (map int [1..<Suc (numPages sample_pdf)])
        = [page_canvas 1, page_canvas 2, page_canvas 3]
   \<and> snd (fileToGenerativePart sample_env a_pdf (Some [])) \<noteq> Inl (Error ''Could not render any PDF pages.'')
   \<and> fileToGenerativePart sample_env a_pdf (Some []) = fileToGenerativePart sample_env a_pdf None"
proof -
  have n: "map int [1..<Suc (numPages sample_pdf)] = [1, 2, 3]"
    by (simp add: sample_pdf_def upt_rec)
  have v: "valid_pages sample_pdf [1, 2, 3] = [1, 2, 3]" by (simp add: valid_pages_def sample_pdf_def)
  have h3: "no_page_error sample_pdf (map int [1..<Suc (numPages sample_pdf)])"
    unfolding n by (simp add: no_page_error_def v) (simp add: sample_pdf_def)
  have cvs: "rendered_canvases sample_pdf (map int [1..<Suc (numPages sample_pdf)])
        = [page_canvas 1, page_canvas 2, page_canvas 3]"
    unfolding n by (simp add: rendered_canvases_def v) (simp add: sample_pdf_def)
  have cne: "rendered_canvases sample_pdf (map int [1..<Suc (numPages sample_pdf)]) \<noteq> []"
    unfolding cvs by simp
  have h1: "type a_pdf = ''application/pdf''" and h2: "getDocument sample_env a_pdf = Inr sample_pdf"
    by (simp_all add: sample_facts)
  note T = empty_selection_is_all_pages [of sample_pdf sample_env a_pdf initial_state]
  from T have eq: "fileToGenerativePart sample_env a_pdf (Some []) = fileToGenerativePart sample_env a_pdf None"
    by blast
  from T h1 have hc: "handleConfirm a_pdf [] = Some []" by blast
  from T h1 h2 h3 cne
  have ne: "snd (fileToGenerativePart sample_env a_pdf (Some [])) \<noteq> Inl (Error ''Could not render any PDF pages.'')"
    by blast
  from h1 hc h2 h3 cvs ne eq show ?thesis by (intro conjI)
qed

subsection \<open>Extraction\<close>

lemma get_prop_set_prop:
  "get_prop (set_prop k v obj) k' = (if k' = k then v else get_prop obj k')"
  by (induction obj) (auto simp: get_prop_def)

lemma get_prop_Cons:
  "get_prop (p # ps) k = (if fst p = k then snd p else get_prop ps k)"
  by (cases p) (simp add: get_prop_def)

lemma get_prop_absent: "k \<notin> fst ` set ps \<Longrightarrow> get_prop ps k = JUndefined"
  by (simp add: get_prop_def map_of_eq_None_iff [THEN iffD2])

lemma get_prop_assign:
  "distinct (map fst ps) \<Longrightarrow>
   get_prop (foldl (\<lambda>acc p. set_prop (fst p) (snd p) acc) obj ps) k =
     (if k \<in> fst ` set ps then get_prop ps k else get_prop obj k)"
proof (induction ps arbitrary: obj)
  case Nil
  then show ?case by simp
next
  case (Cons p ps)
  then have d: "distinct (map fst ps)" and n: "fst p \<notin> fst ` set ps" by simp_all
  show ?case
    using Cons.IH [OF d, of "set_prop (fst p) (snd p) obj"] n
    by (auto simp: get_prop_set_prop get_prop_Cons)
qed

lemma decimal_eq:
  "decimal n = (if n < 10 then [char_of (48 + n)] else decimal (n div 10) @ [char_of (48 + n mod 10)])"
  by (rule decimal.simps)

lemma decimal_value_back:
  "foldl (\<lambda>a c. 10 * a + (of_char c - 48)) 0 (decimal n) = n"
proof (induction n rule: decimal.induct)
  case (1 n)
  show ?case
  proof (cases "n < 10")
    case True
    then show ?thesis by (subst decimal_eq) simp
  next
    case False
    have "n mod 10 < 10" by simp
    then have m: "(48 + n mod 10) mod 256 = 48 + n mod 10" by simp
    show ?thesis
      using False 1 [OF False] by (subst decimal_eq) (simp add: m)
  qed
qed

lemma decimal_inj: "inj decimal"
  by (rule inj_on_inverseI [where g = "foldl (\<lambda>a c. 10 * a + (of_char c - 48)) 0"])
     (rule decimal_value_back)

lemma index_keys_distinct: "distinct (map decimal [0..<n])"
  by (simp add: distinct_map inj_on_subset [OF decimal_inj])

lemma own_props_distinct:
  "(\<forall>ps. v = JObj ps \<longrightarrow> distinct (map fst ps)) \<Longrightarrow> distinct (map fst (own_props v))"
  by (cases v) (simp_all add: own_props_def index_keys_distinct)

lemma get_prop_spread:
  "distinct (map fst (own_props v)) \<Longrightarrow>
   get_prop (spread obj v) k =
     (if k \<in> fst ` set (own_props v) then get_prop (own_props v) k else get_prop obj k)"
  by (simp add: spread_def get_prop_assign)

lemma read_member_value:
  "v \<noteq> JNull \<Longrightarrow> v \<noteq> JUndefined \<Longrightarrow> read_member e what v k = Inr (member v k)"
  by (cases v) (simp_all add: read_member_def member_def)

lemma read_member_null:
  "v = JNull \<or> v = JUndefined \<Longrightarrow>
   read_member e what v k = Inl (Error (typeErrorMessage e (what @ ''.'' @ k)))"
  by (auto simp: read_member_def)

lemma call_parseExperienceToNumber_accepted:
  "accepted_experience v \<Longrightarrow> call_parseExperienceToNumber e v = Inr (experience_years e v)"
  by (cases v)
     (auto simp: accepted_experience_def falsy_def call_parseExperienceToNumber_def
        experience_years_def parseExperienceToNumber_empty)

lemma call_parseExperienceToNumber_rejected:
  "\<not> accepted_experience v \<Longrightarrow>
   call_parseExperienceToNumber e v = Inl (Error (typeErrorMessage e ''expString.toLowerCase''))"
  by (cases v)
     (auto simp: accepted_experience_def falsy_def call_parseExperienceToNumber_def)

lemma finalCandidate_value:
  assumes "v \<noteq> JNull" "v \<noteq> JUndefined"
    and "accepted_experience (member v ''totalExperience'')"
    and "accepted_experience (member v ''relevantExperience'')"
  shows "finalCandidate e f v =
     Inr (set_prop ''isShortlisted'' (JBool False)
         (set_prop ''fileName'' (JStr (utf16 (name f)))
         (set_prop ''relevantExperience'' (JNum (experience_years e (member v ''relevantExperience'')))
         (set_prop ''totalExperience'' (JNum (experience_years e (member v ''totalExperience'')))
         (spread [(''id'', JStr (utf16 (randomUUID e)))] v)))))"
  using assms
  by (simp add: finalCandidate_def read_member_value call_parseExperienceToNumber_accepted)

lemma finalCandidate_rejected:
  assumes "v \<noteq> JNull" "v \<noteq> JUndefined"
    and "\<not> accepted_experience (member v ''totalExperience'')
         \<or> \<not> accepted_experience (member v ''relevantExperience'')"
  shows "finalCandidate e f v = Inl (Error (typeErrorMessage e ''expString.toLowerCase''))"
proof (cases "accepted_experience (member v ''totalExperience'')")
  case True
  with assms(3) have "\<not> accepted_experience (member v ''relevantExperience'')" by simp
  with True assms(1,2) show ?thesis
    by (simp add: finalCandidate_def read_member_value call_parseExperienceToNumber_accepted
          call_parseExperienceToNumber_rejected)
next
  case False
  with assms(1,2) show ?thesis
    by (simp add: finalCandidate_def read_member_value call_parseExperienceToNumber_rejected)
qed

lemma finalCandidate_null:
  "v = JNull \<or> v = JUndefined \<Longrightarrow>
   finalCandidate e f v = Inl (Error (typeErrorMessage e ''parsedJson.totalExperience''))"
  by (auto simp: finalCandidate_def read_member_def)

lemma finalCandidate_returns:
  "(\<exists>c. finalCandidate e f v = Inr c) \<longleftrightarrow>
     v \<noteq> JNull \<and> v \<noteq> JUndefined \<and> accepted_experience (member v ''totalExperience'')
     \<and> accepted_experience (member v ''relevantExperience'')"
proof (cases "v = JNull \<or> v = JUndefined")
  case True
  then show ?thesis using finalCandidate_null [OF True, of e f] by auto
next
  case False
  then have v: "v \<noteq> JNull" "v \<noteq> JUndefined" by simp_all
  show ?thesis
  proof (cases "accepted_experience (member v ''totalExperience'')
      \<and> accepted_experience (member v ''relevantExperience'')")
    case True
    then show ?thesis using finalCandidate_value [OF v, of e f] v by simp
  next
    case False
    then have "\<not> accepted_experience (member v ''totalExperience'')
         \<or> \<not> accepted_experience (member v ''relevantExperience'')" by simp
    from finalCandidate_rejected [OF v this, of e f] False show ?thesis by auto
  qed
qed

lemma parseResume_after_render:
  assumes "fileToGenerativePart e f pages = (r, Inr part)"
    and "generateContent e (ResumeRequest part) = Inr t"
  shows "parseResume e f pages =
     (case JSON_parse e (text_or_braces t) of
        None \<Rightarrow> (r @ [95], Inl (Error ''AI processing failed: The AI model returned an invalid data format. Please try again.''))
      | Some parsedJson \<Rightarrow>
          (r @ [95, 100],
           case finalCandidate e f parsedJson of Inl err \<Rightarrow> Inl (rethrow err) | Inr c \<Rightarrow> Inr c))"
  using assms by (simp add: parseResume_def rethrow_def split: option.splits)

lemma accepted_experience_iff:
  "accepted_experience x \<longleftrightarrow>
     x = JUndefined \<or> x = JNull \<or> x = JBool False \<or> x = JNum (Finite 0) \<or> (\<exists>s. x = JStr s)"
  by (cases x) (auto simp: accepted_experience_def falsy_def)

lemma member_not_object: "(\<forall>ps. v \<noteq> JObj ps) \<Longrightarrow> member v k = JUndefined"
  by (cases v) (simp_all add: member_def)

text \<open>
  Claim C3, amended. Once rendering has returned a part and the model has answered: when
  the text of the answer (or \<open>{}\<close> for an empty or undefined text) is not valid
  JSON, extraction fails with the error of the invalid data format. A text
  that is valid JSON is not checked against the schema. Extraction then fails, with a
  \<open>TypeError\<close>, in two cases only: the parsed value is \<open>null\<close>, or
  \<open>totalExperience\<close> or \<open>relevantExperience\<close> is neither falsy nor a string.
  In every other case it returns a Candidate: for an object, also one that lacks required
  members or has members of another type, and for a number, a string or an array as well.
  The Candidate carries the own properties of the parsed value as they are, a missing
  member staying undefined; \<open>totalExperience\<close> and \<open>relevantExperience\<close> are 0
  for a falsy value and the result of the duration parser for a string.
\<close>

theorem unvalidated_ai_response:
  assumes "fileToGenerativePart e f pages = (r, Inr part)"
    and "generateContent e (ResumeRequest part) = Inr t"
  shows
   "(JSON_parse e (text_or_braces t) = None \<longrightarrow>
       parseResume e f pages =
         (r @ [95], Inl (Error ''AI processing failed: The AI model returned an invalid data format. Please try again.'')))
    \<and> (\<forall>v. JSON_parse e (text_or_braces t) = Some v \<and> (v = JNull \<or> v = JUndefined) \<longrightarrow>
       parseResume e f pages =
         (r @ [95, 100],
          Inl (Error (''AI processing failed: '' @ typeErrorMessage e ''parsedJson.totalExperience''))))
    \<and> (\<forall>v. JSON_parse e (text_or_braces t) = Some v \<and> v \<noteq> JNull \<and> v \<noteq> JUndefined
            \<and> (\<forall>ps. v = JObj ps \<longrightarrow> distinct (map fst ps))
            \<and> accepted_experience (member v ''totalExperience'')
            \<and> accepted_experience (member v ''relevantExperience'') \<longrightarrow>
         (\<exists>c. parseResume e f pages = (r @ [95, 100], Inr c)
            \<and> get_prop c ''totalExperience'' = JNum (experience_years e (member v ''totalExperience''))
            \<and> get_prop c ''relevantExperience'' = JNum (experience_years e (member v ''relevantExperience''))
            \<and> get_prop c ''fileName'' = JStr (utf16 (name f))
            \<and> get_prop c ''isShortlisted'' = JBool False
            \<and> get_prop c ''id'' =
                  (if ''id'' \<in> fst ` set (own_props v) then get_prop (own_props v) ''id''
                   else JStr (utf16 (randomUUID e)))
            \<and> (\<forall>k. k \<notin> set [''id'', ''totalExperience'', ''relevantExperience'', ''fileName'', ''isShortlisted'']
                  \<longrightarrow> get_prop c k = get_prop (own_props v) k)))
    \<and> (\<forall>v. JSON_parse e (text_or_braces t) = Some v \<and> v \<noteq> JNull \<and> v \<noteq> JUndefined
            \<and> (\<not> accepted_experience (member v ''totalExperience'')
                 \<or> \<not> accepted_experience (member v ''relevantExperience'')) \<longrightarrow>
         parseResume e f pages =
           (r @ [95, 100],
            Inl (Error (''AI processing failed: '' @ typeErrorMessage e ''expString.toLowerCase''))))
    \<and> ((\<exists>c. snd (parseResume e f pages) = Inr c) \<longleftrightarrow>
         (\<exists>v. JSON_parse e (text_or_braces t) = Some v \<and> v \<noteq> JNull \<and> v \<noteq> JUndefined
              \<and> accepted_experience (member v ''totalExperience'')
              \<and> accepted_experience (member v ''relevantExperience'')))
    \<and> (\<forall>v k. (\<forall>ps. v \<noteq> JObj ps) \<longrightarrow> member v k = JUndefined)
    \<and> (\<forall>x. accepted_experience x \<longleftrightarrow>
           x = JUndefined \<or> x = JNull \<or> x = JBool False \<or> x = JNum (Finite 0) \<or> (\<exists>s. x = JStr s))
    \<and> (\<forall>x. experience_years e x = (case x of JStr s \<Rightarrow> parseExperienceToNumber e s | _ \<Rightarrow> Finite 0))"
proof -
  note pr = parseResume_after_render [OF assms]
  have c1: "(JSON_parse e (text_or_braces t) = None \<longrightarrow>
       parseResume e f pages =
         (r @ [95], Inl (Error ''AI processing failed: The AI model returned an invalid data format. Please try again.'')))"
    by (simp add: pr)
  have c2: "(\<forall>v. JSON_parse e (text_or_braces t) = Some v \<and> (v = JNull \<or> v = JUndefined) \<longrightarrow>
       parseResume e f pages =
         (r @ [95, 100],
          Inl (Error (''AI processing failed: '' @ typeErrorMessage e ''parsedJson.totalExperience''))))"
    using finalCandidate_null [of _ e f] by (auto simp: pr rethrow_def)
  have c3: "(\<forall>v. JSON_parse e (text_or_braces t) = Some v \<and> v \<noteq> JNull \<and> v \<noteq> JUndefined
            \<and> (\<forall>ps. v = JObj ps \<longrightarrow> distinct (map fst ps))
            \<and> accepted_experience (member v ''totalExperience'')
            \<and> accepted_experience (member v ''relevantExperience'') \<longrightarrow>
         (\<exists>c. parseResume e f pages = (r @ [95, 100], Inr c)
            \<and> get_prop c ''totalExperience'' = JNum (experience_years e (member v ''totalExperience''))
            \<and> get_prop c ''relevantExperience'' = JNum (experience_years e (member v ''relevantExperience''))
            \<and> get_prop c ''fileName'' = JStr (utf16 (name f))
            \<and> get_prop c ''isShortlisted'' = JBool False
            \<and> get_prop c ''id'' =
                  (if ''id'' \<in> fst ` set (own_props v) then get_prop (own_props v) ''id''
                   else JStr (utf16 (randomUUID e)))
            \<and> (\<forall>k. k \<notin> set [''id'', ''totalExperience'', ''relevantExperience'', ''fileName'', ''isShortlisted'']
                  \<longrightarrow> get_prop c k = get_prop (own_props v) k)))"
  proof (intro allI impI)
    fix v
    assume a: "JSON_parse e (text_or_braces t) = Some v \<and> v \<noteq> JNull \<and> v \<noteq> JUndefined
            \<and> (\<forall>ps. v = JObj ps \<longrightarrow> distinct (map fst ps))
            \<and> accepted_experience (member v ''totalExperience'')
            \<and> accepted_experience (member v ''relevantExperience'')"
    let ?c = "set_prop ''isShortlisted'' (JBool False)
         (set_prop ''fileName'' (JStr (utf16 (name f)))
         (set_prop ''relevantExperience'' (JNum (experience_years e (member v ''relevantExperience'')))
         (set_prop ''totalExperience'' (JNum (experience_years e (member v ''totalExperience'')))
         (spread [(''id'', JStr (utf16 (randomUUID e)))] v))))"
    have d: "distinct (map fst (own_props v))" using a by (intro own_props_distinct) simp
    have p: "parseResume e f pages = (r @ [95, 100], Inr ?c)"
      using a by (simp add: pr finalCandidate_value)
    have g: "get_prop ?c k =
        (if k = ''isShortlisted'' then JBool False
         else if k = ''fileName'' then JStr (utf16 (name f))
         else if k = ''relevantExperience'' then JNum (experience_years e (member v ''relevantExperience''))
         else if k = ''totalExperience'' then JNum (experience_years e (member v ''totalExperience''))
         else if k \<in> fst ` set (own_props v) then get_prop (own_props v) k
         else get_prop [(''id'', JStr (utf16 (randomUUID e)))] k)" for k
      by (simp add: get_prop_set_prop get_prop_spread [OF d])
    have other: "\<forall>k. k \<notin> set [''id'', ''totalExperience'', ''relevantExperience'', ''fileName'', ''isShortlisted'']
                  \<longrightarrow> get_prop ?c k = get_prop (own_props v) k"
    proof (intro allI impI)
      fix k
      assume k: "k \<notin> set [''id'', ''totalExperience'', ''relevantExperience'', ''fileName'', ''isShortlisted'']"
      have e: "get_prop [] k = JUndefined" by (simp add: get_prop_def)
      show "get_prop ?c k = get_prop (own_props v) k"
      proof (cases "k \<in> fst ` set (own_props v)")
        case True
        with k show ?thesis by (simp add: g)
      next
        case False
        with k show ?thesis by (auto simp: g get_prop_Cons get_prop_absent e)
      qed
    qed
    have idp: "get_prop ?c ''id'' =
        (if ''id'' \<in> fst ` set (own_props v) then get_prop (own_props v) ''id''
         else JStr (utf16 (randomUUID e)))"
      by (simp add: g get_prop_Cons)
    from p other idp
    show "\<exists>c. parseResume e f pages = (r @ [95, 100], Inr c)
            \<and> get_prop c ''totalExperience'' = JNum (experience_years e (member v ''totalExperience''))
            \<and> get_prop c ''relevantExperience'' = JNum (experience_years e (member v ''relevantExperience''))
            \<and> get_prop c ''fileName'' = JStr (utf16 (name f))
            \<and> get_prop c ''isShortlisted'' = JBool False
            \<and> get_prop c ''id'' =
                  (if ''id'' \<in> fst ` set (own_props v) then get_prop (own_props v) ''id''
                   else JStr (utf16 (randomUUID e)))
            \<and> (\<forall>k. k \<notin> set [''id'', ''totalExperience'', ''relevantExperience'', ''fileName'', ''isShortlisted'']
                  \<longrightarrow> get_prop c k = get_prop (own_props v) k)"
      by (intro exI [of _ ?c] conjI) (simp_all add: g)
  qed
  have c4: "(\<forall>v. JSON_parse e (text_or_braces t) = Some v \<and> v \<noteq> JNull \<and> v \<noteq> JUndefined
            \<and> (\<not> accepted_experience (member v ''totalExperience'')
                 \<or> \<not> accepted_experience (member v ''relevantExperience'')) \<longrightarrow>
         parseResume e f pages =
           (r @ [95, 100],
            Inl (Error (''AI processing failed: '' @ typeErrorMessage e ''expString.toLowerCase''))))"
    using finalCandidate_rejected [of _ e f] by (auto simp: pr rethrow_def)
  have c5: "((\<exists>c. snd (parseResume e f pages) = Inr c) \<longleftrightarrow>
         (\<exists>v. JSON_parse e (text_or_braces t) = Some v \<and> v \<noteq> JNull \<and> v \<noteq> JUndefined
              \<and> accepted_experience (member v ''totalExperience'')
              \<and> accepted_experience (member v ''relevantExperience'')))"
  proof (cases "JSON_parse e (text_or_braces t)")
    case None
    then show ?thesis by (simp add: pr)
  next
    case (Some v)
    have "(\<exists>c. snd (parseResume e f pages) = Inr c) \<longleftrightarrow> (\<exists>c. finalCandidate e f v = Inr c)"
      by (simp add: pr Some split: sum.splits)
    then show ?thesis by (simp add: Some finalCandidate_returns)
  qed
  have c6: "(\<forall>v k. (\<forall>ps. v \<noteq> JObj ps) \<longrightarrow> member v k = JUndefined)"
    using member_not_object by blast
  have c7: "(\<forall>x. accepted_experience x \<longleftrightarrow>
           x = JUndefined \<or> x = JNull \<or> x = JBool False \<or> x = JNum (Finite 0) \<or> (\<exists>s. x = JStr s))"
    using accepted_experience_iff by blast
  have c8: "(\<forall>x. experience_years e x = (case x of JStr s \<Rightarrow> parseExperienceToNumber e s | _ \<Rightarrow> Finite 0))"
    by (simp add: experience_years_def)
  from c1 c2 c3 c4 c5 c6 c7 c8 show ?thesis by (intro conjI)
qed

lemma sample_image:
  "fileToGenerativePart sample_env jane_png pages = ([5, 80], Inr (InlineData ''image/png'' (Some ''iVBORw0KGgo='')))"
  by (simp add: fileToGenerativePart_def jane_png_def startsWith_def toBase64_def sample_env_def
        split_comma_1_def)

lemma sample_docx:
  "fileToGenerativePart sample_env cv_docx pages = ([5, 80], Inr (TextPart ''Jane Doe''))"
  by (simp add: fileToGenerativePart_def cv_docx_def startsWith_def sample_env_def)

lemma other_docx:
  "fileToGenerativePart array_env cv_docx pages = ([5, 80], Inr (TextPart ''Jane Doe''))"
  "fileToGenerativePart typed_env cv_docx pages = ([5, 80], Inr (TextPart ''Jane Doe''))"
  by (simp_all add: fileToGenerativePart_def cv_docx_def startsWith_def sample_env_def array_env_def
        typed_env_def)

text \<open>
  Claim C3 as stated fails: the model answers \<open>{}\<close>, valid JSON with none of the
  required members, and extraction returns a Candidate with 0 years of experience.
\<close>

theorem missing_fields_counterexample:
  "generateContent sample_env (ResumeRequest (InlineData ''image/png'' (Some ''iVBORw0KGgo=''))) = Inr (Some ''{}'')
   \<and> JSON_parse sample_env ''{}'' = Some (JObj [])
   \<and> parseResume sample_env jane_png None =
       ([5, 80, 95, 100],
        Inr [(''id'', JStr (utf16 ''0b7e2c1a-5d64-4f0e-9a3b-1c2d3e4f5a6b'')),
             (''totalExperience'', JNum (Finite 0)), (''relevantExperience'', JNum (Finite 0)),
             (''fileName'', JStr (utf16 ''jane.png'')), (''isShortlisted'', JBool False)])"
proof -
  have n: "name jane_png = ''jane.png''" by (simp add: jane_png_def)
  show ?thesis
    by (simp add: parseResume_def sample_image sample_facts text_or_braces_def
          empty_object_candidate n)
qed

text \<open>
  Claim C3, amended, on a word-processor file: answered with \<open>{}\<close>, it gives a
  Candidate without a name; answered with the array \<open>[7]\<close>, it gives a Candidate
  whose member \<open>0\<close> is 7; answered with an object whose \<open>relevantExperience\<close> is
  the number 7, it fails.
\<close>

theorem unvalidated_ai_response_witness:
  "fileToGenerativePart sample_env cv_docx None = ([5, 80], Inr (TextPart ''Jane Doe''))
   \<and> generateContent sample_env (ResumeRequest (TextPart ''Jane Doe'')) = Inr (Some ''{}'')
   \<and> JSON_parse sample_env (text_or_braces (Some ''{}'')) = Some (JObj [])
   \<and> accepted_experience (member (JObj []) ''totalExperience'')
   \<and> accepted_experience (member (JObj []) ''relevantExperience'')
   \<and> (\<exists>c. parseResume sample_env cv_docx None = ([5, 80, 95, 100], Inr c)
          \<and> get_prop c ''totalExperience'' = JNum (Finite 0)
          \<and> get_prop c ''fullName'' = JUndefined
          \<and> get_prop c ''fileName'' = JStr (utf16 ''cv.docx''))
   \<and> fileToGenerativePart array_env cv_docx None = ([5, 80], Inr (TextPart ''Jane Doe''))
   \<and> generateContent array_env (ResumeRequest (TextPart ''Jane Doe'')) = Inr (Some ''[7]'')
   \<and> JSON_parse array_env (text_or_braces (Some ''[7]'')) = Some (JArr [JNum (Finite 7)])
   \<and> (\<exists>c. parseResume array_env cv_docx None = ([5, 80, 95, 100], Inr c)
          \<and> get_prop c ''0'' = JNum (Finite 7)
          \<and> get_prop c ''totalExperience'' = JNum (Finite 0)
          \<and> get_prop c ''fullName'' = JUndefined)
   \<and> fileToGenerativePart typed_env cv_docx None = ([5, 80], Inr (TextPart ''Jane Doe''))
   \<and> generateContent typed_env (ResumeRequest (TextPart ''Jane Doe'')) = Inr (Some typed_text)
   \<and> JSON_parse typed_env (text_or_braces (Some typed_text)) =
         Some (JObj [(''totalExperience'', JStr (utf16 ''2 years'')),
                     (''relevantExperience'', JNum (Finite 7))])
   \<and> \<not> accepted_experience (JNum (Finite 7))
   \<and> parseResume typed_env cv_docx None =
       ([5, 80, 95, 100], Inl (Error ''AI processing failed: Cannot read expString.toLowerCase''))"
proof -
  have h1: "fileToGenerativePart sample_env cv_docx None = ([5, 80], Inr (TextPart ''Jane Doe''))"
    by (rule sample_docx)
  have h2: "generateContent sample_env (ResumeRequest (TextPart ''Jane Doe'')) = Inr (Some ''{}'')"
    by (rule sample_facts)
  have h3: "JSON_parse sample_env (text_or_braces (Some ''{}'')) = Some (JObj [])"
    by (simp add: text_or_braces_def sample_facts)
  have u: "member (JObj []) k = JUndefined" for k by (simp add: member_def get_prop_def)
  have h4: "accepted_experience (member (JObj []) k)" for k
    by (simp add: u accepted_experience_def falsy_def)
  have y: "experience_years e JUndefined = Finite 0" for e by (simp add: experience_years_def)
  have n: "name cv_docx = ''cv.docx''" by (simp add: cv_docx_def)
  have o: "own_props (JObj []) = []" by (simp add: own_props_def)
  have g0: "get_prop [] k = JUndefined" for k by (simp add: get_prop_def)
  note T1 = unvalidated_ai_response [OF h1 h2, THEN conjunct2, THEN conjunct2, THEN conjunct1,
      THEN spec, of "JObj []"]
  from T1 h3 h4
  obtain c where c: "parseResume sample_env cv_docx None = ([5, 80] @ [95, 100], Inr c)"
    "get_prop c ''totalExperience'' = JNum (experience_years sample_env (member (JObj []) ''totalExperience''))"
    "get_prop c ''fileName'' = JStr (utf16 (name cv_docx))"
    "\<forall>k. k \<notin> set [''id'', ''totalExperience'', ''relevantExperience'', ''fileName'', ''isShortlisted'']
         \<longrightarrow> get_prop c k = get_prop (own_props (JObj [])) k"
    by force
  from c(4) have "get_prop c ''fullName'' = JUndefined" by (simp add: o g0)
  with c(1,2,3) have r1: "\<exists>c. parseResume sample_env cv_docx None = ([5, 80, 95, 100], Inr c)
          \<and> get_prop c ''totalExperience'' = JNum (Finite 0)
          \<and> get_prop c ''fullName'' = JUndefined
          \<and> get_prop c ''fileName'' = JStr (utf16 ''cv.docx'')"
    by (simp add: u y n)
  have a1: "fileToGenerativePart array_env cv_docx None = ([5, 80], Inr (TextPart ''Jane Doe''))"
    by (rule other_docx)
  have a2: "generateContent array_env (ResumeRequest (TextPart ''Jane Doe'')) = Inr (Some ''[7]'')"
    by (simp add: array_env_def)
  have a3: "JSON_parse array_env (text_or_braces (Some ''[7]'')) = Some (JArr [JNum (Finite 7)])"
    by (simp add: array_env_def text_or_braces_def)
  have am: "member (JArr [JNum (Finite 7)]) k = JUndefined" for k by (simp add: member_def)
  have aa: "accepted_experience (member (JArr [JNum (Finite 7)]) k)" for k
    by (simp add: am accepted_experience_def falsy_def)
  have d0: "decimal 0 = ''0''" by code_simp
  have ao: "own_props (JArr [JNum (Finite 7)]) = [(''0'', JNum (Finite 7))]"
    by (simp add: own_props_def d0 del: decimal.simps)
  note T2 = unvalidated_ai_response [OF a1 a2, THEN conjunct2, THEN conjunct2, THEN conjunct1,
      THEN spec, of "JArr [JNum (Finite 7)]"]
  from T2 a3 aa
  obtain d where d: "parseResume array_env cv_docx None = ([5, 80] @ [95, 100], Inr d)"
    "get_prop d ''totalExperience'' = JNum (experience_years array_env (member (JArr [JNum (Finite 7)]) ''totalExperience''))"
    "\<forall>k. k \<notin> set [''id'', ''totalExperience'', ''relevantExperience'', ''fileName'', ''isShortlisted'']
         \<longrightarrow> get_prop d k = get_prop (own_props (JArr [JNum (Finite 7)])) k"
    by force
  from d(3) have "get_prop d ''0'' = JNum (Finite 7)" "get_prop d ''fullName'' = JUndefined"
    by (simp_all add: ao get_prop_def)
  with d(1,2) have r2: "\<exists>c. parseResume array_env cv_docx None = ([5, 80, 95, 100], Inr c)
          \<and> get_prop c ''0'' = JNum (Finite 7)
          \<and> get_prop c ''totalExperience'' = JNum (Finite 0)
          \<and> get_prop c ''fullName'' = JUndefined"
    by (simp add: am y)
  have t1: "fileToGenerativePart typed_env cv_docx None = ([5, 80], Inr (TextPart ''Jane Doe''))"
    by (rule other_docx)
  have t2: "generateContent typed_env (ResumeRequest (TextPart ''Jane Doe'')) = Inr (Some typed_text)"
    by (simp add: typed_env_def)
  have tne: "typed_text \<noteq> []" by (simp add: typed_text_def)
  have t3: "JSON_parse typed_env (text_or_braces (Some typed_text)) =
         Some (JObj [(''totalExperience'', JStr (utf16 ''2 years'')),
                     (''relevantExperience'', JNum (Finite 7))])"
    using tne by (simp add: typed_env_def text_or_braces_def)
  have t4: "\<not> accepted_experience (JNum (Finite 7))"
    by (simp add: accepted_experience_def falsy_def)
  have tm: "member (JObj [(''totalExperience'', JStr (utf16 ''2 years'')),
                     (''relevantExperience'', JNum (Finite 7))]) ''relevantExperience'' = JNum (Finite 7)"
    by (simp add: member_def get_prop_def)
  have te: "typeErrorMessage typed_env ''expString.toLowerCase'' = ''Cannot read expString.toLowerCase''"
    by (simp add: typed_env_def sample_env_def)
  note T3 = unvalidated_ai_response [OF t1 t2, THEN conjunct2, THEN conjunct2, THEN conjunct2,
      THEN conjunct1, THEN spec,
      of "JObj [(''totalExperience'', JStr (utf16 ''2 years'')), (''relevantExperience'', JNum (Finite 7))]"]
  from T3 t3 t4 have r3: "parseResume typed_env cv_docx None =
       ([5, 80, 95, 100], Inl (Error ''AI processing failed: Cannot read expString.toLowerCase''))"
    by (simp add: tm te)
  from h1 h2 h3 h4 r1 a1 a2 a3 r2 t1 t2 t3 t4 r3 show ?thesis by (intro conjI)
qed

subsection \<open>Match scoring\<close>

lemma utf16_eq: "utf16 s = utf16 t \<longleftrightarrow> s = t"
  by (simp add: utf16_def code_def inj_map_eq_map inj_on_def)

lemma analyzeCandidateMatch_cases:
  "analyzeCandidateMatch e c jd =
     Inr (case generateContent e (MatchRequest (candidateSummary c) jd) of
            Inl err \<Rightarrow> failed_match
          | Inr t \<Rightarrow>
              (case JSON_parse e (text_or_braces t) of
                 None \<Rightarrow> failed_match
               | Some JNull \<Rightarrow> failed_match
               | Some JUndefined \<Rightarrow> failed_match
               | Some (JObj ps) \<Rightarrow>
                   \<lparr>matchScore = get_prop ps ''matchScore'', matchReason = get_prop ps ''matchReason''\<rparr>
               | Some _ \<Rightarrow> \<lparr>matchScore = JUndefined, matchReason = JUndefined\<rparr>))"
  by (simp add: analyzeCandidateMatch_def analyzeCandidateMatch_try_def read_member_def failed_match_def
        split: sum.splits option.splits jsval.splits)

lemma analyzeCandidateMatch_never_rejects: "\<exists>r. analyzeCandidateMatch e c jd = Inr r"
  by (simp add: analyzeCandidateMatch_cases)

lemma Promise_all_fulfilled: "Promise_all (map (\<lambda>x. Inr (g x)) xs) = Inr (map g xs)"
  by (induction xs) simp_all

lemma analysisPromises_fulfilled:
  "analysisPromises e jd cs =
     map (\<lambda>c. Inr (with_match c (projr (analyzeCandidateMatch e c jd)))) cs"
  unfolding analysisPromises_def
  by (rule map_cong [OF refl]) (simp add: analyzeCandidateMatch_cases)

lemma handleJobAnalysis_result:
  "handleJobAnalysis e jd s =
     Inr (if candidates s = [] then s
          else s\<lparr>candidates := map (\<lambda>c. with_match c (projr (analyzeCandidateMatch e c jd))) (candidates s),
                 sortConfig := (Some ''matchScore'', ''descending''),
                 isAnalyzingJob := False\<rparr>)"
  by (simp add: handleJobAnalysis_def analysisPromises_fulfilled Promise_all_fulfilled)

lemma with_match_other:
  "k \<noteq> ''matchScore'' \<and> k \<noteq> ''matchReason'' \<Longrightarrow> get_prop (with_match c r) k = get_prop c k"
  by (simp add: with_match_def get_prop_set_prop)

lemma with_match_read:
  "get_prop (with_match c r) ''matchScore'' = matchScore r"
  "get_prop (with_match c r) ''matchReason'' = matchReason r"
  by (simp_all add: with_match_def get_prop_set_prop)

text \<open>
  Claim C1. For every list of candidates and every job description, the match scoring
  never throws to its caller and never raises its alert: every call of
  \<open>analyzeCandidateMatch\<close> is fulfilled, and the handler returns one candidate for each
  one it was given, in the same order. A candidate whose call of the model fails (or
  whose answer is not valid JSON) receives \<open>matchScore\<close> 0 and the reason
  \<open>Failed to analyze match.\<close>; a candidate whose call returns an object keeps the
  \<open>matchScore\<close> and \<open>matchReason\<close> of that object; the other members of every
  candidate stay as they were, whatever happens to the other candidates.
\<close>

theorem match_failure_isolated:
  "\<exists>s'. handleJobAnalysis e jd s = Inr s'
     \<and> alerts s' = alerts s
     \<and> length (candidates s') = length (candidates s)
     \<and> (\<forall>i<length (candidates s).
          (\<exists>r. analyzeCandidateMatch e (candidates s ! i) jd = Inr r
               \<and> candidates s' ! i = with_match (candidates s ! i) r)
        \<and> (\<forall>err. generateContent e (MatchRequest (candidateSummary (candidates s ! i)) jd) = Inl err \<longrightarrow>
              candidates s' ! i = with_match (candidates s ! i) failed_match)
        \<and> (\<forall>t. generateContent e (MatchRequest (candidateSummary (candidates s ! i)) jd) = Inr t
                \<and> JSON_parse e (text_or_braces t) = None \<longrightarrow>
              candidates s' ! i = with_match (candidates s ! i) failed_match)
        \<and> (\<forall>t ps. generateContent e (MatchRequest (candidateSummary (candidates s ! i)) jd) = Inr t
                \<and> JSON_parse e (text_or_braces t) = Some (JObj ps) \<longrightarrow>
              candidates s' ! i = with_match (candidates s ! i)
                 \<lparr>matchScore = get_prop ps ''matchScore'', matchReason = get_prop ps ''matchReason''\<rparr>)
        \<and> (\<forall>k. k \<noteq> ''matchScore'' \<and> k \<noteq> ''matchReason'' \<longrightarrow>
              get_prop (candidates s' ! i) k = get_prop (candidates s ! i) k))
     \<and> (\<forall>c. get_prop (with_match c failed_match) ''matchScore'' = JNum (Finite 0)
            \<and> get_prop (with_match c failed_match) ''matchReason'' = JStr (utf16 ''Failed to analyze match.''))"
proof -
  define g where "g = (\<lambda>c. with_match c (projr (analyzeCandidateMatch e c jd)))"
  define s' where "s' = (if candidates s = [] then s
          else s\<lparr>candidates := map g (candidates s),
                 sortConfig := (Some ''matchScore'', ''descending''),
                 isAnalyzingJob := False\<rparr>)"
  have r: "handleJobAnalysis e jd s = Inr s'"
    by (simp add: handleJobAnalysis_result s'_def g_def)
  have al: "alerts s' = alerts s" by (simp add: s'_def)
  have len: "length (candidates s') = length (candidates s)" by (simp add: s'_def)
  have nth: "candidates s' ! i = g (candidates s ! i)" if "i < length (candidates s)" for i
    using that by (auto simp: s'_def)
  have per: "\<forall>i<length (candidates s).
          (\<exists>r. analyzeCandidateMatch e (candidates s ! i) jd = Inr r
               \<and> candidates s' ! i = with_match (candidates s ! i) r)
        \<and> (\<forall>err. generateContent e (MatchRequest (candidateSummary (candidates s ! i)) jd) = Inl err \<longrightarrow>
              candidates s' ! i = with_match (candidates s ! i) failed_match)
        \<and> (\<forall>t. generateContent e (MatchRequest (candidateSummary (candidates s ! i)) jd) = Inr t
                \<and> JSON_parse e (text_or_braces t) = None \<longrightarrow>
              candidates s' ! i = with_match (candidates s ! i) failed_match)
        \<and> (\<forall>t ps. generateContent e (MatchRequest (candidateSummary (candidates s ! i)) jd) = Inr t
                \<and> JSON_parse e (text_or_braces t) = Some (JObj ps) \<longrightarrow>
              candidates s' ! i = with_match (candidates s ! i)
                 \<lparr>matchScore = get_prop ps ''matchScore'', matchReason = get_prop ps ''matchReason''\<rparr>)
        \<and> (\<forall>k. k \<noteq> ''matchScore'' \<and> k \<noteq> ''matchReason'' \<longrightarrow>
              get_prop (candidates s' ! i) k = get_prop (candidates s ! i) k)"
  proof (intro allI impI)
    fix i assume i: "i < length (candidates s)"
    let ?c = "candidates s ! i"
    have n: "candidates s' ! i = with_match ?c (projr (analyzeCandidateMatch e ?c jd))"
      using nth [OF i] by (simp add: g_def)
    have a: "\<exists>r. analyzeCandidateMatch e ?c jd = Inr r \<and> candidates s' ! i = with_match ?c r"
      using n by (simp add: analyzeCandidateMatch_cases)
    have b: "\<forall>err. generateContent e (MatchRequest (candidateSummary ?c) jd) = Inl err \<longrightarrow>
              candidates s' ! i = with_match ?c failed_match"
      by (simp add: n analyzeCandidateMatch_cases)
    have c: "\<forall>t. generateContent e (MatchRequest (candidateSummary ?c) jd) = Inr t
                \<and> JSON_parse e (text_or_braces t) = None \<longrightarrow>
              candidates s' ! i = with_match ?c failed_match"
      by (simp add: n analyzeCandidateMatch_cases)
    have d: "\<forall>t ps. generateContent e (MatchRequest (candidateSummary ?c) jd) = Inr t
                \<and> JSON_parse e (text_or_braces t) = Some (JObj ps) \<longrightarrow>
              candidates s' ! i = with_match ?c
                 \<lparr>matchScore = get_prop ps ''matchScore'', matchReason = get_prop ps ''matchReason''\<rparr>"
      by (simp add: n analyzeCandidateMatch_cases)
    have k: "\<forall>k. k \<noteq> ''matchScore'' \<and> k \<noteq> ''matchReason'' \<longrightarrow>
              get_prop (candidates s' ! i) k = get_prop ?c k"
      by (simp add: n with_match_other)
    from a b c d k show "(\<exists>r. analyzeCandidateMatch e ?c jd = Inr r
               \<and> candidates s' ! i = with_match ?c r)
        \<and> (\<forall>err. generateContent e (MatchRequest (candidateSummary ?c) jd) = Inl err \<longrightarrow>
              candidates s' ! i = with_match ?c failed_match)
        \<and> (\<forall>t. generateContent e (MatchRequest (candidateSummary ?c) jd) = Inr t
                \<and> JSON_parse e (text_or_braces t) = None \<longrightarrow>
              candidates s' ! i = with_match ?c failed_match)
        \<and> (\<forall>t ps. generateContent e (MatchRequest (candidateSummary ?c) jd) = Inr t
                \<and> JSON_parse e (text_or_braces t) = Some (JObj ps) \<longrightarrow>
              candidates s' ! i = with_match ?c
                 \<lparr>matchScore = get_prop ps ''matchScore'', matchReason = get_prop ps ''matchReason''\<rparr>)
        \<and> (\<forall>k. k \<noteq> ''matchScore'' \<and> k \<noteq> ''matchReason'' \<longrightarrow>
              get_prop (candidates s' ! i) k = get_prop ?c k)"
      by (intro conjI)
  qed
  have fm: "\<forall>c. get_prop (with_match c failed_match) ''matchScore'' = JNum (Finite 0)
            \<and> get_prop (with_match c failed_match) ''matchReason'' = JStr (utf16 ''Failed to analyze match.'')"
    by (simp add: with_match_read failed_match_def)
  from r al len per fm show ?thesis by (intro exI [of _ s'] conjI)
qed


lemma sample_match_facts:
  "generateContent sample_env (MatchRequest (candidateSummary analyst) jd) = Inl (Error ''503 Service Unavailable'')"
  "generateContent sample_env (MatchRequest (candidateSummary engineer) jd) = Inr (Some match_text)"
  "generateContent sample_env (MatchRequest (candidateSummary manager) jd) = Inr (Some match_text)"
  "JSON_parse sample_env (text_or_braces (Some match_text)) =
     Some (JObj [(''matchScore'', JNum (Finite 80)), (''matchReason'', JStr (utf16 ''Strong Python''))])"
  by (simp_all add: sample_env_def candidateSummary_def get_prop_def analyst_def engineer_def
        manager_def text_or_braces_def match_text_def utf16_eq)

text \<open>
  Claim C1 on three candidates where the model fails for the second one only.
\<close>

theorem match_failure_isolated_witness:
  "generateContent sample_env (MatchRequest (candidateSummary analyst) ''Python developer'') =
      Inl (Error ''503 Service Unavailable'')
   \<and> generateContent sample_env (MatchRequest (candidateSummary engineer) ''Python developer'') =
      Inr (Some match_text)
   \<and> JSON_parse sample_env (text_or_braces (Some match_text)) =
      Some (JObj [(''matchScore'', JNum (Finite 80)), (''matchReason'', JStr (utf16 ''Strong Python''))])
   \<and> (\<exists>s'. handleJobAnalysis sample_env ''Python developer''
               (initial_state\<lparr>candidates := [engineer, analyst, manager]\<rparr>) = Inr s'
          \<and> candidates s' ! 0 =
               with_match engineer \<lparr>matchScore = JNum (Finite 80), matchReason = JStr (utf16 ''Strong Python'')\<rparr>
          \<and> candidates s' ! 1 = with_match analyst failed_match
          \<and> candidates s' ! 2 =
               with_match manager \<lparr>matchScore = JNum (Finite 80), matchReason = JStr (utf16 ''Strong Python'')\<rparr>)"
proof -
  let ?s = "initial_state\<lparr>candidates := [engineer, analyst, manager]\<rparr>"
  have c: "candidates ?s = [engineer, analyst, manager]" by simp
  from match_failure_isolated [of sample_env "''Python developer''" ?s]
  obtain s' where s': "handleJobAnalysis sample_env ''Python developer'' ?s = Inr s'"
    and per: "\<forall>i<length (candidates ?s).
          (\<exists>r. analyzeCandidateMatch sample_env (candidates ?s ! i) ''Python developer'' = Inr r
               \<and> candidates s' ! i = with_match (candidates ?s ! i) r)
        \<and> (\<forall>err. generateContent sample_env (MatchRequest (candidateSummary (candidates ?s ! i)) ''Python developer'') = Inl err \<longrightarrow>
              candidates s' ! i = with_match (candidates ?s ! i) failed_match)
        \<and> (\<forall>t. generateContent sample_env (MatchRequest (candidateSummary (candidates ?s ! i)) ''Python developer'') = Inr t
                \<and> JSON_parse sample_env (text_or_braces t) = None \<longrightarrow>
              candidates s' ! i = with_match (candidates ?s ! i) failed_match)
        \<and> (\<forall>t ps. generateContent sample_env (MatchRequest (candidateSummary (candidates ?s ! i)) ''Python developer'') = Inr t
                \<and> JSON_parse sample_env (text_or_braces t) = Some (JObj ps) \<longrightarrow>
              candidates s' ! i = with_match (candidates ?s ! i)
                 \<lparr>matchScore = get_prop ps ''matchScore'', matchReason = get_prop ps ''matchReason''\<rparr>)
        \<and> (\<forall>k. k \<noteq> ''matchScore'' \<and> k \<noteq> ''matchReason'' \<longrightarrow>
              get_prop (candidates s' ! i) k = get_prop (candidates ?s ! i) k)"
    by (elim exE conjE)
  have p0: "(0::nat) < length (candidates ?s)" and p1: "(1::nat) < length (candidates ?s)"
    and p2: "(2::nat) < length (candidates ?s)" by simp_all
  note q0 = per [THEN spec, THEN mp, OF p0] and q1 = per [THEN spec, THEN mp, OF p1]
    and q2 = per [THEN spec, THEN mp, OF p2]
  have g: "get_prop [(''matchScore'', JNum (Finite 80)), (''matchReason'', JStr (utf16 ''Strong Python''))] ''matchScore'' = JNum (Finite 80)"
    "get_prop [(''matchScore'', JNum (Finite 80)), (''matchReason'', JStr (utf16 ''Strong Python''))] ''matchReason'' = JStr (utf16 ''Strong Python'')"
    by (simp_all add: get_prop_def)
  have i0: "candidates s' ! 0 =
      with_match engineer \<lparr>matchScore = JNum (Finite 80), matchReason = JStr (utf16 ''Strong Python'')\<rparr>"
    using q0 [THEN conjunct2, THEN conjunct2, THEN conjunct2, THEN conjunct1]
      sample_match_facts(2) [of "''Python developer''"] sample_match_facts(4)
    by (simp add: g)
  have i1: "candidates s' ! 1 = with_match analyst failed_match"
    using q1 [THEN conjunct2, THEN conjunct1]
      sample_match_facts(1) [of "''Python developer''"]
    by simp
  have i2: "candidates s' ! 2 =
      with_match manager \<lparr>matchScore = JNum (Finite 80), matchReason = JStr (utf16 ''Strong Python'')\<rparr>"
    using q2 [THEN conjunct2, THEN conjunct2, THEN conjunct2, THEN conjunct1]
      sample_match_facts(3) [of "''Python developer''"] sample_match_facts(4)
    by (simp add: g)
  have ex: "\<exists>s'. handleJobAnalysis sample_env ''Python developer'' ?s = Inr s'
          \<and> candidates s' ! 0 =
               with_match engineer \<lparr>matchScore = JNum (Finite 80), matchReason = JStr (utf16 ''Strong Python'')\<rparr>
          \<and> candidates s' ! 1 = with_match analyst failed_match
          \<and> candidates s' ! 2 =
               with_match manager \<lparr>matchScore = JNum (Finite 80), matchReason = JStr (utf16 ''Strong Python'')\<rparr>"
    using s' i0 i1 i2 by (intro exI [of _ s'] conjI)
  from sample_match_facts(1) [of "''Python developer''"] sample_match_facts(2) [of "''Python developer''"]
    sample_match_facts(4) ex
  show ?thesis by (intro conjI)
qed

subsection \<open>The failure of a file\<close>

lemma reports_frame:
  "candidates (foldl (\<lambda>acc p. onProgress f p acc) s reports) = candidates s
   \<and> fileQueue (foldl (\<lambda>acc p. onProgress f p acc) s reports) = fileQueue s
   \<and> currentFileForPreview (foldl (\<lambda>acc p. onProgress f p acc) s reports) = currentFileForPreview s
   \<and> inflight (foldl (\<lambda>acc p. onProgress f p acc) s reports) = inflight s
   \<and> alerts (foldl (\<lambda>acc p. onProgress f p acc) s reports) = alerts s
   \<and> isAutoParse (foldl (\<lambda>acc p. onProgress f p acc) s reports) = isAutoParse s
   \<and> (\<forall>n. n \<noteq> name f \<longrightarrow>
         fileStatuses (foldl (\<lambda>acc p. onProgress f p acc) s reports) n = fileStatuses s n)"
  by (induction reports arbitrary: s) (simp_all add: onProgress_def)

lemma settle_failure:
  "fileStatuses (processFile_settle t (Inl err) s) (name (p_file t)) =
     Some \<lparr>status = Failed, progress = 100, error = Some (errorMessage err)\<rparr>
   \<and> candidates (processFile_settle t (Inl err) s) = candidates s
   \<and> (\<forall>n. n \<noteq> name (p_file t) \<longrightarrow> fileStatuses (processFile_settle t (Inl err) s) n = fileStatuses s n)
   \<and> fileQueue (processFile_settle t (Inl err) s) = filter (\<lambda>g. name g \<noteq> name (p_file t)) (fileQueue s)
   \<and> inflight (processFile_settle t (Inl err) s) = inflight s
   \<and> isAutoParse (processFile_settle t (Inl err) s) = isAutoParse s"
  by (simp add: processFile_settle_def Let_def split: option.splits)

lemma settle_candidates:
  "candidates (processFile_settle t outcome s) =
     candidates s @ (case outcome of Inr c \<Rightarrow> [c] | Inl err \<Rightarrow> [])"
  by (simp add: processFile_settle_def Let_def split: option.splits sum.splits)

lemma processFile_candidates:
  "candidates (processFile e f pages s) =
     candidates s @ (case snd (parseResume e f pages) of Inr c \<Rightarrow> [c] | Inl err \<Rightarrow> [])"
  by (simp add: processFile_def Let_def settle_candidates reports_frame split: prod.splits)

lemma batch_candidates:
  "candidates (foldl (\<lambda>acc j. processFile e (fst j) (snd j) acc) s jobs) =
     candidates s @
       concat (map (\<lambda>j. case snd (parseResume e (fst j) (snd j)) of Inr c \<Rightarrow> [c] | Inl err \<Rightarrow> []) jobs)"
  by (induction jobs arbitrary: s) (simp_all add: processFile_candidates)

lemma parseResume_throws_Error:
  "snd (parseResume e f pages) = Inl err \<Longrightarrow> \<exists>m. err = Error m"
  by (auto simp: parseResume_def rethrow_def split: prod.splits sum.splits option.splits thrown.splits)

lemma unsupported_type:
  assumes "\<not> startsWith (type f) ''image/''" "type f \<noteq> ''application/pdf''"
    "\<not> includes_str (type f) ''wordprocessingml''" "\<not> includes_str (type f) ''msword''"
  shows "parseResume e f pages =
     ([5], Inl (Error (''AI processing failed: Unsupported file type: '' @ type f)))"
  using assms by (simp add: parseResume_def fileToGenerativePart_def rethrow_def)

lemma QueueManager_frame:
  "fileQueue (QueueManager s) = fileQueue s
   \<and> candidates (QueueManager s) = candidates s
   \<and> isAutoParse (QueueManager s) = isAutoParse s"
  by (simp add: QueueManager_def processFile_begin_def Let_def)

lemma QueueManager_manual:
  "\<not> isAutoParse s \<Longrightarrow>
   QueueManager s =
     (if fileQueue s = [] \<or> currentFileForPreview s \<noteq> None \<or> isParsing s (hd (fileQueue s)) then s
      else s\<lparr>currentFileForPreview := Some (hd (fileQueue s))\<rparr>)"
  by (simp add: QueueManager_def Let_def)

lemma QueueManager_manual_frame:
  "\<not> isAutoParse s \<Longrightarrow>
   fileStatuses (QueueManager s) = fileStatuses s \<and> inflight (QueueManager s) = inflight s"
  by (simp add: QueueManager_manual)

lemma QueueManager_keeps_preview:
  "\<not> isAutoParse s \<Longrightarrow> currentFileForPreview s = Some f \<Longrightarrow> QueueManager s = s"
  by (simp add: QueueManager_manual)

lemma QueueManager_inv: "manual_inv s \<Longrightarrow> manual_inv (QueueManager s)"
  by (auto simp: manual_inv_def QueueManager_manual preview_is_head_def started_by_confirm_def)

lemma QueueManager_idem: "QueueManager (QueueManager s) = QueueManager s"
  by (auto simp: QueueManager_def Let_def processFile_begin_def isParsing_def)

lemma settle_preview:
  "p_preview t = Some (p_file t) \<Longrightarrow> currentFileForPreview (processFile_settle t outcome s) = None"
  by (simp add: processFile_settle_def Let_def split: sum.splits)

lemma settle_frame:
  "isAutoParse (processFile_settle t outcome s) = isAutoParse s
   \<and> inflight (processFile_settle t outcome s) = inflight s"
  by (simp add: processFile_settle_def Let_def split: sum.splits option.splits)

lemma run_snoc: "run (evs @ [ev]) s = step ev (run evs s)"
  by (simp add: run_def)

lemma run_Nil: "run [] s = s"
  by (simp add: run_def)

lemma run_Cons: "run (ev # evs) s = run evs (step ev s)"
  by (simp add: run_def)

lemma QueueManager_busy:
  "fileQueue (QueueManager s) \<noteq> [] \<Longrightarrow>
     (if isAutoParse s then isParsing (QueueManager s) (hd (fileQueue (QueueManager s)))
      else currentFileForPreview (QueueManager s) \<noteq> None
           \<or> isParsing (QueueManager s) (hd (fileQueue (QueueManager s))))"
  by (auto simp: QueueManager_def Let_def processFile_begin_def isParsing_def)

lemma QueueManager_cases:
  "QueueManager s = s
   \<or> (isAutoParse s \<and> fileQueue s \<noteq> [] \<and> \<not> isParsing s (hd (fileQueue s))
        \<and> QueueManager s = processFile_begin (hd (fileQueue s)) None s)
   \<or> (\<not> isAutoParse s \<and> fileQueue s \<noteq> [] \<and> currentFileForPreview s = None
        \<and> \<not> isParsing s (hd (fileQueue s))
        \<and> QueueManager s = s\<lparr>currentFileForPreview := Some (hd (fileQueue s))\<rparr>)"
  by (auto simp: QueueManager_def Let_def)

lemma settle_clears_preview:
  "p_preview t = Some (p_file t) \<Longrightarrow>
   currentFileForPreview (processFile_settle t outcome s) = None"
  by (simp add: processFile_settle_def Let_def split: sum.splits)

lemma step_failure:
  assumes "i < length (inflight s)"
  shows "(let t = inflight s ! i; f = p_file t; s' = step (Settle i (Inl err)) s in
       fileStatuses s' (name f) =
         Some \<lparr>status = Failed, progress = 100, error = Some (errorMessage err)\<rparr>
     \<and> candidates s' = candidates s
     \<and> isAutoParse s' = isAutoParse s
     \<and> fileQueue s' = filter (\<lambda>g. name g \<noteq> name f) (fileQueue s)
     \<and> (\<forall>n. n \<noteq> name f \<longrightarrow>
           fileStatuses s' n = fileStatuses s n
           \<or> (isAutoParse s \<and> fileQueue s' \<noteq> [] \<and> n = name (hd (fileQueue s'))
                \<and> fileStatuses s' n = Some \<lparr>status = Parsing, progress = 0, error = None\<rparr>))
     \<and> (\<exists>new. inflight s' = take i (inflight s) @ drop (Suc i) (inflight s) @ new
            \<and> (\<forall>t'\<in>set new. isAutoParse s \<and> fileQueue s' \<noteq> []
                    \<and> p_file t' = hd (fileQueue s') \<and> p_pages t' = None))
     \<and> (fileQueue s' \<noteq> [] \<longrightarrow>
           (if isAutoParse s then isParsing s' (hd (fileQueue s'))
            else currentFileForPreview s' \<noteq> None \<or> isParsing s' (hd (fileQueue s'))))
     \<and> (\<not> isAutoParse s \<and> p_preview t = Some f \<and> fileQueue s' \<noteq> []
          \<and> \<not> isParsing s' (hd (fileQueue s')) \<longrightarrow>
           currentFileForPreview s' = Some (hd (fileQueue s'))))"
proof -
  define t where "t = inflight s ! i"
  define f where "f = p_file t"
  define rest where "rest = take i (inflight s) @ drop (Suc i) (inflight s)"
  define h where "h = handle (Settle i (Inl err)) s"
  define s' where "s' = step (Settle i (Inl err)) s"
  have hd: "h = processFile_settle t (Inl err) (s\<lparr>inflight := rest\<rparr>)"
    using assms by (simp add: h_def handle_def t_def rest_def)
  note sf = settle_failure [of t err "s\<lparr>inflight := rest\<rparr>", folded hd, folded f_def]
  have h1: "fileStatuses h (name f) =
      Some \<lparr>status = Failed, progress = 100, error = Some (errorMessage err)\<rparr>"
    and h2: "candidates h = candidates s"
    and h3: "\<forall>n. n \<noteq> name f \<longrightarrow> fileStatuses h n = fileStatuses s n"
    and h4: "fileQueue h = filter (\<lambda>g. name g \<noteq> name f) (fileQueue s)"
    and h5: "inflight h = rest"
    and h6: "isAutoParse h = isAutoParse s"
    using sf by simp_all
  have s'q: "s' = QueueManager h" by (simp add: s'_def step_def h_def)
  note fr = QueueManager_frame [of h, folded s'q]
  have q: "fileQueue s' = filter (\<lambda>g. name g \<noteq> name f) (fileQueue s)" using fr h4 by simp
  have hdn: "name (hd (fileQueue h)) \<noteq> name f" if "fileQueue h \<noteq> []"
  proof -
    from that have "hd (fileQueue h) \<in> set (fileQueue h)" by simp
    then show ?thesis unfolding h4 by simp
  qed
  have a1: "fileStatuses s' (name f) =
      Some \<lparr>status = Failed, progress = 100, error = Some (errorMessage err)\<rparr>"
    using QueueManager_cases [of h] h1 hdn
    by (auto simp: s'q processFile_begin_def)
  have a2: "candidates s' = candidates s" using fr h2 by simp
  have a3: "isAutoParse s' = isAutoParse s" using fr h6 by simp
  have a5: "\<forall>n. n \<noteq> name f \<longrightarrow>
           fileStatuses s' n = fileStatuses s n
           \<or> (isAutoParse s \<and> fileQueue s' \<noteq> [] \<and> n = name (hd (fileQueue s'))
                \<and> fileStatuses s' n = Some \<lparr>status = Parsing, progress = 0, error = None\<rparr>)"
  proof (intro allI impI)
    fix n assume n: "n \<noteq> name f"
    from QueueManager_cases [of h]
    show "fileStatuses s' n = fileStatuses s n
           \<or> (isAutoParse s \<and> fileQueue s' \<noteq> [] \<and> n = name (hd (fileQueue s'))
                \<and> fileStatuses s' n = Some \<lparr>status = Parsing, progress = 0, error = None\<rparr>)"
    proof (elim disjE conjE)
      assume "QueueManager h = h"
      then show ?thesis using h3 n by (simp add: s'q)
    next
      assume c: "isAutoParse h" "fileQueue h \<noteq> []"
        "QueueManager h = processFile_begin (hd (fileQueue h)) None h"
      have qq: "fileQueue s' = fileQueue h" using fr by simp
      show ?thesis
        using c h3 h6 n unfolding qq by (auto simp: s'q processFile_begin_def)
    next
      assume "QueueManager h = h\<lparr>currentFileForPreview := Some (hd (fileQueue h))\<rparr>"
      then show ?thesis using h3 n by (simp add: s'q)
    qed
  qed
  have a6: "\<exists>new. inflight s' = take i (inflight s) @ drop (Suc i) (inflight s) @ new
            \<and> (\<forall>t'\<in>set new. isAutoParse s \<and> fileQueue s' \<noteq> []
                    \<and> p_file t' = hd (fileQueue s') \<and> p_pages t' = None)"
  proof -
    have qq: "fileQueue s' = fileQueue h" using fr by simp
    from QueueManager_cases [of h]
    show ?thesis
    proof (elim disjE conjE)
      assume "QueueManager h = h"
      then have "inflight s' = take i (inflight s) @ drop (Suc i) (inflight s) @ []"
        using h5 by (simp add: s'q rest_def)
      then show ?thesis by (intro exI [of _ "[]"]) simp
    next
      assume c: "isAutoParse h" "fileQueue h \<noteq> []"
        "QueueManager h = processFile_begin (hd (fileQueue h)) None h"
      let ?new = "[\<lparr>p_file = hd (fileQueue h), p_pages = None, p_preview = currentFileForPreview h\<rparr>]"
      have "inflight s' = take i (inflight s) @ drop (Suc i) (inflight s) @ ?new"
        using c(3) h5 by (simp add: s'q processFile_begin_def rest_def)
      moreover have "\<forall>t'\<in>set ?new. isAutoParse s \<and> fileQueue s' \<noteq> []
                    \<and> p_file t' = hd (fileQueue s') \<and> p_pages t' = None"
        using c(1,2) h6 by (simp add: qq)
      ultimately show ?thesis by blast
    next
      assume "QueueManager h = h\<lparr>currentFileForPreview := Some (hd (fileQueue h))\<rparr>"
      then have "inflight s' = take i (inflight s) @ drop (Suc i) (inflight s) @ []"
        using h5 by (simp add: s'q rest_def)
      then show ?thesis by (intro exI [of _ "[]"]) simp
    qed
  qed
  have a7: "fileQueue s' \<noteq> [] \<longrightarrow>
           (if isAutoParse s then isParsing s' (hd (fileQueue s'))
            else currentFileForPreview s' \<noteq> None \<or> isParsing s' (hd (fileQueue s')))"
    using QueueManager_busy [of h] unfolding h6 s'q by (intro impI)
  have a8: "\<not> isAutoParse s \<and> p_preview t = Some f \<and> fileQueue s' \<noteq> []
          \<and> \<not> isParsing s' (hd (fileQueue s')) \<longrightarrow>
           currentFileForPreview s' = Some (hd (fileQueue s'))"
  proof
    assume x: "\<not> isAutoParse s \<and> p_preview t = Some f \<and> fileQueue s' \<noteq> []
          \<and> \<not> isParsing s' (hd (fileQueue s'))"
    then have "p_preview t = Some (p_file t)" by (simp add: f_def)
    then have pn: "currentFileForPreview h = None" unfolding hd by (rule settle_clears_preview)
    have na: "\<not> isAutoParse h" using x h6 by simp
    have qq: "fileQueue s' = fileQueue h" using fr by simp
    show "currentFileForPreview s' = Some (hd (fileQueue s'))"
      using x pn unfolding qq s'q QueueManager_manual [OF na]
      by (auto split: if_splits)
  qed
  from a1 a2 a3 q a5 a6 a7 a8 show ?thesis
    unfolding Let_def t_def [symmetric] f_def [symmetric] s'_def [symmetric] by (intro conjI)
qed

lemma draining_step:
  assumes "draining s (f # rest)"
  shows "draining (step (Settle 0 outcome) s) rest
    \<and> candidates (step (Settle 0 outcome) s) =
        candidates s @ (case outcome of Inr c \<Rightarrow> [c] | Inl x \<Rightarrow> [])
    \<and> fileStatuses (step (Settle 0 outcome) s) (name f) = Some (final_status outcome)
    \<and> (\<forall>n. n \<noteq> name f \<and> n \<notin> name ` set rest \<longrightarrow>
          fileStatuses (step (Settle 0 outcome) s) n = fileStatuses s n)"
proof -
  define t where "t = \<lparr>p_file = f, p_pages = None, p_preview = None :: File option\<rparr>"
  define h where "h = handle (Settle 0 outcome) s"
  from assms have a: "isAutoParse s" "currentFileForPreview s = None" "fileQueue s = f # rest"
    "distinct (map name (f # rest))" "inflight s = [t]"
    "\<forall>g\<in>set rest. fileStatuses s (name g) = None"
    by (simp_all add: draining_def t_def)
  have flt: "filter (\<lambda>g. name g \<noteq> name f) (f # rest) = rest"
    using a(4) by (auto simp: filter_id_conv image_iff)
  have hs: "h = processFile_settle t outcome (s\<lparr>inflight := []\<rparr>)"
    using a(5) by (simp add: h_def handle_def)
  have h1: "isAutoParse h" "currentFileForPreview h = None" "fileQueue h = rest" "inflight h = []"
    "candidates h = candidates s @ (case outcome of Inr c \<Rightarrow> [c] | Inl x \<Rightarrow> [])"
    "fileStatuses h (name f) = Some (final_status outcome)"
    "\<forall>n. n \<noteq> name f \<longrightarrow> fileStatuses h n = fileStatuses s n"
    using a(1,2,3) flt
    by (simp_all add: hs processFile_settle_def Let_def t_def final_status_def split: sum.splits)
  have st: "step (Settle 0 outcome) s = QueueManager h" by (simp add: step_def h_def)
  show ?thesis
  proof (cases rest)
    case Nil
    then have "QueueManager h = h" using h1 by (simp add: QueueManager_def)
    with h1 Nil show ?thesis by (simp add: st draining_def)
  next
    case (Cons g rest')
    have gn: "name g \<noteq> name f" "name g \<notin> name ` set rest'" "distinct (map name rest')"
      "name f \<notin> name ` set rest'"
      using a(4) Cons by auto
    have "fileStatuses h (name g) = None" using h1(7) gn(1) a(6) Cons by simp
    then have np: "\<not> isParsing h g" by (simp add: isParsing_def)
    have q: "QueueManager h = processFile_begin g None h"
      using h1 Cons np by (simp add: QueueManager_def Let_def)
    have d: "draining (processFile_begin g None h) rest"
    proof -
      have "\<forall>x\<in>set rest'. fileStatuses h (name x) = None"
      proof
        fix x assume x: "x \<in> set rest'"
        then have "name x \<noteq> name f" using gn(4) by (auto simp: image_iff)
        then show "fileStatuses h (name x) = None" using h1(7) a(6) Cons x by simp
      qed
      moreover have "\<forall>x\<in>set rest'. name x \<noteq> name g" using gn(2) by (auto simp: image_iff)
      ultimately show ?thesis
        using h1 Cons gn a(4)
        by (simp add: draining_def processFile_begin_def isParsing_def)
    qed
    have c: "candidates (processFile_begin g None h) = candidates h" by (simp add: processFile_begin_def)
    have s1: "fileStatuses (processFile_begin g None h) (name f) = fileStatuses h (name f)"
      using gn(1) by (simp add: processFile_begin_def)
    have s2: "\<forall>n. n \<noteq> name f \<and> n \<notin> name ` set rest \<longrightarrow>
          fileStatuses (processFile_begin g None h) n = fileStatuses s n"
      using h1(7) Cons by (simp add: processFile_begin_def)
    from d c s1 s2 h1 show ?thesis by (simp add: st q)
  qed
qed

lemma draining_run:
  "draining s fs \<Longrightarrow>
     candidates (run (map (\<lambda>g. Settle 0 (out g)) fs) s) =
       candidates s @ concat (map (\<lambda>g. case out g of Inr c \<Rightarrow> [c] | Inl x \<Rightarrow> []) fs)
   \<and> fileQueue (run (map (\<lambda>g. Settle 0 (out g)) fs) s) = []
   \<and> inflight (run (map (\<lambda>g. Settle 0 (out g)) fs) s) = []
   \<and> (\<forall>g\<in>set fs. fileStatuses (run (map (\<lambda>g. Settle 0 (out g)) fs) s) (name g) =
          Some (final_status (out g)))
   \<and> (\<forall>n. n \<notin> name ` set fs \<longrightarrow>
          fileStatuses (run (map (\<lambda>g. Settle 0 (out g)) fs) s) n = fileStatuses s n)"
proof (induction fs arbitrary: s)
  case Nil
  then show ?case by (simp add: run_Nil draining_def)
next
  case (Cons f rest)
  let ?s1 = "step (Settle 0 (out f)) s"
  let ?final = "run (map (\<lambda>g. Settle 0 (out g)) rest) ?s1"
  note st = draining_step [OF Cons.prems, of "out f"]
  from st have d: "draining ?s1 rest" by simp
  note ih = Cons.IH [OF d]
  have fn: "name f \<notin> name ` set rest" using Cons.prems by (auto simp: draining_def)
  have r: "run (map (\<lambda>g. Settle 0 (out g)) (f # rest)) s = ?final" by (simp add: run_Cons)
  have c: "candidates ?final =
      candidates s @ concat (map (\<lambda>g. case out g of Inr c \<Rightarrow> [c] | Inl x \<Rightarrow> []) (f # rest))"
    using ih st by simp
  have q: "fileQueue ?final = []" "inflight ?final = []" using ih by simp_all
  have sf: "fileStatuses ?final (name f) = Some (final_status (out f))"
    using ih fn st by simp
  have sr: "\<forall>g\<in>set rest. fileStatuses ?final (name g) = Some (final_status (out g))"
    using ih by simp
  have so: "\<forall>n. n \<notin> name ` set (f # rest) \<longrightarrow> fileStatuses ?final n = fileStatuses s n"
  proof (intro allI impI)
    fix n assume n: "n \<notin> name ` set (f # rest)"
    then have "n \<notin> name ` set rest" "n \<noteq> name f" by auto
    then show "fileStatuses ?final n = fileStatuses s n" using ih st by simp
  qed
  from c q sf sr so show ?case unfolding r by simp
qed

lemma draining_start:
  assumes "distinct (map name files)"
  shows "draining (step (FilesSelected files) auto_state) files"
proof (cases files)
  case Nil
  then show ?thesis
    by (simp add: step_def handle_def handleFiles_def QueueManager_def auto_state_def initial_state_def
          draining_def)
next
  case (Cons f rest)
  have h: "handle (FilesSelected files) auto_state = auto_state\<lparr>fileQueue := files\<rparr>"
    by (simp add: handle_def handleFiles_def auto_state_def initial_state_def Cons)
  have q: "QueueManager (auto_state\<lparr>fileQueue := files\<rparr>) =
      processFile_begin f None (auto_state\<lparr>fileQueue := files\<rparr>)"
    by (simp add: QueueManager_def Let_def Cons auto_state_def initial_state_def isParsing_def)
  have "\<forall>g\<in>set rest. name g \<noteq> name f" using assms Cons by (auto simp: image_iff)
  then show ?thesis
    unfolding step_def h q using assms Cons
    by (simp add: draining_def processFile_begin_def auto_state_def initial_state_def isParsing_def)
qed

lemma auto_batch:
  assumes "distinct (map name files)"
  shows "candidates (run (FilesSelected files # map (\<lambda>g. Settle 0 (out g)) files) auto_state) =
       concat (map (\<lambda>g. case out g of Inr c \<Rightarrow> [c] | Inl x \<Rightarrow> []) files)
   \<and> fileQueue (run (FilesSelected files # map (\<lambda>g. Settle 0 (out g)) files) auto_state) = []
   \<and> inflight (run (FilesSelected files # map (\<lambda>g. Settle 0 (out g)) files) auto_state) = []
   \<and> (\<forall>g\<in>set files.
         fileStatuses (run (FilesSelected files # map (\<lambda>g. Settle 0 (out g)) files) auto_state) (name g) =
           Some (final_status (out g)))"
proof -
  have c0: "candidates (step (FilesSelected files) auto_state) = []"
    by (simp add: step_def QueueManager_frame handle_def handleFiles_def auto_state_def initial_state_def
          Let_def)
  from draining_run [OF draining_start [OF assms], of out] c0
  show ?thesis by (simp add: run_Cons)
qed

lemma atomic_failure:
  assumes "snd (parseResume e f pages) = Inl err"
  shows "fileStatuses (processFile e f pages s) (name f) =
           Some \<lparr>status = Failed, progress = 100, error = Some (errorMessage err)\<rparr>
    \<and> (\<exists>m. err = Error m \<and> errorMessage err = m)
    \<and> candidates (processFile e f pages s) = candidates s
    \<and> (\<forall>n. n \<noteq> name f \<longrightarrow> fileStatuses (processFile e f pages s) n = fileStatuses s n)
    \<and> fileQueue (processFile e f pages s) = filter (\<lambda>g. name g \<noteq> name f) (fileQueue s)
    \<and> inflight (processFile e f pages s) = inflight s
    \<and> (\<forall>t s0. p_file t = f \<longrightarrow>
          fileStatuses (processFile_settle t (Inl err) s0) (name f) =
             Some \<lparr>status = Failed, progress = 100, error = Some (errorMessage err)\<rparr>
        \<and> candidates (processFile_settle t (Inl err) s0) = candidates s0
        \<and> (\<forall>n. n \<noteq> name f \<longrightarrow> fileStatuses (processFile_settle t (Inl err) s0) n = fileStatuses s0 n)
        \<and> fileQueue (processFile_settle t (Inl err) s0) = filter (\<lambda>g. name g \<noteq> name f) (fileQueue s0)
        \<and> inflight (processFile_settle t (Inl err) s0) = inflight s0)
    \<and> (\<not> startsWith (type f) ''image/'' \<and> type f \<noteq> ''application/pdf''
        \<and> \<not> includes_str (type f) ''wordprocessingml'' \<and> \<not> includes_str (type f) ''msword'' \<longrightarrow>
          err = Error (''AI processing failed: Unsupported file type: '' @ type f))"
proof -
  obtain reports where pr: "parseResume e f pages = (reports, Inl err)"
    using assms by (cases "parseResume e f pages") simp
  define t where "t = \<lparr>p_file = f, p_pages = pages, p_preview = currentFileForPreview s\<rparr>"
  define s2 where "s2 = foldl (\<lambda>acc p. onProgress f p acc)
      (s\<lparr>fileStatuses := (fileStatuses s)(name f \<mapsto> \<lparr>status = Parsing, progress = 0, error = None\<rparr>)\<rparr>) reports"
  have pf: "processFile e f pages s = processFile_settle t (Inl err) s2"
    by (simp add: processFile_def pr t_def s2_def)
  have tf: "p_file t = f" by (simp add: t_def)
  note fr = reports_frame [of f "s\<lparr>fileStatuses := (fileStatuses s)(name f \<mapsto> \<lparr>status = Parsing, progress = 0, error = None\<rparr>)\<rparr>" reports,
      folded s2_def]
  note st = settle_failure [of t err s2, unfolded tf]
  have a1: "fileStatuses (processFile e f pages s) (name f) =
           Some \<lparr>status = Failed, progress = 100, error = Some (errorMessage err)\<rparr>"
    using st by (simp add: pf)
  from parseResume_throws_Error [OF assms] obtain m where m: "err = Error m" by blast
  then have a2: "\<exists>m. err = Error m \<and> errorMessage err = m" by (simp add: errorMessage_def)
  have a3: "candidates (processFile e f pages s) = candidates s"
    using st fr by (simp add: pf)
  have a4: "\<forall>n. n \<noteq> name f \<longrightarrow> fileStatuses (processFile e f pages s) n = fileStatuses s n"
    using st fr by (simp add: pf)
  have a5: "fileQueue (processFile e f pages s) = filter (\<lambda>g. name g \<noteq> name f) (fileQueue s)"
    using st fr by (simp add: pf)
  have a6: "inflight (processFile e f pages s) = inflight s"
    using st fr by (simp add: pf)
  have a8: "\<forall>t s0. p_file t = f \<longrightarrow>
          fileStatuses (processFile_settle t (Inl err) s0) (name f) =
             Some \<lparr>status = Failed, progress = 100, error = Some (errorMessage err)\<rparr>
        \<and> candidates (processFile_settle t (Inl err) s0) = candidates s0
        \<and> (\<forall>n. n \<noteq> name f \<longrightarrow> fileStatuses (processFile_settle t (Inl err) s0) n = fileStatuses s0 n)
        \<and> fileQueue (processFile_settle t (Inl err) s0) = filter (\<lambda>g. name g \<noteq> name f) (fileQueue s0)
        \<and> inflight (processFile_settle t (Inl err) s0) = inflight s0"
    using settle_failure by auto
  have a9: "\<not> startsWith (type f) ''image/'' \<and> type f \<noteq> ''application/pdf''
        \<and> \<not> includes_str (type f) ''wordprocessingml'' \<and> \<not> includes_str (type f) ''msword'' \<longrightarrow>
          err = Error (''AI processing failed: Unsupported file type: '' @ type f)"
    using unsupported_type [of f e pages] pr by auto
  from a1 a2 a3 a4 a5 a6 a8 a9 show ?thesis by (intro conjI)
qed

lemma sample_unsupported:
  "snd (parseResume sample_env notes_txt None) =
     Inl (Error ''AI processing failed: Unsupported file type: text/plain'')"
proof -
  have t: "type notes_txt = ''text/plain''" by (simp add: notes_txt_def)
  have "parseResume sample_env notes_txt None =
     ([5], Inl (Error (''AI processing failed: Unsupported file type: '' @ type notes_txt)))"
    by (rule unsupported_type) (simp_all add: t startsWith_def)
  then show ?thesis by (simp add: t)
qed

lemma sample_image_parse:
  "snd (parseResume sample_env jane_png None) =
     Inr [(''id'', JStr (utf16 ''0b7e2c1a-5d64-4f0e-9a3b-1c2d3e4f5a6b'')),
          (''totalExperience'', JNum (Finite 0)), (''relevantExperience'', JNum (Finite 0)),
          (''fileName'', JStr (utf16 ''jane.png'')), (''isShortlisted'', JBool False)]"
proof -
  have n: "name jane_png = ''jane.png''" by (simp add: jane_png_def)
  show ?thesis
    by (simp add: parseResume_def sample_image sample_facts text_or_braces_def
          empty_object_candidate n)
qed

lemma renamed_image_parse:
  "snd (parseResume sample_env notes_png None) =
     Inr [(''id'', JStr (utf16 ''0b7e2c1a-5d64-4f0e-9a3b-1c2d3e4f5a6b'')),
          (''totalExperience'', JNum (Finite 0)), (''relevantExperience'', JNum (Finite 0)),
          (''fileName'', JStr (utf16 ''notes.txt'')), (''isShortlisted'', JBool False)]"
proof -
  have n: "name notes_png = ''notes.txt''" by (simp add: notes_png_def)
  have i: "fileToGenerativePart sample_env notes_png None =
      ([5, 80], Inr (InlineData ''image/png'' (Some ''iVBORw0KGgo='')))"
    by (simp add: fileToGenerativePart_def notes_png_def startsWith_def toBase64_def sample_env_def
        split_comma_1_def)
  show ?thesis
    by (simp add: parseResume_def i sample_facts text_or_braces_def empty_object_candidate n)
qed

lemma auto_upload:
  "fileQueue (step (FilesSelected files) auto_state) = files"
  "candidates (step (FilesSelected files) auto_state) = []"
  "files \<noteq> [] \<Longrightarrow> inflight (step (FilesSelected files) auto_state) =
      [\<lparr>p_file = hd files, p_pages = None, p_preview = None\<rparr>]"
  "isAutoParse (step (FilesSelected files) auto_state)"
proof -
  have h: "handle (FilesSelected files) auto_state = auto_state\<lparr>fileQueue := files\<rparr>"
    by (simp add: handle_def handleFiles_def auto_state_def initial_state_def)
  show "fileQueue (step (FilesSelected files) auto_state) = files"
    "candidates (step (FilesSelected files) auto_state) = []"
    "isAutoParse (step (FilesSelected files) auto_state)"
    unfolding step_def h
    by (simp_all add: QueueManager_frame auto_state_def initial_state_def)
  assume "files \<noteq> []"
  then show "inflight (step (FilesSelected files) auto_state) =
      [\<lparr>p_file = hd files, p_pages = None, p_preview = None\<rparr>]"
    unfolding step_def h
    by (simp add: QueueManager_def Let_def auto_state_def initial_state_def isParsing_def
        processFile_begin_def)
qed

text \<open>
  Claim C5 as stated fails: the processing of the other queued files does not always go
  on. In auto-parse mode a text file and an image that bear the same name are selected
  together, and both enter the queue. The text file fails, its type being unsupported, and
  with it the image leaves the queue: no call is made for it and no candidate comes of
  it, although its extraction on its own succeeds.
\<close>

theorem same_name_dropped_counterexample:
  "fileQueue (step (FilesSelected [notes_txt, notes_png]) auto_state) = [notes_txt, notes_png]
   \<and> inflight (step (FilesSelected [notes_txt, notes_png]) auto_state) =
       [\<lparr>p_file = notes_txt, p_pages = None, p_preview = None\<rparr>]
   \<and> snd (parseResume sample_env notes_txt None) =
       Inl (Error ''AI processing failed: Unsupported file type: text/plain'')
   \<and> snd (parseResume sample_env notes_png None) =
       Inr [(''id'', JStr (utf16 ''0b7e2c1a-5d64-4f0e-9a3b-1c2d3e4f5a6b'')),
            (''totalExperience'', JNum (Finite 0)), (''relevantExperience'', JNum (Finite 0)),
            (''fileName'', JStr (utf16 ''notes.txt'')), (''isShortlisted'', JBool False)]
   \<and> fileQueue (run [FilesSelected [notes_txt, notes_png],
                      Settle 0 (snd (parseResume sample_env notes_txt None))] auto_state) = []
   \<and> inflight (run [FilesSelected [notes_txt, notes_png],
                      Settle 0 (snd (parseResume sample_env notes_txt None))] auto_state) = []
   \<and> candidates (run [FilesSelected [notes_txt, notes_png],
                      Settle 0 (snd (parseResume sample_env notes_txt None))] auto_state) = []
   \<and> fileStatuses (run [FilesSelected [notes_txt, notes_png],
                      Settle 0 (snd (parseResume sample_env notes_txt None))] auto_state) ''notes.txt'' =
       Some \<lparr>status = Failed, progress = 100,
             error = Some ''AI processing failed: Unsupported file type: text/plain''\<rparr>"
proof -
  let ?s = "step (FilesSelected [notes_txt, notes_png]) auto_state"
  let ?err = "Error ''AI processing failed: Unsupported file type: text/plain''"
  have q: "fileQueue ?s = [notes_txt, notes_png]" by (rule auto_upload)
  have i: "inflight ?s = [\<lparr>p_file = notes_txt, p_pages = None, p_preview = None\<rparr>]"
    using auto_upload(3) [of "[notes_txt, notes_png]"] by simp
  have c: "candidates ?s = []" by (rule auto_upload)
  have n: "name notes_txt = ''notes.txt''" "name notes_png = ''notes.txt''"
    by (simp_all add: notes_txt_def notes_png_def)
  define h where "h = handle (Settle 0 (Inl ?err)) ?s"
  have h1: "fileQueue h = []" "inflight h = []" "candidates h = []"
    "fileStatuses h ''notes.txt'' = Some \<lparr>status = Failed, progress = 100,
             error = Some ''AI processing failed: Unsupported file type: text/plain''\<rparr>"
    by (simp_all add: h_def handle_def i q c processFile_settle_def Let_def n errorMessage_def)
  have e: "QueueManager h = h" using h1(1) by (simp add: QueueManager_def)
  have r: "run [FilesSelected [notes_txt, notes_png],
      Settle 0 (snd (parseResume sample_env notes_txt None))] auto_state = h"
    by (simp add: run_Cons run_Nil sample_unsupported step_def [of "Settle 0 (Inl ?err)"] e
        flip: h_def)
  show ?thesis
    unfolding r using q i h1 sample_unsupported renamed_image_parse by (intro conjI)
qed

text \<open>
  Claim C5, amended. When the extraction of a file fails, whatever the cause (a type that
  is not supported, a rendering failure, a failure of the model or of the parse of its
  answer), the failure is caught by \<open>processFile\<close>: the failure is an \<open>Error\<close>, the
  status of that file becomes the error status with the message of the failure and
  progress 100, the candidates are unchanged, the statuses of the other names are
  unchanged, every queue entry of that name (that of the failed file, and any other file of
  the same name, which is then never processed) leaves the queue, and the pending calls of
  the other files are untouched. In the application, when a pending call settles with a
  failure, the queue manager that runs next goes on with the queue: in auto-parse mode
  the new head of the queue is being parsed, by a call that the queue manager has just
  made unless one was pending; in manual mode, as soon as no preview is open the new head
  is parsed or in preview. In auto-parse mode, a selection of files with distinct
  names, each settled in turn with the outcome of its own extraction, ends with
  an empty queue, no pending call, the error or success status of every file according to
  its own outcome, and the candidates of exactly the files that succeeded, in order.
\<close>

theorem file_failure_isolated:
  "(snd (parseResume e f pages) = Inl err \<longrightarrow>
      fileStatuses (processFile e f pages s0) (name f) =
           Some \<lparr>status = Failed, progress = 100, error = Some (errorMessage err)\<rparr>
    \<and> (\<exists>m. err = Error m \<and> errorMessage err = m)
    \<and> candidates (processFile e f pages s0) = candidates s0
    \<and> (\<forall>n. n \<noteq> name f \<longrightarrow> fileStatuses (processFile e f pages s0) n = fileStatuses s0 n)
    \<and> fileQueue (processFile e f pages s0) = filter (\<lambda>g. name g \<noteq> name f) (fileQueue s0)
    \<and> inflight (processFile e f pages s0) = inflight s0
    \<and> (\<forall>t s1. p_file t = f \<longrightarrow>
          fileStatuses (processFile_settle t (Inl err) s1) (name f) =
             Some \<lparr>status = Failed, progress = 100, error = Some (errorMessage err)\<rparr>
        \<and> candidates (processFile_settle t (Inl err) s1) = candidates s1
        \<and> (\<forall>n. n \<noteq> name f \<longrightarrow> fileStatuses (processFile_settle t (Inl err) s1) n = fileStatuses s1 n)
        \<and> fileQueue (processFile_settle t (Inl err) s1) = filter (\<lambda>g. name g \<noteq> name f) (fileQueue s1)
        \<and> inflight (processFile_settle t (Inl err) s1) = inflight s1)
    \<and> (\<not> startsWith (type f) ''image/'' \<and> type f \<noteq> ''application/pdf''
        \<and> \<not> includes_str (type f) ''wordprocessingml'' \<and> \<not> includes_str (type f) ''msword'' \<longrightarrow>
          err = Error (''AI processing failed: Unsupported file type: '' @ type f)))
   \<and> (i < length (inflight s) \<longrightarrow>
      (let t = inflight s ! i; f = p_file t; s' = step (Settle i (Inl err)) s in
       fileStatuses s' (name f) =
         Some \<lparr>status = Failed, progress = 100, error = Some (errorMessage err)\<rparr>
     \<and> candidates s' = candidates s
     \<and> isAutoParse s' = isAutoParse s
     \<and> fileQueue s' = filter (\<lambda>g. name g \<noteq> name f) (fileQueue s)
     \<and> (\<forall>n. n \<noteq> name f \<longrightarrow>
           fileStatuses s' n = fileStatuses s n
           \<or> (isAutoParse s \<and> fileQueue s' \<noteq> [] \<and> n = name (hd (fileQueue s'))
                \<and> fileStatuses s' n = Some \<lparr>status = Parsing, progress = 0, error = None\<rparr>))
     \<and> (\<exists>new. inflight s' = take i (inflight s) @ drop (Suc i) (inflight s) @ new
            \<and> (\<forall>t'\<in>set new. isAutoParse s \<and> fileQueue s' \<noteq> []
                    \<and> p_file t' = hd (fileQueue s') \<and> p_pages t' = None))
     \<and> (fileQueue s' \<noteq> [] \<longrightarrow>
           (if isAutoParse s then isParsing s' (hd (fileQueue s'))
            else currentFileForPreview s' \<noteq> None \<or> isParsing s' (hd (fileQueue s'))))
     \<and> (\<not> isAutoParse s \<and> p_preview t = Some f \<and> fileQueue s' \<noteq> []
          \<and> \<not> isParsing s' (hd (fileQueue s')) \<longrightarrow>
           currentFileForPreview s' = Some (hd (fileQueue s')))))
   \<and> (distinct (map name files) \<longrightarrow>
        (let final = run (FilesSelected files # map (\<lambda>g. Settle 0 (snd (parseResume e g None))) files)
                       auto_state in
           candidates final =
             concat (map (\<lambda>g. case snd (parseResume e g None) of Inr c \<Rightarrow> [c] | Inl x \<Rightarrow> []) files)
         \<and> fileQueue final = []
         \<and> inflight final = []
         \<and> (\<forall>g\<in>set files.
               fileStatuses final (name g) = Some (final_status (snd (parseResume e g None))))))"
  (is "(?H1 \<longrightarrow> ?A) \<and> (?H2 \<longrightarrow> ?B) \<and> (?H3 \<longrightarrow> ?C)")
proof -
  have a: "?H1 \<longrightarrow> ?A"
  proof
    assume ?H1
    then show ?A by (rule atomic_failure)
  qed
  have b: "?H2 \<longrightarrow> ?B"
  proof
    assume ?H2
    then show ?B by (rule step_failure)
  qed
  have c: "?H3 \<longrightarrow> ?C"
  proof
    assume ?H3
    from auto_batch [OF this, of "\<lambda>g. snd (parseResume e g None)"]
    show ?C by (simp add: Let_def)
  qed
  show ?thesis
    apply (rule conjI)
     apply (rule a)
    apply (rule conjI)
     apply (rule b)
    apply (rule c)
    done
qed

text \<open>
  Claim C5, amended, on a text file, whose type is not supported, selected in auto-parse
  mode together with an image: the text file fails, the image is parsed next and gives
  its candidate.
\<close>

theorem file_failure_isolated_witness:
  "snd (parseResume sample_env notes_txt None) =
     Inl (Error ''AI processing failed: Unsupported file type: text/plain'')
   \<and> fileStatuses (processFile sample_env notes_txt None initial_state) ''notes.txt'' =
       Some \<lparr>status = Failed, progress = 100,
             error = Some ''AI processing failed: Unsupported file type: text/plain''\<rparr>
   \<and> candidates (processFile sample_env notes_txt None initial_state) = []
   \<and> 0 < length (inflight (step (FilesSelected [notes_txt, jane_png]) auto_state))
   \<and> fileStatuses
        (step (Settle 0 (Inl (Error ''AI processing failed: Unsupported file type: text/plain'')))
           (step (FilesSelected [notes_txt, jane_png]) auto_state)) ''notes.txt'' =
       Some \<lparr>status = Failed, progress = 100,
             error = Some ''AI processing failed: Unsupported file type: text/plain''\<rparr>
   \<and> fileQueue
        (step (Settle 0 (Inl (Error ''AI processing failed: Unsupported file type: text/plain'')))
           (step (FilesSelected [notes_txt, jane_png]) auto_state)) = [jane_png]
   \<and> isParsing
        (step (Settle 0 (Inl (Error ''AI processing failed: Unsupported file type: text/plain'')))
           (step (FilesSelected [notes_txt, jane_png]) auto_state)) jane_png
   \<and> distinct (map name [notes_txt, jane_png])
   \<and> candidates
        (run [FilesSelected [notes_txt, jane_png],
              Settle 0 (snd (parseResume sample_env notes_txt None)),
              Settle 0 (snd (parseResume sample_env jane_png None))] auto_state) =
       [[(''id'', JStr (utf16 ''0b7e2c1a-5d64-4f0e-9a3b-1c2d3e4f5a6b'')),
         (''totalExperience'', JNum (Finite 0)), (''relevantExperience'', JNum (Finite 0)),
         (''fileName'', JStr (utf16 ''jane.png'')), (''isShortlisted'', JBool False)]]
   \<and> fileStatuses
        (run [FilesSelected [notes_txt, jane_png],
              Settle 0 (snd (parseResume sample_env notes_txt None)),
              Settle 0 (snd (parseResume sample_env jane_png None))] auto_state) ''jane.png'' =
       Some \<lparr>status = Success, progress = 100, error = None\<rparr>"
proof -
  let ?err = "Error ''AI processing failed: Unsupported file type: text/plain''"
  let ?s = "step (FilesSelected [notes_txt, jane_png]) auto_state"
  let ?s' = "step (Settle 0 (Inl ?err)) ?s"
  let ?final = "run [FilesSelected [notes_txt, jane_png],
              Settle 0 (snd (parseResume sample_env notes_txt None)),
              Settle 0 (snd (parseResume sample_env jane_png None))] auto_state"
  note T = file_failure_isolated [where e = sample_env and f = notes_txt and pages = None
      and err = ?err and ?s0.0 = initial_state and i = 0 and s = ?s and files = "[notes_txt, jane_png]"]
  have n: "name notes_txt = ''notes.txt''" "name jane_png = ''jane.png''"
    by (simp_all add: notes_txt_def jane_png_def)
  have q: "fileQueue ?s = [notes_txt, jane_png]" by (rule auto_upload)
  have i: "inflight ?s = [\<lparr>p_file = notes_txt, p_pages = None, p_preview = None\<rparr>]"
    using auto_upload(3) [of "[notes_txt, jane_png]"] by simp
  have a: "isAutoParse ?s" by (rule auto_upload)
  have len: "0 < length (inflight ?s)" by (simp add: i)
  have dist: "distinct (map name [notes_txt, jane_png])" by (simp add: n)
  have em: "errorMessage ?err = ''AI processing failed: Unsupported file type: text/plain''"
    by (simp add: errorMessage_def)
  note T1 = T [THEN conjunct1, THEN mp, OF sample_unsupported]
  note T2 = T [THEN conjunct2, THEN conjunct1, THEN mp, OF len, unfolded Let_def i nth_Cons_0]
  note T3 = T [THEN conjunct2, THEN conjunct2, THEN mp, OF dist, unfolded Let_def]
  from T1 have b1: "fileStatuses (processFile sample_env notes_txt None initial_state) (name notes_txt) =
       Some \<lparr>status = Failed, progress = 100, error = Some (errorMessage ?err)\<rparr>"
    by (elim conjE)
  from T1 have b2: "candidates (processFile sample_env notes_txt None initial_state) = candidates initial_state"
    by (elim conjE)
  have c0: "candidates initial_state = []" by (simp add: initial_state_def)
  from T2 have c1: "fileStatuses ?s' (name notes_txt) =
       Some \<lparr>status = Failed, progress = 100, error = Some (errorMessage ?err)\<rparr>"
    by simp
  from T2 have c2: "fileQueue ?s' = filter (\<lambda>g. name g \<noteq> name notes_txt) (fileQueue ?s)"
    by simp
  then have c2': "fileQueue ?s' = [jane_png]" by (simp add: q n)
  from T2 have "fileQueue ?s' \<noteq> [] \<longrightarrow>
           (if isAutoParse ?s then isParsing ?s' (hd (fileQueue ?s'))
            else currentFileForPreview ?s' \<noteq> None \<or> isParsing ?s' (hd (fileQueue ?s')))"
    by (elim conjE)
  then have c3: "isParsing ?s' jane_png" using a by (simp add: c2')
  have f: "?final = run (FilesSelected [notes_txt, jane_png] #
      map (\<lambda>g. Settle 0 (snd (parseResume sample_env g None))) [notes_txt, jane_png]) auto_state"
    by simp
  from T3 have d1: "candidates ?final =
      concat (map (\<lambda>g. case snd (parseResume sample_env g None) of Inr c \<Rightarrow> [c] | Inl x \<Rightarrow> [])
        [notes_txt, jane_png])"
    unfolding f by (elim conjE)
  from T3 have "\<forall>g\<in>set [notes_txt, jane_png].
      fileStatuses ?final (name g) = Some (final_status (snd (parseResume sample_env g None)))"
    unfolding f by (elim conjE)
  then have d2: "fileStatuses ?final (name jane_png) =
      Some (final_status (snd (parseResume sample_env jane_png None)))"
    by simp
  have e1: "candidates ?final =
       [[(''id'', JStr (utf16 ''0b7e2c1a-5d64-4f0e-9a3b-1c2d3e4f5a6b'')),
         (''totalExperience'', JNum (Finite 0)), (''relevantExperience'', JNum (Finite 0)),
         (''fileName'', JStr (utf16 ''jane.png'')), (''isShortlisted'', JBool False)]]"
    unfolding d1 by (simp add: sample_unsupported sample_image_parse)
  have e2: "fileStatuses ?final ''jane.png'' = Some \<lparr>status = Success, progress = 100, error = None\<rparr>"
    using d2 unfolding n sample_image_parse by (simp add: final_status_def)
  from sample_unsupported b1 [unfolded n em] b2 [unfolded c0] len c1 [unfolded n em] c2' c3 dist e1 e2
  show ?thesis by (intro conjI)
qed

subsection \<open>The queue\<close>

lemma list_all_remove: "list_all P xs \<Longrightarrow> list_all P (take i xs @ drop (Suc i) xs)"
  by (auto simp: list_all_iff dest: in_set_takeD in_set_dropD)

lemma handle_inv:
  assumes "manual_inv s" "manual ev"
  shows "manual_inv (handle ev s)"
proof (cases ev)
  case (FilesSelected files)
  with assms show ?thesis
    by (auto simp: handle_def handleFiles_def manual_inv_def preview_is_head_def
          started_by_confirm_def Let_def split: option.splits)
next
  case (PreviewConfirm sel)
  with assms show ?thesis
    by (auto simp: handle_def handlePreviewConfirm_def processFile_begin_def manual_inv_def
          preview_is_head_def started_by_confirm_def split: option.splits)
next
  case PreviewCancel
  with assms show ?thesis
    by (auto simp: handle_def handlePreviewCancel_def manual_inv_def preview_is_head_def
          started_by_confirm_def split: option.splits)
next
  case ToggleAutoParse
  with assms show ?thesis by (simp add: manual_def)
next
  case Clear
  with assms show ?thesis
    by (auto simp: handle_def handleClear_def manual_inv_def preview_is_head_def started_by_confirm_def
          split: option.splits)
next
  case (Progress i p)
  with assms show ?thesis
    by (auto simp: handle_def onProgress_def manual_inv_def preview_is_head_def started_by_confirm_def
          split: option.splits)
next
  case (Settle i outcome)
  show ?thesis
  proof (cases "i < length (inflight s)")
    case False
    with Settle assms show ?thesis by (simp add: handle_def)
  next
    case True
    let ?t = "inflight s ! i"
    let ?s0 = "s\<lparr>inflight := take i (inflight s) @ drop (Suc i) (inflight s)\<rparr>"
    have h: "handle ev s = processFile_settle ?t outcome ?s0"
      using Settle True by (simp add: handle_def)
    from assms(1) True have tp: "p_preview ?t = Some (p_file ?t)"
      by (simp add: manual_inv_def started_by_confirm_def list_all_length)
    have "list_all (\<lambda>t. p_preview t = Some (p_file t)) (inflight s)"
      using assms(1) by (simp add: manual_inv_def started_by_confirm_def)
    from list_all_remove [OF this, of i]
    have "list_all (\<lambda>t. p_preview t = Some (p_file t)) (inflight ?s0)" by simp
    then show ?thesis
      using assms(1) settle_preview [OF tp, of outcome ?s0] settle_frame [of ?t outcome ?s0]
      by (simp add: h manual_inv_def preview_is_head_def started_by_confirm_def)
  qed
qed

lemma step_inv: "manual_inv s \<Longrightarrow> manual ev \<Longrightarrow> manual_inv (step ev s)"
  by (simp add: step_def QueueManager_inv handle_inv)

lemma initial_inv: "manual_inv initial_state"
  by (simp add: manual_inv_def initial_state_def preview_is_head_def started_by_confirm_def)

lemma run_inv: "list_all manual evs \<Longrightarrow> manual_inv (run evs initial_state)"
proof (induction evs rule: rev_induct)
  case Nil
  then show ?case by (simp add: run_def initial_inv)
next
  case (snoc ev evs)
  then show ?case by (simp add: run_snoc step_inv)
qed


lemma step_keeps_preview:
  assumes "\<not> isAutoParse s" "manual ev" "currentFileForPreview s = Some f"
    and "ev \<noteq> PreviewCancel" "ev \<noteq> Clear" "\<forall>i outcome. ev \<noteq> Settle i outcome"
  shows "currentFileForPreview (step ev s) = Some f"
proof -
  have h: "currentFileForPreview (handle ev s) = Some f \<and> \<not> isAutoParse (handle ev s)"
    using assms
    by (cases ev)
       (auto simp: handle_def handleFiles_def handlePreviewConfirm_def processFile_begin_def
          onProgress_def manual_def Let_def)
  then show ?thesis
    using QueueManager_keeps_preview [of "handle ev s" f] by (simp add: step_def)
qed

lemma step_queue_grows:
  assumes "manual ev" "ev \<noteq> PreviewCancel" "ev \<noteq> Clear" "\<forall>i outcome. ev \<noteq> Settle i outcome"
  shows "take (length (fileQueue s)) (fileQueue (step ev s)) = fileQueue s"
  using assms
  by (cases ev)
     (auto simp: step_def QueueManager_frame handle_def handleFiles_def handlePreviewConfirm_def
        processFile_begin_def onProgress_def manual_def Let_def split: option.splits)

lemma step_cancel:
  assumes "\<not> isAutoParse s" "currentFileForPreview s = Some f"
  shows "fileQueue (step PreviewCancel s) = tl (fileQueue s)
       \<and> fileStatuses (step PreviewCancel s) = fileStatuses s
       \<and> inflight (step PreviewCancel s) = inflight s
       \<and> candidates (step PreviewCancel s) = candidates s"
proof -
  have h: "handle PreviewCancel s = s\<lparr>fileQueue := drop 1 (fileQueue s), currentFileForPreview := None\<rparr>"
    using assms by (simp add: handle_def handlePreviewCancel_def)
  have n: "\<not> isAutoParse (handle PreviewCancel s)" using assms by (simp add: h)
  show ?thesis
    unfolding step_def
    using QueueManager_frame [of "handle PreviewCancel s"] QueueManager_manual_frame [OF n]
    by (simp add: h drop_Suc)
qed

lemma step_settle:
  assumes "\<not> isAutoParse s" "i < length (inflight s)"
  shows "terminal (step (Settle i outcome) s) (name (p_file (inflight s ! i)))
       \<and> (\<forall>g\<in>set (fileQueue (step (Settle i outcome) s)). name g \<noteq> name (p_file (inflight s ! i)))"
proof -
  let ?t = "inflight s ! i"
  let ?s0 = "s\<lparr>inflight := take i (inflight s) @ drop (Suc i) (inflight s)\<rparr>"
  have h: "handle (Settle i outcome) s = processFile_settle ?t outcome ?s0"
    using assms by (simp add: handle_def)
  have n: "\<not> isAutoParse (handle (Settle i outcome) s)"
    using assms settle_frame [of ?t outcome ?s0] by (simp add: h)
  have t: "terminal (processFile_settle ?t outcome ?s0) (name (p_file ?t))"
    by (simp add: terminal_def processFile_settle_def Let_def split: sum.splits option.splits)
  have q: "\<forall>g\<in>set (fileQueue (processFile_settle ?t outcome ?s0)). name g \<noteq> name (p_file ?t)"
    by (simp add: processFile_settle_def Let_def split: sum.splits option.splits)
  show ?thesis
    unfolding step_def
    using QueueManager_frame [of "handle (Settle i outcome) s"] QueueManager_manual_frame [OF n] t q
    by (simp add: h terminal_def)
qed

lemma step_files_initial:
  "step (FilesSelected [a, b]) initial_state =
     initial_state\<lparr>fileQueue := [a, b], currentFileForPreview := Some a\<rparr>"
proof -
  have h: "handle (FilesSelected [a, b]) initial_state = initial_state\<lparr>fileQueue := [a, b]\<rparr>"
    by (simp add: handle_def handleFiles_def initial_state_def)
  show ?thesis
    unfolding step_def h
    by (simp add: QueueManager_manual isParsing_def initial_state_def)
qed

lemma step_confirm_first:
  "step (PreviewConfirm sel) (initial_state\<lparr>fileQueue := [a, b], currentFileForPreview := Some a\<rparr>) =
     initial_state\<lparr>fileQueue := [a, b], currentFileForPreview := Some a,
        fileStatuses := [name a \<mapsto> \<lparr>status = Parsing, progress = 0, error = None\<rparr>],
        inflight := [\<lparr>p_file = a, p_pages = handleConfirm a sel, p_preview = Some a\<rparr>]\<rparr>"
proof -
  let ?s = "initial_state\<lparr>fileQueue := [a, b], currentFileForPreview := Some a\<rparr>"
  have h: "handle (PreviewConfirm sel) ?s =
     initial_state\<lparr>fileQueue := [a, b], currentFileForPreview := Some a,
        fileStatuses := [name a \<mapsto> \<lparr>status = Parsing, progress = 0, error = None\<rparr>],
        inflight := [\<lparr>p_file = a, p_pages = handleConfirm a sel, p_preview = Some a\<rparr>]\<rparr>"
    by (simp add: handle_def handlePreviewConfirm_def processFile_begin_def initial_state_def)
  show ?thesis
    unfolding step_def h
    by (rule QueueManager_keeps_preview [where f = a]) (simp_all add: initial_state_def)
qed

lemma step_settle_first:
  assumes "name a \<noteq> name b"
  shows "currentFileForPreview
           (step (Settle 0 outcome)
              (initial_state\<lparr>fileQueue := [a, b], currentFileForPreview := Some a,
                 fileStatuses := [name a \<mapsto> \<lparr>status = Parsing, progress = 0, error = None\<rparr>],
                 inflight := [\<lparr>p_file = a, p_pages = pages, p_preview = Some a\<rparr>]\<rparr>)) = Some b
       \<and> terminal
           (step (Settle 0 outcome)
              (initial_state\<lparr>fileQueue := [a, b], currentFileForPreview := Some a,
                 fileStatuses := [name a \<mapsto> \<lparr>status = Parsing, progress = 0, error = None\<rparr>],
                 inflight := [\<lparr>p_file = a, p_pages = pages, p_preview = Some a\<rparr>]\<rparr>)) (name a)"
proof -
  let ?s = "initial_state\<lparr>fileQueue := [a, b], currentFileForPreview := Some a,
                 fileStatuses := [name a \<mapsto> \<lparr>status = Parsing, progress = 0, error = None\<rparr>],
                 inflight := [\<lparr>p_file = a, p_pages = pages, p_preview = Some a\<rparr>]\<rparr>"
  define h where "h = handle (Settle 0 outcome) ?s"
  have q: "fileQueue h = [b]" "currentFileForPreview h = None" "\<not> isAutoParse h"
    "fileStatuses h (name b) = None" "terminal h (name a)"
    using assms
    by (simp_all add: h_def handle_def processFile_settle_def initial_state_def terminal_def Let_def
          split: sum.splits)
  have "QueueManager h = h\<lparr>currentFileForPreview := Some b\<rparr>"
    using q by (simp add: QueueManager_manual isParsing_def)
  then show ?thesis
    using q(5) by (simp add: step_def h_def [symmetric] terminal_def)
qed

lemma step_cancel_first:
  "step PreviewCancel (initial_state\<lparr>fileQueue := [a, b], currentFileForPreview := Some a\<rparr>) =
     initial_state\<lparr>fileQueue := [b], currentFileForPreview := Some b\<rparr>"
proof -
  let ?s = "initial_state\<lparr>fileQueue := [a, b], currentFileForPreview := Some a\<rparr>"
  have h: "handle PreviewCancel ?s = initial_state\<lparr>fileQueue := [b], currentFileForPreview := None\<rparr>"
    by (simp add: handle_def handlePreviewCancel_def initial_state_def)
  show ?thesis
    unfolding step_def h
    by (simp add: QueueManager_manual isParsing_def initial_state_def)
qed

lemma two_files:
  assumes "name a \<noteq> name b"
  shows "currentFileForPreview (run [FilesSelected [a, b]] initial_state) = Some a
       \<and> fileQueue (run [FilesSelected [a, b]] initial_state) = [a, b]
       \<and> currentFileForPreview (run [FilesSelected [a, b], PreviewConfirm sel] initial_state) = Some a
       \<and> currentFileForPreview (run [FilesSelected [a, b], PreviewConfirm sel, Settle 0 outcome] initial_state) = Some b
       \<and> terminal (run [FilesSelected [a, b], PreviewConfirm sel, Settle 0 outcome] initial_state) (name a)
       \<and> currentFileForPreview (run [FilesSelected [a, b], PreviewCancel] initial_state) = Some b
       \<and> fileStatuses (run [FilesSelected [a, b], PreviewCancel] initial_state) = Map.empty
       \<and> inflight (run [FilesSelected [a, b], PreviewCancel] initial_state) = []"
  using step_settle_first [OF assms, of outcome "handleConfirm a sel"]
  by (simp add: run_Cons run_Nil step_files_initial step_confirm_first step_cancel_first)
     (simp add: initial_state_def)

lemma sample_names:
  "name a_pdf = ''a.pdf''" "name b_pdf = ''b.pdf''" "name a_pdf \<noteq> name b_pdf"
  by (simp_all add: a_pdf_def b_pdf_def)

lemma run_append: "run (xs @ ys) s = run ys (run xs s)"
  by (simp add: run_def)

lemma confirmed_append: "confirmed (xs @ ys) s = confirmed xs s @ confirmed ys (run xs s)"
  by (induction xs arbitrary: s) (simp_all add: run_Nil run_Cons)

lemma handle_touched:
  assumes "touched (handle ev s) n"
  shows "touched s n \<or> (\<exists>sel f. ev = PreviewConfirm sel \<and> currentFileForPreview s = Some f \<and> n = name f)"
proof (cases ev)
  case (FilesSelected files)
  with assms show ?thesis
    by (auto simp: handle_def handleFiles_def touched_def Let_def split: if_splits)
next
  case (PreviewConfirm sel)
  with assms show ?thesis
    by (auto simp: handle_def handlePreviewConfirm_def processFile_begin_def touched_def
          split: option.splits if_splits)
next
  case PreviewCancel
  with assms show ?thesis
    by (auto simp: handle_def handlePreviewCancel_def touched_def split: option.splits)
next
  case ToggleAutoParse
  with assms show ?thesis by (simp add: handle_def touched_def)
next
  case Clear
  with assms show ?thesis by (simp add: handle_def handleClear_def touched_def)
next
  case (Progress i p)
  with assms show ?thesis
    by (auto simp: handle_def onProgress_def touched_def split: if_splits)
next
  case (Settle i outcome)
  show ?thesis
  proof (cases "i < length (inflight s)")
    case False
    with Settle assms show ?thesis by (simp add: handle_def)
  next
    case True
    let ?t = "inflight s ! i"
    let ?s0 = "s\<lparr>inflight := take i (inflight s) @ drop (Suc i) (inflight s)\<rparr>"
    have h: "handle ev s = processFile_settle ?t outcome ?s0"
      using Settle True by (simp add: handle_def)
    have t: "?t \<in> set (inflight s)" using True by simp
    have i: "set (inflight (processFile_settle ?t outcome ?s0)) \<subseteq> set (inflight s)"
      using settle_frame [of ?t outcome ?s0] by (auto dest: in_set_takeD in_set_dropD)
    have f: "fileStatuses (processFile_settle ?t outcome ?s0) n \<noteq> None \<Longrightarrow>
        fileStatuses s n \<noteq> None \<or> n = name (p_file ?t)"
      by (auto simp: processFile_settle_def Let_def split: sum.splits option.splits if_splits)
    from assms h consider "fileStatuses (processFile_settle ?t outcome ?s0) n \<noteq> None"
      | "n \<in> (\<lambda>t. name (p_file t)) ` set (inflight (processFile_settle ?t outcome ?s0))"
      by (auto simp: touched_def)
    then have "touched s n"
    proof cases
      case 1
      from f [OF this] t show ?thesis by (auto simp: touched_def)
    next
      case 2
      with i show ?thesis by (auto simp: touched_def)
    qed
    then show ?thesis ..
  qed
qed

lemma handle_manual: "manual ev \<Longrightarrow> isAutoParse (handle ev s) = isAutoParse s"
proof (cases ev)
  case (Settle i outcome)
  then show ?thesis using settle_frame by (simp add: handle_def)
qed (simp_all add: handle_def handleFiles_def handlePreviewConfirm_def handlePreviewCancel_def
      handleClear_def processFile_begin_def onProgress_def manual_def Let_def split: option.splits)

lemma step_manual: "manual ev \<Longrightarrow> isAutoParse (step ev s) = isAutoParse s"
  by (simp add: step_def QueueManager_frame handle_manual)

lemma step_touched:
  assumes "\<not> isAutoParse s" "manual ev" "touched (step ev s) n"
  shows "touched s n \<or> n \<in> set (confirmed [ev] s)"
proof -
  have "\<not> isAutoParse (handle ev s)" using assms by (simp add: handle_manual)
  from QueueManager_manual_frame [OF this] assms(3)
  have "touched (handle ev s) n" by (simp add: step_def touched_def)
  from handle_touched [OF this] show ?thesis by auto
qed

lemma run_touched:
  "\<not> isAutoParse s \<Longrightarrow> list_all manual evs \<Longrightarrow> touched (run evs s) n \<Longrightarrow>
     touched s n \<or> n \<in> set (confirmed evs s)"
proof (induction evs arbitrary: s)
  case Nil
  then show ?case by (simp add: run_Nil)
next
  case (Cons ev evs)
  from Cons.prems have m: "manual ev" "list_all manual evs" by simp_all
  have na: "\<not> isAutoParse (step ev s)" using Cons.prems(1) m(1) by (simp add: step_manual)
  from Cons.prems(3) have "touched (run evs (step ev s)) n" by (simp add: run_Cons)
  from Cons.IH [OF na m(2) this]
  show ?case
  proof
    assume "touched (step ev s) n"
    from step_touched [OF Cons.prems(1) m(1) this] show ?thesis by auto
  next
    assume "n \<in> set (confirmed evs (step ev s))"
    then show ?thesis by simp
  qed
qed

lemma never_confirmed:
  assumes "list_all manual evs" "touched (run (take k evs) initial_state) n"
  shows "n \<in> set (confirmed evs initial_state)"
proof -
  have m: "list_all manual (take k evs)" using assms(1) by (auto simp: list_all_iff dest: in_set_takeD)
  have i: "\<not> isAutoParse initial_state" "\<not> touched initial_state n"
    by (simp_all add: initial_state_def touched_def)
  from run_touched [OF i(1) m assms(2)] i(2)
  have "n \<in> set (confirmed (take k evs) initial_state)" by simp
  moreover have "confirmed evs initial_state =
      confirmed (take k evs) initial_state @ confirmed (drop k evs) (run (take k evs) initial_state)"
    using confirmed_append [of "take k evs" "drop k evs" initial_state] by simp
  ultimately show ?thesis by simp
qed

lemma confirm_then_cancel:
  "run [FilesSelected [a, b], PreviewConfirm sel, PreviewCancel] initial_state =
     initial_state\<lparr>fileQueue := [b], currentFileForPreview := Some b,
        fileStatuses := [name a \<mapsto> \<lparr>status = Parsing, progress = 0, error = None\<rparr>],
        inflight := [\<lparr>p_file = a, p_pages = handleConfirm a sel, p_preview = Some a\<rparr>]\<rparr>
   \<or> name a = name b"
proof (cases "name a = name b")
  case True
  then show ?thesis by simp
next
  case False
  let ?s = "initial_state\<lparr>fileQueue := [a, b], currentFileForPreview := Some a,
        fileStatuses := [name a \<mapsto> \<lparr>status = Parsing, progress = 0, error = None\<rparr>],
        inflight := [\<lparr>p_file = a, p_pages = handleConfirm a sel, p_preview = Some a\<rparr>]\<rparr>"
  have h: "handle PreviewCancel ?s =
     initial_state\<lparr>fileQueue := [b], currentFileForPreview := None,
        fileStatuses := [name a \<mapsto> \<lparr>status = Parsing, progress = 0, error = None\<rparr>],
        inflight := [\<lparr>p_file = a, p_pages = handleConfirm a sel, p_preview = Some a\<rparr>]\<rparr>"
    by (simp add: handle_def handlePreviewCancel_def initial_state_def)
  have "step PreviewCancel ?s =
     initial_state\<lparr>fileQueue := [b], currentFileForPreview := Some b,
        fileStatuses := [name a \<mapsto> \<lparr>status = Parsing, progress = 0, error = None\<rparr>],
        inflight := [\<lparr>p_file = a, p_pages = handleConfirm a sel, p_preview = Some a\<rparr>]\<rparr>"
    unfolding step_def h using False
    by (simp add: QueueManager_manual isParsing_def initial_state_def)
  then show ?thesis
    by (simp add: run_Cons run_Nil step_files_initial step_confirm_first)
qed

text \<open>
  Claim C6 as stated fails: a file whose preview is cancelled may have a parsing status
  and a call of the extractor. The preview of \<open>a.pdf\<close> stays open while its parse
  runs; confirmed with page 1 and then cancelled, \<open>a.pdf\<close> leaves the queue with the
  status \<open>parsing\<close> and its call pending, and \<open>b.pdf\<close> is in preview although
  the parse of \<open>a.pdf\<close> has not reached a terminal status.
\<close>

theorem confirm_then_cancel_counterexample:
  "list_all manual [FilesSelected [a_pdf, b_pdf], PreviewConfirm [1], PreviewCancel]
   \<and> currentFileForPreview (run [FilesSelected [a_pdf, b_pdf], PreviewConfirm [1]] initial_state) =
       Some a_pdf
   \<and> fileStatuses (run [FilesSelected [a_pdf, b_pdf], PreviewConfirm [1], PreviewCancel] initial_state)
        ''a.pdf'' = Some \<lparr>status = Parsing, progress = 0, error = None\<rparr>
   \<and> inflight (run [FilesSelected [a_pdf, b_pdf], PreviewConfirm [1], PreviewCancel] initial_state) =
       [\<lparr>p_file = a_pdf, p_pages = Some [1], p_preview = Some a_pdf\<rparr>]
   \<and> fileQueue (run [FilesSelected [a_pdf, b_pdf], PreviewConfirm [1], PreviewCancel] initial_state) =
       [b_pdf]
   \<and> currentFileForPreview
        (run [FilesSelected [a_pdf, b_pdf], PreviewConfirm [1], PreviewCancel] initial_state) = Some b_pdf
   \<and> \<not> terminal (run [FilesSelected [a_pdf, b_pdf], PreviewConfirm [1], PreviewCancel] initial_state)
        ''a.pdf''"
proof -
  have hc: "handleConfirm a_pdf [1] = Some [1]" by (simp add: handleConfirm_def a_pdf_def)
  from confirm_then_cancel [of a_pdf b_pdf "[1]"] sample_names(3)
  have r: "run [FilesSelected [a_pdf, b_pdf], PreviewConfirm [1], PreviewCancel] initial_state =
     initial_state\<lparr>fileQueue := [b_pdf], currentFileForPreview := Some b_pdf,
        fileStatuses := [name a_pdf \<mapsto> \<lparr>status = Parsing, progress = 0, error = None\<rparr>],
        inflight := [\<lparr>p_file = a_pdf, p_pages = handleConfirm a_pdf [1], p_preview = Some a_pdf\<rparr>]\<rparr>"
    by simp
  have p: "currentFileForPreview (run [FilesSelected [a_pdf, b_pdf], PreviewConfirm [1]] initial_state) =
       Some a_pdf"
    by (simp add: run_Cons run_Nil step_files_initial step_confirm_first)
  have m: "list_all manual [FilesSelected [a_pdf, b_pdf], PreviewConfirm [1], PreviewCancel]"
    by (simp add: manual_def)
  show ?thesis
    unfolding r using m p by (simp add: hc sample_names terminal_def)
qed

text \<open>
  Claim C6, amended. In manual mode, in every state that the events of the manual mode
  reach from the initial state: at most one file awaits preview, and it is the head of
  the queue. The file in preview changes only when the preview is cancelled, when a
  pending parse settles, or when everything is cleared; every other event only appends to
  the queue. A settled parse leaves its file with a terminal status and without an entry
  in the queue. Cancelling removes the head of the queue and by itself changes neither
  the statuses nor the pending calls. With two files uploaded, the first is in preview
  and stays there when it is confirmed; the second is in preview once the parse of the
  first has settled, or once the first preview is cancelled, be it before the
  confirmation or while the confirmed parse is still pending, in which case the first
  file keeps its parsing status and its pending call. At every instant of such a run, a
  name that has a status or a pending call of the extractor is the name of a file whose
  preview was confirmed in the run: a file that is only cancelled, never confirmed,
  gets no status and no call.
\<close>

theorem manual_preview_one_at_a_time:
  assumes "list_all manual evs"
  shows "let s = run evs initial_state in
     \<not> isAutoParse s
   \<and> card (set_option (currentFileForPreview s)) \<le> 1
   \<and> (\<forall>f. currentFileForPreview s = Some f \<longrightarrow> fileQueue s \<noteq> [] \<and> hd (fileQueue s) = f)
   \<and> (\<forall>ev f. manual ev \<and> currentFileForPreview s = Some f
               \<and> currentFileForPreview (step ev s) \<noteq> Some f \<longrightarrow>
         ev = PreviewCancel \<or> ev = Clear \<or> (\<exists>i outcome. ev = Settle i outcome))
   \<and> (\<forall>ev. manual ev \<and> ev \<noteq> PreviewCancel \<and> ev \<noteq> Clear \<and> (\<forall>i outcome. ev \<noteq> Settle i outcome) \<longrightarrow>
         take (length (fileQueue s)) (fileQueue (step ev s)) = fileQueue s)
   \<and> (\<forall>f. currentFileForPreview s = Some f \<longrightarrow>
         fileQueue (step PreviewCancel s) = tl (fileQueue s)
       \<and> fileStatuses (step PreviewCancel s) = fileStatuses s
       \<and> inflight (step PreviewCancel s) = inflight s
       \<and> candidates (step PreviewCancel s) = candidates s)
   \<and> (\<forall>i outcome. i < length (inflight s) \<longrightarrow>
         terminal (step (Settle i outcome) s) (name (p_file (inflight s ! i)))
       \<and> (\<forall>g\<in>set (fileQueue (step (Settle i outcome) s)). name g \<noteq> name (p_file (inflight s ! i))))
   \<and> (\<forall>a b sel outcome. name a \<noteq> name b \<longrightarrow>
         currentFileForPreview (run [FilesSelected [a, b]] initial_state) = Some a
       \<and> fileQueue (run [FilesSelected [a, b]] initial_state) = [a, b]
       \<and> currentFileForPreview (run [FilesSelected [a, b], PreviewConfirm sel] initial_state) = Some a
       \<and> currentFileForPreview (run [FilesSelected [a, b], PreviewConfirm sel, Settle 0 outcome] initial_state) = Some b
       \<and> terminal (run [FilesSelected [a, b], PreviewConfirm sel, Settle 0 outcome] initial_state) (name a)
       \<and> currentFileForPreview (run [FilesSelected [a, b], PreviewCancel] initial_state) = Some b
       \<and> fileStatuses (run [FilesSelected [a, b], PreviewCancel] initial_state) = Map.empty
       \<and> inflight (run [FilesSelected [a, b], PreviewCancel] initial_state) = [])
   \<and> (\<forall>a b sel. name a \<noteq> name b \<longrightarrow>
         currentFileForPreview (run [FilesSelected [a, b], PreviewConfirm sel, PreviewCancel] initial_state) = Some b
       \<and> fileQueue (run [FilesSelected [a, b], PreviewConfirm sel, PreviewCancel] initial_state) = [b]
       \<and> fileStatuses (run [FilesSelected [a, b], PreviewConfirm sel, PreviewCancel] initial_state) (name a) =
           Some \<lparr>status = Parsing, progress = 0, error = None\<rparr>
       \<and> inflight (run [FilesSelected [a, b], PreviewConfirm sel, PreviewCancel] initial_state) =
           [\<lparr>p_file = a, p_pages = handleConfirm a sel, p_preview = Some a\<rparr>])
   \<and> (\<forall>k n. touched (run (take k evs) initial_state) n \<longrightarrow> n \<in> set (confirmed evs initial_state))"
proof -
  define s where "s = run evs initial_state"
  have inv: "manual_inv s" unfolding s_def by (rule run_inv [OF assms])
  then have na: "\<not> isAutoParse s" by (simp add: manual_inv_def)
  have c1: "card (set_option (currentFileForPreview s)) \<le> 1"
    by (cases "currentFileForPreview s") simp_all
  have c2: "\<forall>f. currentFileForPreview s = Some f \<longrightarrow> fileQueue s \<noteq> [] \<and> hd (fileQueue s) = f"
    using inv by (auto simp: manual_inv_def preview_is_head_def)
  have c3: "\<forall>ev f. manual ev \<and> currentFileForPreview s = Some f
               \<and> currentFileForPreview (step ev s) \<noteq> Some f \<longrightarrow>
         ev = PreviewCancel \<or> ev = Clear \<or> (\<exists>i outcome. ev = Settle i outcome)"
    using step_keeps_preview [OF na] by blast
  have c4: "\<forall>ev. manual ev \<and> ev \<noteq> PreviewCancel \<and> ev \<noteq> Clear \<and> (\<forall>i outcome. ev \<noteq> Settle i outcome) \<longrightarrow>
         take (length (fileQueue s)) (fileQueue (step ev s)) = fileQueue s"
    using step_queue_grows by blast
  have c5: "\<forall>f. currentFileForPreview s = Some f \<longrightarrow>
         fileQueue (step PreviewCancel s) = tl (fileQueue s)
       \<and> fileStatuses (step PreviewCancel s) = fileStatuses s
       \<and> inflight (step PreviewCancel s) = inflight s
       \<and> candidates (step PreviewCancel s) = candidates s"
    using step_cancel [OF na] by blast
  have c6: "\<forall>i outcome. i < length (inflight s) \<longrightarrow>
         terminal (step (Settle i outcome) s) (name (p_file (inflight s ! i)))
       \<and> (\<forall>g\<in>set (fileQueue (step (Settle i outcome) s)). name g \<noteq> name (p_file (inflight s ! i)))"
    using step_settle [OF na] by blast
  have c7: "\<forall>a b sel outcome. name a \<noteq> name b \<longrightarrow>
         currentFileForPreview (run [FilesSelected [a, b]] initial_state) = Some a
       \<and> fileQueue (run [FilesSelected [a, b]] initial_state) = [a, b]
       \<and> currentFileForPreview (run [FilesSelected [a, b], PreviewConfirm sel] initial_state) = Some a
       \<and> currentFileForPreview (run [FilesSelected [a, b], PreviewConfirm sel, Settle 0 outcome] initial_state) = Some b
       \<and> terminal (run [FilesSelected [a, b], PreviewConfirm sel, Settle 0 outcome] initial_state) (name a)
       \<and> currentFileForPreview (run [FilesSelected [a, b], PreviewCancel] initial_state) = Some b
       \<and> fileStatuses (run [FilesSelected [a, b], PreviewCancel] initial_state) = Map.empty
       \<and> inflight (run [FilesSelected [a, b], PreviewCancel] initial_state) = []"
    using two_files by blast
  have c8: "(\<forall>a b sel. name a \<noteq> name b \<longrightarrow>
         currentFileForPreview (run [FilesSelected [a, b], PreviewConfirm sel, PreviewCancel] initial_state) = Some b
       \<and> fileQueue (run [FilesSelected [a, b], PreviewConfirm sel, PreviewCancel] initial_state) = [b]
       \<and> fileStatuses (run [FilesSelected [a, b], PreviewConfirm sel, PreviewCancel] initial_state) (name a) =
           Some \<lparr>status = Parsing, progress = 0, error = None\<rparr>
       \<and> inflight (run [FilesSelected [a, b], PreviewConfirm sel, PreviewCancel] initial_state) =
           [\<lparr>p_file = a, p_pages = handleConfirm a sel, p_preview = Some a\<rparr>])"
  proof (intro allI impI)
    fix a b :: File and sel
    assume "name a \<noteq> name b"
    with confirm_then_cancel [of a b sel]
    have r: "run [FilesSelected [a, b], PreviewConfirm sel, PreviewCancel] initial_state =
     initial_state\<lparr>fileQueue := [b], currentFileForPreview := Some b,
        fileStatuses := [name a \<mapsto> \<lparr>status = Parsing, progress = 0, error = None\<rparr>],
        inflight := [\<lparr>p_file = a, p_pages = handleConfirm a sel, p_preview = Some a\<rparr>]\<rparr>"
      by simp
    show "currentFileForPreview (run [FilesSelected [a, b], PreviewConfirm sel, PreviewCancel] initial_state) = Some b
       \<and> fileQueue (run [FilesSelected [a, b], PreviewConfirm sel, PreviewCancel] initial_state) = [b]
       \<and> fileStatuses (run [FilesSelected [a, b], PreviewConfirm sel, PreviewCancel] initial_state) (name a) =
           Some \<lparr>status = Parsing, progress = 0, error = None\<rparr>
       \<and> inflight (run [FilesSelected [a, b], PreviewConfirm sel, PreviewCancel] initial_state) =
           [\<lparr>p_file = a, p_pages = handleConfirm a sel, p_preview = Some a\<rparr>]"
      unfolding r by simp
  qed
  have c9: "(\<forall>k n. touched (run (take k evs) initial_state) n \<longrightarrow> n \<in> set (confirmed evs initial_state))"
    using never_confirmed [OF assms] by blast
  from na c1 c2 c3 c4 c5 c6 c7 c8 c9 show ?thesis
    unfolding Let_def s_def [symmetric] by (intro conjI)
qed

text \<open>
  Claim C6, amended, on the upload of \<open>a.pdf\<close> and \<open>b.pdf\<close>, and on the
  cancellation of the first preview.
\<close>

theorem manual_preview_one_at_a_time_witness:
  "list_all manual [FilesSelected [a_pdf, b_pdf]]
   \<and> name a_pdf \<noteq> name b_pdf
   \<and> currentFileForPreview (run [FilesSelected [a_pdf, b_pdf]] initial_state) = Some a_pdf
   \<and> hd (fileQueue (run [FilesSelected [a_pdf, b_pdf]] initial_state)) = a_pdf
   \<and> currentFileForPreview
        (step (FilesSelected [jane_png]) (run [FilesSelected [a_pdf, b_pdf]] initial_state)) = Some a_pdf
   \<and> currentFileForPreview (run [FilesSelected [a_pdf, b_pdf], PreviewCancel] initial_state) = Some b_pdf
   \<and> inflight (run [FilesSelected [a_pdf, b_pdf], PreviewCancel] initial_state) = []
   \<and> list_all manual [FilesSelected [a_pdf, b_pdf], PreviewCancel]
   \<and> confirmed [FilesSelected [a_pdf, b_pdf], PreviewCancel] initial_state = []
   \<and> \<not> touched (run [FilesSelected [a_pdf, b_pdf], PreviewCancel] initial_state) ''a.pdf''"
proof -
  let ?s = "run [FilesSelected [a_pdf, b_pdf]] initial_state"
  have m: "list_all manual [FilesSelected [a_pdf, b_pdf]]" by (simp add: manual_def)
  note T = manual_preview_one_at_a_time [OF m, unfolded Let_def]
  from T have c2: "\<forall>f. currentFileForPreview ?s = Some f \<longrightarrow> fileQueue ?s \<noteq> [] \<and> hd (fileQueue ?s) = f"
    by (elim conjE)
  from T have c3: "\<forall>ev f. manual ev \<and> currentFileForPreview ?s = Some f
               \<and> currentFileForPreview (step ev ?s) \<noteq> Some f \<longrightarrow>
         ev = PreviewCancel \<or> ev = Clear \<or> (\<exists>i outcome. ev = Settle i outcome)"
    by (elim conjE)
  from T have c7: "\<forall>a b sel outcome. name a \<noteq> name b \<longrightarrow>
         currentFileForPreview (run [FilesSelected [a, b]] initial_state) = Some a
       \<and> fileQueue (run [FilesSelected [a, b]] initial_state) = [a, b]
       \<and> currentFileForPreview (run [FilesSelected [a, b], PreviewConfirm sel] initial_state) = Some a
       \<and> currentFileForPreview (run [FilesSelected [a, b], PreviewConfirm sel, Settle 0 outcome] initial_state) = Some b
       \<and> terminal (run [FilesSelected [a, b], PreviewConfirm sel, Settle 0 outcome] initial_state) (name a)
       \<and> currentFileForPreview (run [FilesSelected [a, b], PreviewCancel] initial_state) = Some b
       \<and> fileStatuses (run [FilesSelected [a, b], PreviewCancel] initial_state) = Map.empty
       \<and> inflight (run [FilesSelected [a, b], PreviewCancel] initial_state) = []"
    by (elim conjE)
  from c7 [THEN spec, THEN spec, THEN spec, THEN spec, THEN mp, OF sample_names(3), of "[]" "Inl NonError"]
  have p: "currentFileForPreview ?s = Some a_pdf"
    and pc: "currentFileForPreview (run [FilesSelected [a_pdf, b_pdf], PreviewCancel] initial_state) = Some b_pdf"
    and ic: "inflight (run [FilesSelected [a_pdf, b_pdf], PreviewCancel] initial_state) = []"
    by simp_all
  from c2 p have h: "hd (fileQueue ?s) = a_pdf" by simp
  have "manual (FilesSelected [jane_png])" by (simp add: manual_def)
  with c3 [THEN spec, THEN spec, of "FilesSelected [jane_png]" a_pdf] p
  have k: "currentFileForPreview (step (FilesSelected [jane_png]) ?s) = Some a_pdf" by auto
  have m2: "list_all manual [FilesSelected [a_pdf, b_pdf], PreviewCancel]" by (simp add: manual_def)
  note T2 = manual_preview_one_at_a_time [OF m2, unfolded Let_def]
  from T2 have c9: "\<forall>k n. touched (run (take k [FilesSelected [a_pdf, b_pdf], PreviewCancel]) initial_state) n \<longrightarrow>
      n \<in> set (confirmed [FilesSelected [a_pdf, b_pdf], PreviewCancel] initial_state)"
    by (elim conjE)
  have cf: "confirmed [FilesSelected [a_pdf, b_pdf], PreviewCancel] initial_state = []"
    by simp
  from c9 [THEN spec, THEN spec, of 2 "''a.pdf''"]
  have nt: "\<not> touched (run [FilesSelected [a_pdf, b_pdf], PreviewCancel] initial_state) ''a.pdf''"
    unfolding cf by auto
  from m sample_names(3) p h k pc ic m2 cf nt show ?thesis by (intro conjI)
qed

lemma step_files_queue:
  "fileQueue (step (FilesSelected files) s) =
     fileQueue s @ filter (\<lambda>f. fileStatuses s (name f) = None) files"
  by (simp add: step_def QueueManager_frame handle_def handleFiles_def Let_def)

lemma auto_twice:
  "fileQueue (run [ToggleAutoParse, FilesSelected [f], FilesSelected [f]] initial_state) = [f]"
proof -
  have s1: "step ToggleAutoParse initial_state = initial_state\<lparr>isAutoParse := True\<rparr>"
    by (simp add: step_def handle_def QueueManager_def initial_state_def)
  have h2: "handle (FilesSelected [f]) (initial_state\<lparr>isAutoParse := True\<rparr>) =
      initial_state\<lparr>isAutoParse := True, fileQueue := [f]\<rparr>"
    by (simp add: handle_def handleFiles_def initial_state_def)
  have s2: "fileStatuses (step (FilesSelected [f]) (initial_state\<lparr>isAutoParse := True\<rparr>)) (name f) \<noteq> None
     \<and> fileQueue (step (FilesSelected [f]) (initial_state\<lparr>isAutoParse := True\<rparr>)) = [f]"
    unfolding step_def h2
    by (simp add: QueueManager_def isParsing_def processFile_begin_def initial_state_def Let_def)
  show ?thesis
    using s2 by (simp add: run_Cons run_Nil s1 step_files_queue)
qed

text \<open>
  Claim C2 as stated fails: in auto-parse mode, \<open>b.pdf\<close> uploaded again while
  \<open>a.pdf\<close> is parsing has two entries in the queue, since it has no status yet; in
  manual mode the same holds of \<open>a.pdf\<close> uploaded twice, which awaits its preview.
\<close>

theorem duplicate_queue_entry_counterexample:
  "fileQueue (run [ToggleAutoParse, FilesSelected [a_pdf, b_pdf], FilesSelected [b_pdf]] initial_state)
     = [a_pdf, b_pdf, b_pdf]
   \<and> fileQueue (run [FilesSelected [a_pdf], FilesSelected [a_pdf]] initial_state) = [a_pdf, a_pdf]"
proof -
  have s1: "step ToggleAutoParse initial_state = initial_state\<lparr>isAutoParse := True\<rparr>"
    by (simp add: step_def handle_def QueueManager_def initial_state_def)
  have h2: "handle (FilesSelected [a_pdf, b_pdf]) (initial_state\<lparr>isAutoParse := True\<rparr>) =
      initial_state\<lparr>isAutoParse := True, fileQueue := [a_pdf, b_pdf]\<rparr>"
    by (simp add: handle_def handleFiles_def initial_state_def)
  have s2: "fileStatuses (step (FilesSelected [a_pdf, b_pdf]) (initial_state\<lparr>isAutoParse := True\<rparr>)) (name b_pdf) = None
     \<and> fileQueue (step (FilesSelected [a_pdf, b_pdf]) (initial_state\<lparr>isAutoParse := True\<rparr>)) = [a_pdf, b_pdf]"
    unfolding step_def h2
    by (simp add: QueueManager_def isParsing_def processFile_begin_def initial_state_def Let_def
          sample_names)
  have auto_mode: "fileQueue (run [ToggleAutoParse, FilesSelected [a_pdf, b_pdf], FilesSelected [b_pdf]] initial_state)
     = [a_pdf, b_pdf, b_pdf]"
    using s2 by (simp add: run_Cons run_Nil s1 step_files_queue)
  have h3: "handle (FilesSelected [a_pdf]) initial_state = initial_state\<lparr>fileQueue := [a_pdf]\<rparr>"
    by (simp add: handle_def handleFiles_def initial_state_def)
  have s3: "fileStatuses (step (FilesSelected [a_pdf]) initial_state) (name a_pdf) = None
     \<and> fileQueue (step (FilesSelected [a_pdf]) initial_state) = [a_pdf]"
    unfolding step_def h3
    by (simp add: QueueManager_manual isParsing_def initial_state_def)
  have manual_mode: "fileQueue (run [FilesSelected [a_pdf], FilesSelected [a_pdf]] initial_state) = [a_pdf, a_pdf]"
    using s3 by (simp add: run_Cons run_Nil step_files_queue)
  from auto_mode manual_mode show ?thesis by (intro conjI)
qed

text \<open>
  Claim C2, amended. A file name has at most one status. An upload skips exactly the files
  whose name has a status: the queue after it is the queue before it, followed by the
  uploaded files whose name has none, so a file whose name has a status gets no new
  entry. In auto-parse mode, from the initial state, a file uploaded twice in sequence
  has one entry in the queue, since its dispatch has given it a status.
\<close>

theorem upload_skips_known_names:
  "fileQueue (step (FilesSelected files) s) =
     fileQueue s @ filter (\<lambda>f. fileStatuses s (name f) = None) files
   \<and> (\<forall>f\<in>set files. fileStatuses s (name f) \<noteq> None \<longrightarrow>
         count_list (fileQueue (step (FilesSelected files) s)) f = count_list (fileQueue s) f)
   \<and> (\<forall>n. card {st. fileStatuses s n = Some st} \<le> 1)
   \<and> fileQueue (run [ToggleAutoParse, FilesSelected [f], FilesSelected [f]] initial_state) = [f]"
proof -
  have c: "count_list (filter P xs) x = (if P x then count_list xs x else 0)" for P and xs :: "File list" and x
    by (induction xs) auto
  have b: "\<forall>f\<in>set files. fileStatuses s (name f) \<noteq> None \<longrightarrow>
         count_list (fileQueue (step (FilesSelected files) s)) f = count_list (fileQueue s) f"
    by (simp add: step_files_queue c)
  have d: "\<forall>n. card {st. fileStatuses s n = Some st} \<le> 1"
  proof
    fix n
    show "card {st. fileStatuses s n = Some st} \<le> 1"
      by (cases "fileStatuses s n") simp_all
  qed
  from step_files_queue [of files s] b d auto_twice [of f] show ?thesis by (intro conjI)
qed

text \<open>
  Claim C2, amended, on an upload of \<open>a.pdf\<close> and \<open>b.pdf\<close> while
  \<open>a.pdf\<close> is parsing.
\<close>

theorem upload_skips_known_names_witness:
  "fileStatuses (run [ToggleAutoParse, FilesSelected [a_pdf]] initial_state) (name a_pdf) \<noteq> None
   \<and> a_pdf \<in> set [a_pdf, b_pdf]
   \<and> fileQueue (step (FilesSelected [a_pdf, b_pdf]) (run [ToggleAutoParse, FilesSelected [a_pdf]] initial_state))
       = [a_pdf, b_pdf]
   \<and> count_list
        (fileQueue (step (FilesSelected [a_pdf, b_pdf]) (run [ToggleAutoParse, FilesSelected [a_pdf]] initial_state)))
        a_pdf = 1"
proof -
  let ?s = "run [ToggleAutoParse, FilesSelected [a_pdf]] initial_state"
  have s1: "step ToggleAutoParse initial_state = initial_state\<lparr>isAutoParse := True\<rparr>"
    by (simp add: step_def handle_def QueueManager_def initial_state_def)
  have h2: "handle (FilesSelected [a_pdf]) (initial_state\<lparr>isAutoParse := True\<rparr>) =
      initial_state\<lparr>isAutoParse := True, fileQueue := [a_pdf]\<rparr>"
    by (simp add: handle_def handleFiles_def initial_state_def)
  have rs: "?s = step (FilesSelected [a_pdf]) (initial_state\<lparr>isAutoParse := True\<rparr>)"
    by (simp add: run_Cons run_Nil s1)
  have s2: "fileStatuses ?s (name a_pdf) \<noteq> None \<and> fileStatuses ?s (name b_pdf) = None \<and> fileQueue ?s = [a_pdf]"
    unfolding rs step_def h2
    by (simp add: QueueManager_def isParsing_def processFile_begin_def initial_state_def Let_def
          sample_names)
  note T = upload_skips_known_names [of "[a_pdf, b_pdf]" ?s a_pdf]
  from T have q: "fileQueue (step (FilesSelected [a_pdf, b_pdf]) ?s) =
     fileQueue ?s @ filter (\<lambda>f. fileStatuses ?s (name f) = None) [a_pdf, b_pdf]"
    by (elim conjE)
  from T have b: "\<forall>f\<in>set [a_pdf, b_pdf]. fileStatuses ?s (name f) \<noteq> None \<longrightarrow>
         count_list (fileQueue (step (FilesSelected [a_pdf, b_pdf]) ?s)) f = count_list (fileQueue ?s) f"
    by (elim conjE)
  have q': "fileQueue (step (FilesSelected [a_pdf, b_pdf]) ?s) = [a_pdf, b_pdf]"
    using q s2 by simp
  have "count_list (fileQueue (step (FilesSelected [a_pdf, b_pdf]) ?s)) a_pdf = count_list (fileQueue ?s) a_pdf"
    using b s2 by simp
  then have n: "count_list (fileQueue (step (FilesSelected [a_pdf, b_pdf]) ?s)) a_pdf = 1"
    using s2 by simp
  from s2 q' n show ?thesis by simp
qed

end
